(* ===== verification/F3_Prelude.thy ===== *)
theory F3_Prelude
  imports Main "HOL-Library.Word" "HOL-Library.Multiset" "HOL-Library.Monad_Syntax"
begin

text \<open>
  Prelude of the F3-tree development: the machine types the components share, the
  collections that carry the automation, and generic facts on lists.

  Keys (\<^verbatim>\<open>entry_key_t\<close>, a 64-bit signed integer) and the 8-byte buckets of a page
  (\<^verbatim>\<open>entry_ptr_t\<close>: a page address in an internal page, a leaf value in a leaf) are
  integers, since the code only compares them; the two are punned, exactly as the C++ code
  casts between them, and the null pointer is 0.  Wrap-around is written out where the code
  computes with such values.
\<close>

type_synonym entry_key_t = int
type_synonym entry_ptr_t = int

text \<open>A cell is a (key, bucket) pair: the abstract view of one record of a page.\<close>

type_synonym cell = "int \<times> int"

definition LONG_MAX :: int where
  "LONG_MAX = 2 ^ 63 - 1"

definition LONG_MIN :: int where
  "LONG_MIN = - (2 ^ 63)"

text \<open>\<open>slot_simps\<close>: rewriting of array slots; \<open>cell_simps\<close>: ordered lists of cells;
  \<open>page_simps\<close>: the operations of a page on its live cells.\<close>

named_theorems slot_simps
named_theorems cell_simps
named_theorems page_simps

subsection \<open>Lists updated at an index\<close>

lemma take_Suc_update [slot_simps]:
  "i < length xs \<Longrightarrow> take (Suc i) (xs[i := x]) = take i xs @ [x]"
  by (simp add: take_Suc_conv_app_nth)

lemma ball_list_update: "\<forall>e \<in> set xs. P e \<Longrightarrow> P x \<Longrightarrow> \<forall>e \<in> set (xs[i := x]). P e"
  by (auto dest!: set_update_subset_insert [THEN subsetD])

lemma list_all_nth_iff: "list_all P xs \<longleftrightarrow> (\<forall>i < length xs. P (xs ! i))"
  by (auto simp: list_all_length)

end
