(* ===== verification/Page.thy ===== *)
theory Page
  imports F3_Prelude
begin

text \<open>
  One page of the global B+-tree (\<^verbatim>\<open>core/btree.h\<close>, classes \<^verbatim>\<open>header\<close>,
  \<^verbatim>\<open>entry\<close> and \<^verbatim>\<open>page\<close>): its fields, its constructors and the operations
  that touch a single page, \<^verbatim>\<open>count\<close>, \<^verbatim>\<open>insert_key\<close>,
  \<^verbatim>\<open>remove_key\<close> and the two search directions of \<^verbatim>\<open>linear_search\<close>.

  The record array is a list of \<open>cardinality\<close> slots; slots behind the null terminator keep
  whatever an earlier shift or split left there, as in memory.  A read behind the array is
  undefined behaviour in the code; \<open>slot\<close> reads it as a fresh entry, and the page
  invariant (theory \<open>Page_Correct\<close>) shows that no operation gets there.  Cache-line flushes
  and the page mutex have no effect on the sequential state and are left out.  The retry loop
  around every reader (\<^verbatim>\<open>do \<dots> while (previous_switch_counter != hdr.switch_counter)\<close>)
  runs once when no writer interferes.
\<close>

section \<open>Data\<close>

definition PAGESIZE :: nat where
  "PAGESIZE = 512"

text \<open>Two pointers, \<^verbatim>\<open>uint32_t\<close>, two \<^verbatim>\<open>uint8_t\<close>, \<^verbatim>\<open>int16_t\<close> and the
  embedded \<^verbatim>\<open>std::mutex\<close> (40 bytes on Linux/x86-64).\<close>

definition sizeof_header :: nat where
  "sizeof_header = 8 + 8 + 4 + 1 + 1 + 2 + 40"

definition sizeof_entry :: nat where
  "sizeof_entry = 8 + 8"

definition cardinality :: nat where
  "cardinality = (PAGESIZE - sizeof_header) div sizeof_entry"

record entry =
  ekey :: entry_key_t
  eptr :: entry_ptr_t

record header =
  leftmost_ptr :: entry_ptr_t
  sibling_ptr :: entry_ptr_t
  level :: nat
  switch_counter :: "8 word"
  is_deleted :: bool
  last_index :: int

record page = header +
  records :: "entry list"

definition entry_ctor :: entry where
  "entry_ctor = \<lparr>ekey = LONG_MAX, eptr = 0\<rparr>"

text \<open>Reading and writing one field of \<^verbatim>\<open>records[i]\<close>.\<close>

definition slot :: "entry list \<Rightarrow> nat \<Rightarrow> entry" where
  "slot rs i = (if i < length rs then rs ! i else entry_ctor)"

definition set_key :: "entry list \<Rightarrow> nat \<Rightarrow> entry_key_t \<Rightarrow> entry list" where
  "set_key rs i k = rs[i := (slot rs i)\<lparr>ekey := k\<rparr>]"

definition set_ptr :: "entry list \<Rightarrow> nat \<Rightarrow> entry_ptr_t \<Rightarrow> entry list" where
  "set_ptr rs i v = rs[i := (slot rs i)\<lparr>eptr := v\<rparr>]"

definition IS_FORWARD :: "8 word \<Rightarrow> bool" where
  "IS_FORWARD c \<longleftrightarrow> c mod 2 = 0"

section \<open>Constructors\<close>

definition page_ctor :: "nat \<Rightarrow> page" where
  "page_ctor lvl =
     \<lparr>leftmost_ptr = 0, sibling_ptr = 0, level = lvl, switch_counter = 0, is_deleted = False,
      last_index = -1, records = set_ptr (replicate cardinality entry_ctor) 0 0\<rparr>"

text \<open>The constructor called when the tree grows.\<close>

definition page_ctor_grow :: "entry_ptr_t \<Rightarrow> entry_key_t \<Rightarrow> entry_ptr_t \<Rightarrow> nat \<Rightarrow> page" where
  "page_ctor_grow left key right lvl =
     \<lparr>leftmost_ptr = left, sibling_ptr = 0, level = lvl, switch_counter = 0, is_deleted = False,
      last_index = 0,
      records = set_ptr (set_ptr (set_key (replicate cardinality entry_ctor) 0 key) 0 right) 1 0\<rparr>"

section \<open>Counting the live records\<close>

function count_up :: "entry list \<Rightarrow> nat \<Rightarrow> nat" where
  "count_up rs i = (if eptr (slot rs i) \<noteq> 0 then count_up rs (i + 1) else i)"
  by pat_completeness auto
termination
  by (relation "measure (\<lambda>(rs, i). length rs - i)")
    (auto simp: slot_def entry_ctor_def split: if_splits)

fun count_down :: "entry list \<Rightarrow> nat \<Rightarrow> int" where
  "count_down rs 0 = (if eptr (slot rs 0) \<noteq> 0 then -1 else 0)"
| "count_down rs (Suc i) = (if eptr (slot rs (Suc i)) \<noteq> 0 then count_down rs i else int (Suc i))"

definition count :: "page \<Rightarrow> nat" where
  "count p =
     (let c = last_index p + 1;
          c' = (if c < 0 then c
                else if IS_FORWARD (switch_counter p) then int (count_up (records p) (nat c))
                else count_down (records p) (nat c))
      in if c' < 0 then count_up (records p) 0 else nat c')"

section \<open>Inserting into a page with room\<close>

text \<open>The FAST shift from the last record leftwards.  The index of the loop is the first
  argument, so \<open>0\<close> is the exit of the loop with \<^verbatim>\<open>inserted == 0\<close>.\<close>

fun insert_shift :: "nat \<Rightarrow> entry_key_t \<Rightarrow> entry_ptr_t \<Rightarrow> entry_ptr_t \<Rightarrow> entry list \<Rightarrow> entry list" where
  "insert_shift 0 key ptr lm rs = set_ptr (set_key (set_ptr rs 0 lm) 0 key) 0 ptr"
| "insert_shift (Suc i) key ptr lm rs =
     (if key < ekey (slot rs i)
      then insert_shift i key ptr lm
             (set_key (set_ptr rs (i + 1) (eptr (slot rs i))) (i + 1) (ekey (slot rs i)))
      else set_ptr (set_key (set_ptr rs (i + 1) (eptr (slot rs i))) (i + 1) key) (i + 1) ptr)"

definition insert_key ::
  "page \<Rightarrow> entry_key_t \<Rightarrow> entry_ptr_t \<Rightarrow> nat \<Rightarrow> bool \<Rightarrow> page \<times> nat" where
  "insert_key p key ptr num_entries update_last_index =
     (let sc = (if \<not> IS_FORWARD (switch_counter p) then switch_counter p + 1 else switch_counter p);
          rs = (if num_entries = 0
                then set_ptr (set_ptr (set_key (records p) 0 key) 0 ptr) 1 0
                else insert_shift num_entries key ptr (leftmost_ptr p)
                       (set_ptr (records p) (num_entries + 1) (eptr (slot (records p) num_entries))));
          li = (if update_last_index then int num_entries else last_index p)
      in (p\<lparr>switch_counter := sc, records := rs, last_index := li\<rparr>, num_entries + 1))"

section \<open>Removing a key\<close>

text \<open>The loop of \<^verbatim>\<open>remove_key\<close>: \<open>sh\<close> is the local \<^verbatim>\<open>shift\<close>, \<open>i\<close> the index.\<close>

function remove_shift :: "entry_key_t \<Rightarrow> entry_ptr_t \<Rightarrow> bool \<Rightarrow> nat \<Rightarrow> entry list \<Rightarrow> bool \<times> entry list" where
  "remove_shift key lm sh i rs =
     (if eptr (slot rs i) = 0 then (sh, rs)
      else
        let hit = (\<not> sh \<and> ekey (slot rs i) = key);
            rs1 = (if hit then set_ptr rs i (if i = 0 then lm else eptr (slot rs (i - 1))) else rs);
            sh1 = (sh \<or> hit);
            rs2 = (if sh1
                   then set_ptr (set_key rs1 i (ekey (slot rs1 (i + 1)))) i (eptr (slot rs1 (i + 1)))
                   else rs1)
        in remove_shift key lm sh1 (i + 1) rs2)"
  by pat_completeness auto
termination
  by (relation "measure (\<lambda>(key, lm, sh, i, rs). length rs - i)")
    (auto simp: slot_def set_ptr_def set_key_def entry_ctor_def Let_def split: if_splits)

definition remove_key :: "page \<Rightarrow> entry_key_t \<Rightarrow> page \<times> bool" where
  "remove_key p key =
     (let sc = (if IS_FORWARD (switch_counter p) then switch_counter p + 1 else switch_counter p);
          (sh, rs) = remove_shift key (leftmost_ptr p) False 0 (records p);
          li = (if sh then last_index p - 1 else last_index p)
      in (p\<lparr>switch_counter := sc, records := rs, last_index := li\<rparr>, sh))"

section \<open>Searching the records of one page\<close>

function leaf_scan_forward :: "entry list \<Rightarrow> entry_key_t \<Rightarrow> nat \<Rightarrow> entry_ptr_t" where
  "leaf_scan_forward rs key i =
     (if eptr (slot rs i) = 0 then 0
      else if ekey (slot rs i) = key \<and> eptr (slot rs (i - 1)) \<noteq> eptr (slot rs i)
      then eptr (slot rs i)
      else leaf_scan_forward rs key (i + 1))"
  by pat_completeness auto
termination
  by (relation "measure (\<lambda>(rs, key, i). length rs - i)")
    (auto simp: slot_def entry_ctor_def split: if_splits)

fun leaf_scan_backward :: "entry list \<Rightarrow> entry_key_t \<Rightarrow> nat \<Rightarrow> entry_ptr_t" where
  "leaf_scan_backward rs key 0 = 0"
| "leaf_scan_backward rs key (Suc i) =
     (if ekey (slot rs (Suc i)) = key \<and> eptr (slot rs i) \<noteq> eptr (slot rs (Suc i))
         \<and> eptr (slot rs (Suc i)) \<noteq> 0
      then eptr (slot rs (Suc i))
      else leaf_scan_backward rs key i)"

text \<open>The local \<^verbatim>\<open>ret\<close> after the search of a leaf.\<close>

definition leaf_search :: "page \<Rightarrow> entry_key_t \<Rightarrow> entry_ptr_t" where
  "leaf_search p key =
     (let rs = records p in
      if IS_FORWARD (switch_counter p) then
        (if ekey (slot rs 0) = key \<and> eptr (slot rs 0) \<noteq> 0 then eptr (slot rs 0)
         else leaf_scan_forward rs key 1)
      else
        (let ret = leaf_scan_backward rs key (count p - 1) in
         if ret = 0 \<and> ekey (slot rs 0) = key \<and> eptr (slot rs 0) \<noteq> 0 then eptr (slot rs 0)
         else ret))"

function internal_scan_forward :: "entry list \<Rightarrow> entry_key_t \<Rightarrow> nat \<Rightarrow> entry_ptr_t" where
  "internal_scan_forward rs key i =
     (if eptr (slot rs i) = 0 then eptr (slot rs (i - 1))
      else if key < ekey (slot rs i) \<and> eptr (slot rs (i - 1)) \<noteq> eptr (slot rs i)
      then eptr (slot rs (i - 1))
      else internal_scan_forward rs key (i + 1))"
  by pat_completeness auto
termination
  by (relation "measure (\<lambda>(rs, key, i). length rs - i)")
    (auto simp: slot_def entry_ctor_def split: if_splits)

fun internal_scan_backward :: "entry list \<Rightarrow> entry_ptr_t \<Rightarrow> entry_key_t \<Rightarrow> nat \<Rightarrow> entry_ptr_t" where
  "internal_scan_backward rs lm key 0 = 0"
| "internal_scan_backward rs lm key (Suc i) =
     (if ekey (slot rs i) \<le> key
         \<and> (if i = 0 then lm else eptr (slot rs (i - 1))) \<noteq> eptr (slot rs i)
      then eptr (slot rs i)
      else internal_scan_backward rs lm key i)"

text \<open>The local \<^verbatim>\<open>ret\<close> after the search of an internal page.\<close>

definition internal_search :: "page \<Rightarrow> entry_key_t \<Rightarrow> entry_ptr_t" where
  "internal_search p key =
     (let rs = records p in
      if IS_FORWARD (switch_counter p) then
        (if key < ekey (slot rs 0) \<and> leftmost_ptr p \<noteq> eptr (slot rs 0) then leftmost_ptr p
         else internal_scan_forward rs key 1)
      else internal_scan_backward rs (leftmost_ptr p) key (count p))"

declare count_up.simps [simp del] remove_shift.simps [simp del]
  leaf_scan_forward.simps [simp del] internal_scan_forward.simps [simp del]

end
