(* ===== verification/Key_Index.thy ===== *)
theory Key_Index
  imports F3_Prelude
begin

text \<open>
  The contract between the global tree and the layer that buffers operations in front of it.
  The client of the tree sees a state with a set of reachable keys and three partial operations;
  \<open>key_index\<close> says what they promise on every well-formed state, \<open>exact_index\<close> adds that a
  deleted key is gone.  The replay of a list of buffered operations is proved correct once, here.
\<close>

section \<open>Buffered operations\<close>

text \<open>\<^verbatim>\<open>struct future_buffered_op\<close>\<close>

record future_buffered_op =
  op_key :: entry_key_t
  op_is_delete :: bool
  op_sequence :: "64 word"
  op_producer_id :: int

text \<open>What replaying one operation does on an index: the delete only runs when the search finds
  the key, the insert runs unconditionally.\<close>

definition index_apply ::
  "('s \<Rightarrow> int \<Rightarrow> int option) \<Rightarrow> ('s \<Rightarrow> int \<Rightarrow> 's option) \<Rightarrow> ('s \<Rightarrow> int \<Rightarrow> 's option) \<Rightarrow>
   's \<Rightarrow> future_buffered_op \<Rightarrow> 's option" where
  "index_apply search ins del s op =
     (if op_is_delete op
      then do { r \<leftarrow> search s (op_key op);
                if r \<noteq> 0 then del s (op_key op) else Some s }
      else ins s (op_key op))"

fun index_replay ::
  "('s \<Rightarrow> int \<Rightarrow> int option) \<Rightarrow> ('s \<Rightarrow> int \<Rightarrow> 's option) \<Rightarrow> ('s \<Rightarrow> int \<Rightarrow> 's option) \<Rightarrow>
   's \<Rightarrow> future_buffered_op list \<Rightarrow> 's option" where
  "index_replay search ins del s [] = Some s"
| "index_replay search ins del s (op # ops) =
     do { s' \<leftarrow> index_apply search ins del s op; index_replay search ins del s' ops }"

text \<open>The abstract effect on a set of keys.\<close>

definition op_effect :: "future_buffered_op \<Rightarrow> int set \<Rightarrow> int set" where
  "op_effect op K = (if op_is_delete op then K - {op_key op} else insert (op_key op) K)"

definition ops_effect :: "future_buffered_op list \<Rightarrow> int set \<Rightarrow> int set" where
  "ops_effect ops K = fold op_effect ops K"

text \<open>No operation inserts a key that is present at that point.\<close>

fun fresh_inserts :: "future_buffered_op list \<Rightarrow> int set \<Rightarrow> bool" where
  "fresh_inserts [] K = True"
| "fresh_inserts (op # ops) K =
     ((op_is_delete op \<or> op_key op \<notin> K) \<and> fresh_inserts ops (op_effect op K))"

lemma ops_effect_simps [simp]:
  "ops_effect [] K = K" "ops_effect (op # ops) K = ops_effect ops (op_effect op K)"
  "ops_effect (ops @ ops') K = ops_effect ops' (ops_effect ops K)"
  by (simp_all add: ops_effect_def)

text \<open>The set of keys after a replay is decided by the last operation on each key.\<close>

definition last_op :: "int \<Rightarrow> future_buffered_op list \<Rightarrow> future_buffered_op option" where
  "last_op k ops = (case filter (\<lambda>op. op_key op = k) (rev ops) of [] \<Rightarrow> None | op # _ \<Rightarrow> Some op)"

lemma last_op_snoc:
  "last_op k (ops @ [op]) = (if op_key op = k then Some op else last_op k ops)"
  by (simp add: last_op_def)

lemma last_op_Nil [simp]: "last_op k [] = None"
  by (simp add: last_op_def)

lemma ops_effect_last:
  "k \<in> ops_effect ops K \<longleftrightarrow>
     (case last_op k ops of None \<Rightarrow> k \<in> K | Some op \<Rightarrow> \<not> op_is_delete op)"
proof (induction ops rule: rev_induct)
  case (snoc op ops)
  then show ?case by (auto simp: last_op_snoc op_effect_def split: option.splits)
qed simp

section \<open>The interface\<close>

locale key_index =
  fixes inv :: "'s \<Rightarrow> bool" and keys :: "'s \<Rightarrow> int set" and key_ok :: "int \<Rightarrow> bool"
    and can_insert :: "'s \<Rightarrow> int \<Rightarrow> bool"
    and search :: "'s \<Rightarrow> int \<Rightarrow> int option" and ins :: "'s \<Rightarrow> int \<Rightarrow> 's option"
    and del :: "'s \<Rightarrow> int \<Rightarrow> 's option"
  assumes key_nz: "key_ok k \<Longrightarrow> k \<noteq> 0"
    and search_law: "inv s \<Longrightarrow> key_ok k \<Longrightarrow> search s k = Some (if k \<in> keys s then k else 0)"
    and ins_law: "inv s \<Longrightarrow> key_ok k \<Longrightarrow> can_insert s k \<Longrightarrow>
      \<exists>s'. ins s k = Some s' \<and> inv s' \<and> keys s' = insert k (keys s)"
    and del_law: "inv s \<Longrightarrow> key_ok k \<Longrightarrow> k \<in> keys s \<Longrightarrow>
      \<exists>s'. del s k = Some s' \<and> inv s' \<and> keys s' - {k} = keys s - {k}"
begin

lemma apply_returns:
  assumes "inv s" "key_ok (op_key op)" "op_is_delete op \<or> can_insert s (op_key op)"
  obtains s' where "index_apply search ins del s op = Some s'" "inv s'"
    "keys s' - {op_key op} = keys s - {op_key op}"
    "\<not> op_is_delete op \<Longrightarrow> op_key op \<in> keys s'"
proof (cases "op_is_delete op")
  case True
  show thesis
  proof (cases "op_key op \<in> keys s")
    case mem: True
    then show thesis
      using that del_law [OF assms(1,2) mem] search_law [OF assms(1,2)] key_nz [OF assms(2)] True
      by (auto simp: index_apply_def)
  next
    case False
    then show thesis using that [of s] assms(1) search_law [OF assms(1,2)] True by (simp add: index_apply_def)
  qed
next
  case False
  then obtain s' where "ins s (op_key op) = Some s'" "inv s'" "keys s' = insert (op_key op) (keys s)"
    using ins_law [OF assms(1,2)] assms(3) by auto
  then show thesis using that [of s'] False by (auto simp: index_apply_def)
qed

end

locale open_index = key_index +
  assumes always: "can_insert s k"
begin

text \<open>A replay returns on every list of operations; keys without an operation are untouched and
  a key whose last operation is an insert is present.\<close>

lemma replay_returns:
  assumes "inv s" "\<forall>op \<in> set ops. key_ok (op_key op)"
  obtains s' where "index_replay search ins del s ops = Some s'" "inv s'"
    "\<And>k. k \<notin> op_key ` set ops \<Longrightarrow> k \<in> keys s' \<longleftrightarrow> k \<in> keys s"
    "\<And>k op. last_op k ops = Some op \<Longrightarrow> \<not> op_is_delete op \<Longrightarrow> k \<in> keys s'"
proof -
  have "\<exists>s'. index_replay search ins del s ops = Some s' \<and> inv s' \<and>
      (\<forall>k. k \<notin> op_key ` set ops \<longrightarrow> (k \<in> keys s' \<longleftrightarrow> k \<in> keys s)) \<and>
      (\<forall>k. (case last_op k ops of None \<Rightarrow> k \<in> keys s | Some op \<Rightarrow> \<not> op_is_delete op) \<longrightarrow> k \<in> keys s')"
    using assms
  proof (induction ops arbitrary: s)
    case (Cons op ops)
    obtain s1 where s1: "index_apply search ins del s op = Some s1" "inv s1"
      "keys s1 - {op_key op} = keys s - {op_key op}" "\<not> op_is_delete op \<Longrightarrow> op_key op \<in> keys s1"
      using apply_returns [OF Cons.prems(1)] always Cons.prems(2) by (metis list.set_intros(1))
    obtain s2 where s2: "index_replay search ins del s1 ops = Some s2" "inv s2"
      "\<forall>k. k \<notin> op_key ` set ops \<longrightarrow> (k \<in> keys s2 \<longleftrightarrow> k \<in> keys s1)"
      "\<forall>k. (case last_op k ops of None \<Rightarrow> k \<in> keys s1 | Some op \<Rightarrow> \<not> op_is_delete op) \<longrightarrow> k \<in> keys s2"
      using Cons.IH [OF s1(2)] Cons.prems(2) by auto
    have "k \<in> keys s2" if "case last_op k (op # ops) of None \<Rightarrow> k \<in> keys s | Some op \<Rightarrow> \<not> op_is_delete op" for k
    proof (rule s2(4) [rule_format])
      have "k \<in> keys s1" if "last_op k ops = None"
        using \<open>case last_op k (op # ops) of None \<Rightarrow> _ | Some op \<Rightarrow> _\<close> that s1(3,4)
        by (auto simp: last_op_def split: list.splits if_splits)
      then show "case last_op k ops of None \<Rightarrow> k \<in> keys s1 | Some op \<Rightarrow> \<not> op_is_delete op"
        using that by (auto simp: last_op_def split: list.splits option.splits)
    qed
    moreover have "k \<in> keys s2 \<longleftrightarrow> k \<in> keys s" if "k \<notin> op_key ` set (op # ops)" for k
      using that s2(3) s1(3) by auto
    ultimately show ?case using s1(1) s2(1,2) by auto
  qed auto
  then show thesis using that by (metis option.simps(5))
qed

end

locale exact_index = key_index +
  assumes del_gone: "inv s \<Longrightarrow> key_ok k \<Longrightarrow> k \<in> keys s \<Longrightarrow> del s k = Some s' \<Longrightarrow> k \<notin> keys s'"
    and fresh: "k \<notin> keys s \<Longrightarrow> can_insert s k"
begin

lemma apply_exact:
  assumes "inv s" "key_ok (op_key op)" "op_is_delete op \<or> op_key op \<notin> keys s"
  shows "\<exists>s'. index_apply search ins del s op = Some s' \<and> inv s' \<and> keys s' = op_effect op (keys s)"
proof (cases "op_is_delete op \<and> op_key op \<in> keys s")
  case True
  then obtain s' where s': "del s (op_key op) = Some s'" "inv s'" "keys s' - {op_key op} = keys s - {op_key op}"
    using del_law [OF assms(1,2)] by blast
  then have "op_key op \<notin> keys s'" using del_gone [OF assms(1,2)] True by blast
  then show ?thesis
    using s' True search_law [OF assms(1,2)] key_nz [OF assms(2)] by (auto simp: index_apply_def op_effect_def)
next
  case False
  then show ?thesis
    using assms search_law [OF assms(1,2)] ins_law [OF assms(1,2)] fresh
    by (cases "op_is_delete op") (auto simp: index_apply_def op_effect_def)
qed

text \<open>Without inserts of present keys a replay computes the fold of the operations.\<close>

lemma replay_exact:
  assumes "inv s" "\<forall>op \<in> set ops. key_ok (op_key op)" "fresh_inserts ops (keys s)"
  shows "\<exists>s'. index_replay search ins del s ops = Some s' \<and> inv s' \<and> keys s' = ops_effect ops (keys s)"
  using assms
proof (induction ops arbitrary: s)
  case (Cons op ops)
  then obtain s1 where s1: "index_apply search ins del s op = Some s1" "inv s1" "keys s1 = op_effect op (keys s)"
    using apply_exact [OF Cons.prems(1), of op] by auto
  show ?case using Cons.IH [OF s1(2)] Cons.prems(2,3) s1 by auto
qed simp

end

end
