(* ===== verification/PTFO.thy ===== *)
theory PTFO
  imports Page Key_Index
begin

text \<open>
  The per-thread future object of one producer (\<^verbatim>\<open>core/btree.h\<close>, \<^verbatim>\<open>future_Node\<close> and the
  \<^verbatim>\<open>future_*\<close> members of \<^verbatim>\<open>btree\<close> that work on one chain): a doubly linked list of nodes of up to
  \<open>cardinality\<close> operations behind a dummy head, newest node first, with a tail pointer to the
  oldest node.  The nodes live in an explicit store; links are references into it, to the dummy head
  or null.  Links never leave the chain of their producer, so every producer has its own store.
  Loops along the links are \<^theory_text>\<open>partial_function\<close>s: a chain with a cycle or a dangling link has no
  result.
\<close>

section \<open>Model\<close>

datatype future_ref = FNull | FHead | FNode nat

record future_Node =
  keys :: "entry_key_t list"
  is_delete :: "bool list"
  node_sequence :: "64 word list"
  entry_count :: int
  is_done :: bool
  nnext :: future_ref
  nprev :: future_ref

text \<open>The constructor; the array slots it leaves uninitialised are never read before they are
  written.\<close>

definition future_Node_ctor :: future_Node where
  "future_Node_ctor =
     \<lparr>keys = replicate cardinality 0, is_delete = replicate cardinality False,
      node_sequence = replicate cardinality 0, entry_count = 0, is_done = False,
      nnext = FNull, nprev = FNull\<rparr>"

type_synonym fstore = "nat \<Rightarrow> future_Node option"

record ptfo =
  local_fut :: future_Node
  local_fut_tail :: future_Node
  fnodes :: fstore
  next_fnode :: nat

definition ptfo_ctor :: ptfo where
  "ptfo_ctor = \<lparr>local_fut = future_Node_ctor, local_fut_tail = future_Node_ctor, fnodes = (\<lambda>_. None), next_fnode = 0\<rparr>"

text \<open>Writing the operation triple into slot \<open>idx\<close> of a node, then counting it.\<close>

definition put_entry :: "future_Node \<Rightarrow> nat \<Rightarrow> entry_key_t \<Rightarrow> bool \<Rightarrow> 64 word \<Rightarrow> future_Node" where
  "put_entry n idx key isDone seq =
     n\<lparr>keys := (keys n)[idx := key], is_delete := (is_delete n)[idx := isDone],
       node_sequence := (node_sequence n)[idx := seq], entry_count := entry_count n + 1\<rparr>"

text \<open>The chain part of \<^verbatim>\<open>future_insert\<close>: first node, new head node, or append to the head node.\<close>

definition chain_insert :: "ptfo \<Rightarrow> entry_key_t \<Rightarrow> bool \<Rightarrow> 64 word \<Rightarrow> ptfo option" where
  "chain_insert p key isDone seq =
     (let a = next_fnode p;
          n = (put_entry future_Node_ctor 0 key isDone seq)\<lparr>nprev := FHead\<rparr>
      in case nnext (local_fut p) of
           FHead \<Rightarrow> None
         | FNull \<Rightarrow>
             Some (p\<lparr>fnodes := (fnodes p)(a \<mapsto> n), next_fnode := a + 1,
                     local_fut := (local_fut p)\<lparr>nnext := FNode a, entry_count := entry_count (local_fut p) + 1\<rparr>,
                     local_fut_tail := (local_fut_tail p)\<lparr>nnext := FNode a\<rparr>\<rparr>)
         | FNode b \<Rightarrow>
             do { old \<leftarrow> fnodes p b;
                  Some (if entry_count old = int cardinality
                        then p\<lparr>fnodes := (fnodes p)(a \<mapsto> n\<lparr>nnext := FNode b\<rparr>, b \<mapsto> old\<lparr>nprev := FNode a\<rparr>),
                               next_fnode := a + 1,
                               local_fut := (local_fut p)\<lparr>nnext := FNode a,
                                                          entry_count := entry_count (local_fut p) + 1\<rparr>\<rparr>
                        else p\<lparr>fnodes := (fnodes p)(b \<mapsto> put_entry old (nat (entry_count old)) key isDone seq)\<rparr>) })"

text \<open>\<^verbatim>\<open>while (current != NULL) { ...; current = current->next; }\<close>\<close>

partial_function (option) walk :: "fstore \<Rightarrow> (future_Node \<Rightarrow> 's \<Rightarrow> 's) \<Rightarrow> future_ref \<Rightarrow> 's \<Rightarrow> 's option" where
  "walk h f current s =
     (case current of
        FNull \<Rightarrow> Some s
      | FHead \<Rightarrow> None
      | FNode a \<Rightarrow> do { n \<leftarrow> h a; walk h f (nnext n) (f n s) })"

declare walk.simps [code]

definition op_at :: "int \<Rightarrow> future_Node \<Rightarrow> nat \<Rightarrow> future_buffered_op" where
  "op_at tid n i =
     \<lparr>op_key = keys n ! i, op_is_delete = is_delete n ! i, op_sequence = node_sequence n ! i,
      op_producer_id = tid\<rparr>"

definition node_ops :: "int \<Rightarrow> future_Node \<Rightarrow> future_buffered_op list" where
  "node_ops tid n = map (op_at tid n) [0..<nat (entry_count n)]"

definition future_collect_ops :: "int \<Rightarrow> ptfo \<Rightarrow> future_buffered_op list \<Rightarrow> future_buffered_op list option" where
  "future_collect_ops tid p ops = walk (fnodes p) (\<lambda>n ops. ops @ node_ops tid n) (nnext (local_fut p)) ops"

record future_buffered_node =
  ops :: "future_buffered_op list"
  first_sequence :: "64 word"
  last_sequence :: "64 word"
  bnode_producer_id :: int

definition buffered_node :: "int \<Rightarrow> future_Node \<Rightarrow> future_buffered_node" where
  "buffered_node tid n =
     (let os = node_ops tid n in
      \<lparr>ops = os, first_sequence = (case os of [] \<Rightarrow> 0 | op # _ \<Rightarrow> op_sequence op),
       last_sequence = (if os = [] then 0 else op_sequence (last os)), bnode_producer_id = tid\<rparr>)"

definition future_collect_nodes :: "int \<Rightarrow> ptfo \<Rightarrow> future_buffered_node list \<Rightarrow> future_buffered_node list option" where
  "future_collect_nodes tid p nodes =
     walk (fnodes p) (\<lambda>n nodes. let b = buffered_node tid n in if ops b \<noteq> [] then nodes @ [b] else nodes)
       (nnext (local_fut p)) nodes"

text \<open>Freeing the nodes along the chain; the dummy head and the tail are reset.\<close>

partial_function (option) free_chain :: "fstore \<Rightarrow> future_ref \<Rightarrow> fstore option" where
  "free_chain h current =
     (case current of
        FNull \<Rightarrow> Some h
      | FHead \<Rightarrow> None
      | FNode a \<Rightarrow> do { n \<leftarrow> h a; free_chain (h(a := None)) (nnext n) })"

declare free_chain.simps [code]

definition future_clear_thread :: "ptfo \<Rightarrow> ptfo option" where
  "future_clear_thread p =
     do { h \<leftarrow> free_chain (fnodes p) (nnext (local_fut p));
          Some (p\<lparr>fnodes := h,
                  local_fut := (local_fut p)\<lparr>nnext := FNull, entry_count := 0, is_done := True\<rparr>,
                  local_fut_tail := (local_fut_tail p)\<lparr>nnext := FNull\<rparr>\<rparr>) }"

section \<open>Well-formed chains\<close>

fun chain :: "fstore \<Rightarrow> future_ref \<Rightarrow> nat list \<Rightarrow> bool" where
  "chain h r [] = (r = FNull)"
| "chain h r (a # as) = (r = FNode a \<and> (\<exists>n. h a = Some n \<and> chain h (nnext n) as))"

fun back_links :: "fstore \<Rightarrow> future_ref \<Rightarrow> nat list \<Rightarrow> bool" where
  "back_links h r [] = True"
| "back_links h r (a # as) = (\<exists>n. h a = Some n \<and> nprev n = r \<and> back_links h (FNode a) as)"

definition node_wf :: "future_Node \<Rightarrow> bool" where
  "node_wf n \<longleftrightarrow> length (keys n) = cardinality \<and> length (is_delete n) = cardinality \<and>
     length (node_sequence n) = cardinality \<and> 0 < entry_count n \<and> entry_count n \<le> int cardinality"

definition ptfo_ok :: "ptfo \<Rightarrow> nat list \<Rightarrow> bool" where
  "ptfo_ok p as \<longleftrightarrow>
     chain (fnodes p) (nnext (local_fut p)) as \<and> back_links (fnodes p) FHead as \<and> distinct as \<and>
     nnext (local_fut_tail p) = (if as = [] then FNull else FNode (last as)) \<and>
     (\<forall>a \<in> set as. \<exists>n. fnodes p a = Some n \<and> node_wf n) \<and>
     (\<forall>a. fnodes p a \<noteq> None \<longrightarrow> a < next_fnode p)"

text \<open>The buffered operations of a chain, oldest first: the nodes from the tail to the head, each from
  its first slot on.\<close>

definition ops_of :: "int \<Rightarrow> fstore \<Rightarrow> nat list \<Rightarrow> future_buffered_op list" where
  "ops_of tid h as = concat (map (\<lambda>a. node_ops tid (the (h a))) (rev as))"

lemma chain_frame: "chain h r as \<Longrightarrow> \<forall>a \<in> set as. h' a = h a \<Longrightarrow> chain h' r as"
  by (induction as arbitrary: r) auto

lemma back_links_frame: "back_links h r as \<Longrightarrow> \<forall>a \<in> set as. h' a = h a \<Longrightarrow> back_links h' r as"
  by (induction as arbitrary: r) auto

lemma ops_of_frame: "\<forall>a \<in> set as. h' a = h a \<Longrightarrow> ops_of tid h' as = ops_of tid h as"
  by (induction as) (simp_all add: ops_of_def)

lemma ops_of_simps [simp]:
  "ops_of tid h [] = []" "ops_of tid h (a # as) = ops_of tid h as @ node_ops tid (the (h a))"
  "ops_of tid h (as @ bs) = ops_of tid h bs @ ops_of tid h as"
  by (simp_all add: ops_of_def)

lemma walk_chain:
  "chain h r as \<Longrightarrow> walk h f r s = Some (fold (\<lambda>a. f (the (h a))) as s)"
proof (induction as arbitrary: r s)
  case Nil
  then show ?case by (simp add: walk.simps)
next
  case (Cons a as)
  then show ?case by (subst walk.simps) auto
qed

lemma free_chain_ok:
  "chain h r as \<Longrightarrow> distinct as \<Longrightarrow> free_chain h r = Some (\<lambda>x. if x \<in> set as then None else h x)"
proof (induction as arbitrary: r h)
  case Nil
  then show ?case by (simp add: free_chain.simps)
next
  case (Cons a as)
  then obtain n where n: "r = FNode a" "h a = Some n" "chain h (nnext n) as" by auto
  have "chain (h(a := None)) (nnext n) as"
    by (rule chain_frame [OF n(3)]) (use Cons.prems(2) in auto)
  then have "free_chain (h(a := None)) (nnext n) = Some (\<lambda>x. if x \<in> set as then None else (h(a := None)) x)"
    using Cons.IH Cons.prems(2) by simp
  moreover have "free_chain h r = free_chain (h(a := None)) (nnext n)"
    using n by (subst free_chain.simps) simp
  ultimately show ?case by (auto simp: fun_eq_iff)
qed

section \<open>The operations on the chain\<close>

lemma ptfo_ctor_ok: "ptfo_ok ptfo_ctor []"
  by (simp add: ptfo_ok_def ptfo_ctor_def future_Node_ctor_def)

text \<open>A written entry is one more operation of the node.\<close>

lemma put_entry_ops:
  assumes "node_wf n \<or> n = future_Node_ctor" "entry_count n < int cardinality"
  shows "node_ops tid (put_entry n (nat (entry_count n)) key del seq) =
      node_ops tid n @ [\<lparr>op_key = key, op_is_delete = del, op_sequence = seq, op_producer_id = tid\<rparr>]"
    "node_wf (put_entry n (nat (entry_count n)) key del seq)"
proof -
  have len: "length (keys n) = cardinality" "length (is_delete n) = cardinality"
    "length (node_sequence n) = cardinality" "0 \<le> entry_count n"
    using assms(1) by (auto simp: node_wf_def future_Node_ctor_def)
  let ?m = "nat (entry_count n)"
  have m: "?m < cardinality" using assms(2) len(4) by linarith
  have c: "nat (entry_count (put_entry n ?m key del seq)) = Suc ?m"
    using len(4) by (simp add: put_entry_def nat_add_distrib)
  show "node_ops tid (put_entry n ?m key del seq) =
      node_ops tid n @ [\<lparr>op_key = key, op_is_delete = del, op_sequence = seq, op_producer_id = tid\<rparr>]"
    unfolding node_ops_def c using m len by (simp add: op_at_def put_entry_def)
  show "node_wf (put_entry n ?m key del seq)"
    using len assms(2) by (simp add: node_wf_def put_entry_def)
qed

lemma node_link_upd [simp]:
  "node_ops tid (n\<lparr>nnext := r\<rparr>) = node_ops tid n" "node_ops tid (n\<lparr>nprev := r\<rparr>) = node_ops tid n"
  "node_wf (n\<lparr>nnext := r\<rparr>) = node_wf n" "node_wf (n\<lparr>nprev := r\<rparr>) = node_wf n"
  by (auto simp: node_ops_def op_at_def node_wf_def fun_eq_iff)

lemma ctor_ops [simp]: "node_ops tid future_Node_ctor = []" "entry_count future_Node_ctor = 0"
  by (simp_all add: node_ops_def future_Node_ctor_def)

text \<open>\<^verbatim>\<open>future_insert\<close> appends its operation as the newest one of the producer.\<close>

abbreviation buffered :: "entry_key_t \<Rightarrow> bool \<Rightarrow> 64 word \<Rightarrow> int \<Rightarrow> future_buffered_op" where
  "buffered key del seq tid \<equiv> \<lparr>op_key = key, op_is_delete = del, op_sequence = seq, op_producer_id = tid\<rparr>"

lemma ptfo_frame:
  assumes "ptfo_ok p as"
  shows "chain (fnodes p) (nnext (local_fut p)) as" "back_links (fnodes p) FHead as" "distinct as"
    "nnext (local_fut_tail p) = (if as = [] then FNull else FNode (last as))"
    "\<forall>a \<in> set as. \<exists>n. fnodes p a = Some n \<and> node_wf n" "\<forall>a. fnodes p a \<noteq> None \<longrightarrow> a < next_fnode p"
    "next_fnode p \<notin> set as" "fnodes p (next_fnode p) = None"
proof -
  show *: "chain (fnodes p) (nnext (local_fut p)) as" "back_links (fnodes p) FHead as" "distinct as"
    "nnext (local_fut_tail p) = (if as = [] then FNull else FNode (last as))"
    "\<forall>a \<in> set as. \<exists>n. fnodes p a = Some n \<and> node_wf n" "\<forall>a. fnodes p a \<noteq> None \<longrightarrow> a < next_fnode p"
    using assms unfolding ptfo_ok_def by blast+
  show "fnodes p (next_fnode p) = None" using *(6) by blast
  then show "next_fnode p \<notin> set as" using *(5) by fastforce
qed

lemma new_node:
  "node_ops tid (put_entry future_Node_ctor 0 key del seq) = [buffered key del seq tid]"
  "node_wf (put_entry future_Node_ctor 0 key del seq)" "nnext (put_entry future_Node_ctor 0 key del seq) = FNull"
  using put_entry_ops(1) [of future_Node_ctor tid key del seq] put_entry_ops(2) [of future_Node_ctor key del seq]
  by (simp_all add: cardinality_def PAGESIZE_def sizeof_header_def sizeof_entry_def)
    (simp add: put_entry_def future_Node_ctor_def)

text \<open>The three ways to buffer an operation: a first node, a new node in front of a full one, a slot of the first node.\<close>

lemma chain_insert_first:
  assumes ok: "ptfo_ok p []"
  obtains p' where "chain_insert p key del seq = Some p'" "ptfo_ok p' [next_fnode p]"
    "\<And>tid. ops_of tid (fnodes p') [next_fnode p] = [buffered key del seq tid]"
proof -
  note f = ptfo_frame [OF ok]
  let ?a = "next_fnode p"
  let ?n = "(put_entry future_Node_ctor 0 key del seq)\<lparr>nprev := FHead\<rparr>"
  let ?p = "p\<lparr>fnodes := (fnodes p)(?a \<mapsto> ?n), next_fnode := ?a + 1,
                   local_fut := (local_fut p)\<lparr>nnext := FNode ?a, entry_count := entry_count (local_fut p) + 1\<rparr>,
                   local_fut_tail := (local_fut_tail p)\<lparr>nnext := FNode ?a\<rparr>\<rparr>"
  show thesis
  proof (rule that)
    show "chain_insert p key del seq = Some ?p" using f(1) by (simp add: chain_insert_def Let_def)
    show "ptfo_ok ?p [?a]" using f new_node by (auto simp: ptfo_ok_def less_Suc_eq)
    show "ops_of tid (fnodes ?p) [?a] = [buffered key del seq tid]" for tid using new_node(1) by simp
  qed
qed

lemma ptfo_ok_head:
  assumes "ptfo_ok p (b # bs)"
  obtains old where "nnext (local_fut p) = FNode b" "fnodes p b = Some old" "chain (fnodes p) (nnext old) bs"
    "nprev old = FHead" "back_links (fnodes p) (FNode b) bs" "node_wf old"
  using ptfo_frame [OF assms] by auto

lemma chain_insert_new_node:
  assumes ok: "ptfo_ok p (b # bs)" and old: "fnodes p b = Some old" "entry_count old = int cardinality"
  obtains p' where "chain_insert p key del seq = Some p'" "ptfo_ok p' (next_fnode p # b # bs)"
    "\<And>tid. ops_of tid (fnodes p') (next_fnode p # b # bs) = ops_of tid (fnodes p) (b # bs) @ [buffered key del seq tid]"
proof -
  note f = ptfo_frame [OF ok]
  obtain old' where b: "nnext (local_fut p) = FNode b" "fnodes p b = Some old'" "chain (fnodes p) (nnext old') bs"
    "nprev old' = FHead" "back_links (fnodes p) (FNode b) bs" "node_wf old'" by (rule ptfo_ok_head [OF ok])
  then have eq: "old' = old" using old(1) by simp
  let ?a = "next_fnode p"
  let ?n = "(put_entry future_Node_ctor 0 key del seq)\<lparr>nprev := FHead\<rparr>"
  let ?h = "(fnodes p)(?a \<mapsto> ?n\<lparr>nnext := FNode b\<rparr>, b \<mapsto> old\<lparr>nprev := FNode ?a\<rparr>)"
  let ?p = "p\<lparr>fnodes := ?h, next_fnode := ?a + 1,
      local_fut := (local_fut p)\<lparr>nnext := FNode ?a, entry_count := entry_count (local_fut p) + 1\<rparr>\<rparr>"
  have bb: "b \<notin> set bs" "distinct bs" "?a \<noteq> b" "?a \<notin> set bs" using f(3,7) by auto
  then have fr: "\<forall>x \<in> set bs. ?h x = fnodes p x" by auto
  show thesis
  proof (rule that)
    show "chain_insert p key del seq = Some ?p" using b eq old(2) by (simp add: chain_insert_def Let_def)
    have "chain ?h (nnext old) bs" "back_links ?h (FNode b) bs"
      using chain_frame [OF b(3) fr] back_links_frame [OF b(5) fr] eq by blast+
    then show "ptfo_ok ?p (?a # b # bs)" using f b eq bb new_node by (auto simp: ptfo_ok_def less_Suc_eq)
    show "ops_of tid (fnodes ?p) (?a # b # bs) = ops_of tid (fnodes p) (b # bs) @ [buffered key del seq tid]" for tid
      using b eq bb new_node(1) ops_of_frame [where h' = ?h and h = "fnodes p", OF fr, of tid] by simp
  qed
qed

lemma chain_insert_slot:
  assumes ok: "ptfo_ok p (b # bs)" and old: "fnodes p b = Some old" "entry_count old \<noteq> int cardinality"
  obtains p' where "chain_insert p key del seq = Some p'" "ptfo_ok p' (b # bs)"
    "\<And>tid. ops_of tid (fnodes p') (b # bs) = ops_of tid (fnodes p) (b # bs) @ [buffered key del seq tid]"
proof -
  note f = ptfo_frame [OF ok]
  obtain old' where b: "nnext (local_fut p) = FNode b" "fnodes p b = Some old'" "chain (fnodes p) (nnext old') bs"
    "nprev old' = FHead" "back_links (fnodes p) (FNode b) bs" "node_wf old'" by (rule ptfo_ok_head [OF ok])
  then have eq: "old' = old" using old(1) by simp
  then have room: "entry_count old < int cardinality" using b(6) old(2) by (auto simp: node_wf_def)
  let ?n' = "put_entry old (nat (entry_count old)) key del seq"
  let ?h = "(fnodes p)(b \<mapsto> ?n')" and ?p = "p\<lparr>fnodes := (fnodes p)(b \<mapsto> ?n')\<rparr>"
  have bb: "b \<notin> set bs" "distinct bs" using f(3) by auto
  then have fr: "\<forall>x \<in> set bs. ?h x = fnodes p x" by auto
  have links: "nnext ?n' = nnext old" "nprev ?n' = nprev old" by (simp_all add: put_entry_def)
  show thesis
  proof (rule that)
    show "chain_insert p key del seq = Some ?p" using b eq old(2) by (simp add: chain_insert_def Let_def)
    have "chain ?h (nnext old) bs" "back_links ?h (FNode b) bs"
      using chain_frame [OF b(3) fr] back_links_frame [OF b(5) fr] eq by blast+
    then show "ptfo_ok ?p (b # bs)"
      using f b eq bb links put_entry_ops(2) [of old, OF _ room] by (auto simp: ptfo_ok_def)
    show "ops_of tid (fnodes ?p) (b # bs) = ops_of tid (fnodes p) (b # bs) @ [buffered key del seq tid]" for tid
      using b eq put_entry_ops(1) [of old, OF _ room] ops_of_frame [where h' = ?h and h = "fnodes p", OF fr, of tid] by simp
  qed
qed

lemma chain_insert_ok:
  assumes ok: "ptfo_ok p as"
  obtains p' as' where "chain_insert p key del seq = Some p'" "ptfo_ok p' as'"
    "\<And>tid. ops_of tid (fnodes p') as' = ops_of tid (fnodes p) as @ [buffered key del seq tid]"
proof (cases as)
  case Nil
  obtain p' where "chain_insert p key del seq = Some p'" "ptfo_ok p' [next_fnode p]"
    "\<And>tid. ops_of tid (fnodes p') [next_fnode p] = [buffered key del seq tid]"
    by (rule chain_insert_first [OF ok [unfolded Nil]]) (rule that)
  then show thesis using that [of p' "[next_fnode p]"] Nil by simp
next
  case (Cons b bs)
  obtain old where old: "fnodes p b = Some old" by (rule ptfo_ok_head [OF ok [unfolded Cons]]) (rule that)
  show thesis
  proof (cases "entry_count old = int cardinality")
    case True
    show thesis
      by (rule chain_insert_new_node [OF ok [unfolded Cons] old True, of key del seq]) (rule that, assumption, assumption, simp only: Cons)
  next
    case False
    show thesis by (rule chain_insert_slot [OF ok [unfolded Cons] old False, of key del seq]) (rule that, assumption, assumption, simp only: Cons)
  qed
qed

lemma collect_ops_ok:
  assumes "ptfo_ok p as"
  shows "future_collect_ops tid p os = Some (os @ concat (map (\<lambda>a. node_ops tid (the (fnodes p a))) as))"
proof -
  have "fold (\<lambda>a os. os @ node_ops tid (the (h a))) as os =
      os @ concat (map (\<lambda>a. node_ops tid (the (h a))) as)" for h
    by (induction as arbitrary: os) auto
  then show ?thesis by (simp add: future_collect_ops_def walk_chain [OF ptfo_frame(1) [OF assms]])
qed

lemma collect_ops_mset:
  "ptfo_ok p as \<Longrightarrow> \<exists>l. future_collect_ops tid p os = Some (os @ l) \<and> mset l = mset (ops_of tid (fnodes p) as)"
  by (auto simp: collect_ops_ok ops_of_def mset_concat rev_map [symmetric])

lemma clear_thread_ok:
  assumes "ptfo_ok p as"
  obtains p' where "future_clear_thread p = Some p'" "ptfo_ok p' []" "next_fnode p' = next_fnode p"
proof -
  note f = ptfo_frame [OF assms]
  let ?p = "p\<lparr>fnodes := \<lambda>x. if x \<in> set as then None else fnodes p x,
      local_fut := (local_fut p)\<lparr>nnext := FNull, entry_count := 0, is_done := True\<rparr>,
      local_fut_tail := (local_fut_tail p)\<lparr>nnext := FNull\<rparr>\<rparr>"
  have "future_clear_thread p = Some ?p" by (simp add: future_clear_thread_def free_chain_ok [OF f(1,3)])
  moreover have "ptfo_ok ?p []" using f(6) by (simp add: ptfo_ok_def)
  ultimately show thesis using that by simp
qed

end
