(* ===== verification/Probe.thy ===== *)
theory Probe
  imports F3_Prelude
begin

text \<open>
  Open addressing with linear probing, the scheme behind \<^verbatim>\<open>HashMapTable\<close>, the per-producer lookup
  directories and \<^verbatim>\<open>BufferedHashIndex\<close>.  A probe for a key starts at the key's home slot and
  goes round the table once; it stops at a slot that holds the key or is free.  The locale
  \<open>probe_table\<close> states what a kind of slot must satisfy and shows that a table filled only at the
  slots where probes stop behaves as a finite map.
\<close>

section \<open>One round through a circular table\<close>

definition circle :: "nat \<Rightarrow> nat \<Rightarrow> nat list" where
  "circle n start = map (\<lambda>d. (start + d) mod n) [0..<n]"

definition first_stop :: "('c \<Rightarrow> bool) \<Rightarrow> 'c list \<Rightarrow> nat \<Rightarrow> nat option" where
  "first_stop stop slots start = find (\<lambda>i. stop (slots ! i)) (circle (length slots) start)"

lemma length_circle [simp]: "length (circle n start) = n"
  by (simp add: circle_def)

lemma circle_nth: "d < n \<Longrightarrow> circle n start ! d = (start + d) mod n"
  by (simp add: circle_def)

lemma circle_inj: "a < n \<Longrightarrow> b < n \<Longrightarrow> (start + a) mod n = (start + b) mod n \<Longrightarrow> a = (b::nat)"
proof -
  assume ab: "a < n" "b < n" "(start + a) mod n = (start + b) mod n"
  have "(int start + int a) mod int n = (int start + int b) mod int n"
    using ab(3) by (metis of_nat_add of_nat_mod)
  then have "int n dvd int a - int b" by (simp add: mod_eq_dvd_iff)
  moreover have "\<bar>int a - int b\<bar> < int n" using ab(1,2) by linarith
  ultimately have "int a - int b = 0"
    using dvd_imp_le_int by (metis abs_of_nat not_less)
  then show "a = b" by simp
qed

lemma distinct_circle: "distinct (circle n start)"
  by (auto simp: distinct_conv_nth circle_nth dest: circle_inj)

lemma set_circle: "set (circle n start) = {0..<n}"
proof (rule card_subset_eq)
  show "set (circle n start) \<subseteq> {0..<n}" by (auto simp: circle_def)
  show "card (set (circle n start)) = card {0..<n}"
    using distinct_card [OF distinct_circle] by simp
qed simp

lemma first_stop_Some:
  "first_stop stop slots start = Some i \<Longrightarrow> i < length slots \<and> stop (slots ! i)"
proof -
  assume "first_stop stop slots start = Some i"
  then have "i \<in> set (circle (length slots) start)" "stop (slots ! i)"
    by (auto simp: first_stop_def find_Some_iff)
  then show ?thesis by (simp add: set_circle)
qed

lemma first_stop_None:
  "first_stop stop slots start = None \<longleftrightarrow> (\<forall>i < length slots. \<not> stop (slots ! i))"
  by (auto simp: first_stop_def find_None_iff set_circle)

text \<open>Closing one slot that a probe did not stop at does not move the stop.\<close>

lemma find_weaken:
  "find P xs = Some j \<Longrightarrow> j \<noteq> i \<Longrightarrow> (\<And>x. x \<noteq> i \<Longrightarrow> Q x = P x) \<Longrightarrow> \<not> Q i \<Longrightarrow> find Q xs = Some j"
  by (induction xs) (auto split: if_splits, metis+)

lemma find_earlier:
  "i \<in> set (takeWhile (\<lambda>x. \<not> P x) xs) \<Longrightarrow> (\<And>x. x \<noteq> i \<Longrightarrow> Q x = P x) \<Longrightarrow> Q i \<Longrightarrow> find Q xs = Some i"
  by (induction xs) (auto split: if_splits)

lemma find_cong_set: "(\<And>x. x \<in> set xs \<Longrightarrow> P x = Q x) \<Longrightarrow> find P xs = find Q xs"
  by (induction xs) auto

lemma first_stop_home: "0 < n \<Longrightarrow> start < n \<Longrightarrow> circle n start = start # tl (circle n start)"
  by (cases n) (simp_all add: circle_def upt_conv_Cons del: upt_Suc)

section \<open>The loop of a probe\<close>

text \<open>The loop every table uses, from slot \<open>i\<close> on, with a bound on the number of slots left; it ends
  at the start slot at the latest.\<close>

lemma first_stop_step:
  assumes "n = length slots" "d < n" "i = (start + d) mod n"
  shows "find (\<lambda>i. stop (slots ! i)) (drop d (circle n start)) =
    (if stop (slots ! i) then Some i else find (\<lambda>i. stop (slots ! i)) (drop (Suc d) (circle n start)))"
proof -
  have "drop d (circle n start) = i # drop (Suc d) (circle n start)"
    using assms(2,3) Cons_nth_drop_Suc [of d "circle n start"] by (simp add: circle_nth)
  then show ?thesis by simp
qed

lemma circle_next:
  "d < n \<Longrightarrow> start < n \<Longrightarrow> (Suc ((start + d) mod n)) mod n = start \<longleftrightarrow> Suc d = n"
proof -
  assume d: "d < n" and s: "start < n"
  have eq: "(Suc ((start + d) mod n)) mod n = (start + Suc d) mod n" by (simp add: mod_Suc_eq)
  show ?thesis
  proof (cases "Suc d = n")
    case False
    then have "Suc d < n" using d by simp
    moreover have "(start + 0) mod n = start" using s by simp
    ultimately show ?thesis using eq circle_inj [of "Suc d" n 0 start] d by auto
  qed (use eq s in simp)
qed

text \<open>The remainder of C++ for a positive divisor: it has the sign of the dividend.\<close>

definition crem :: "int \<Rightarrow> int \<Rightarrow> int" where
  "crem a b = (if a < 0 then - ((- a) mod b) else a mod b)"

lemma crem_bounds: "0 < b \<Longrightarrow> - b < crem a b \<and> crem a b < b"
proof -
  assume b: "0 < b"
  have "0 \<le> a mod b" "a mod b < b" "0 \<le> (- a) mod b" "(- a) mod b < b" using b by auto
  moreover have "crem a b = - ((- a) mod b) \<or> crem a b = a mod b" by (simp add: crem_def)
  ultimately have "- b < crem a b" "crem a b < b" by linarith+
  then show ?thesis by blast
qed

lemma crem_mod: "0 < b \<Longrightarrow> crem a b mod b = a mod b"
  by (simp add: crem_def mod_minus_eq)

section \<open>Tables\<close>

locale probe_table =
  fixes free :: "'c \<Rightarrow> bool" and holds :: "int \<Rightarrow> 'c \<Rightarrow> bool" and home :: "nat \<Rightarrow> int \<Rightarrow> nat"
  assumes holds_free: "holds k c \<Longrightarrow> \<not> free c"
    and holds_unique: "holds k c \<Longrightarrow> holds k' c \<Longrightarrow> k = k'"
    and home_less: "0 < n \<Longrightarrow> home n k < n"
begin

definition look :: "'c list \<Rightarrow> int \<Rightarrow> nat option" where
  "look slots k = first_stop (\<lambda>c. free c \<or> holds k c) slots (home (length slots) k)"

lemma look_stop: "look slots k = Some i \<Longrightarrow> i < length slots \<and> (free (slots ! i) \<or> holds k (slots ! i))"
  unfolding look_def using first_stop_Some by blast

definition placed :: "'c list \<Rightarrow> bool" where
  "placed slots \<longleftrightarrow> (\<forall>i < length slots. \<forall>k. holds k (slots ! i) \<longrightarrow> look slots k = Some i)"

definition getc :: "'c list \<Rightarrow> int \<Rightarrow> 'c option" where
  "getc slots k = (case look slots k of None \<Rightarrow> None
     | Some i \<Rightarrow> if holds k (slots ! i) then Some (slots ! i) else None)"

lemma getc_iff:
  assumes "placed slots"
  shows "getc slots k = Some c \<longleftrightarrow> (\<exists>i < length slots. slots ! i = c \<and> holds k c)"
proof
  assume "getc slots k = Some c"
  then show "\<exists>i < length slots. slots ! i = c \<and> holds k c"
    using first_stop_Some by (fastforce simp: getc_def look_def split: option.splits if_splits)
next
  assume "\<exists>i < length slots. slots ! i = c \<and> holds k c"
  then obtain i where "i < length slots" "slots ! i = c" "holds k c" by blast
  moreover from this have "look slots k = Some i" using assms by (auto simp: placed_def)
  ultimately show "getc slots k = Some c" by (simp add: getc_def)
qed

lemma getc_None: "placed slots \<Longrightarrow> getc slots k = None \<longleftrightarrow> (\<forall>i < length slots. \<not> holds k (slots ! i))"
  using getc_iff [of slots k] by (metis not_None_eq)

lemma getc_change:
  assumes "placed slots" "placed (slots[i := c])" "i < length slots" "\<not> holds k c" "\<not> holds k (slots ! i)"
  shows "getc (slots[i := c]) k = getc slots k"
proof -
  have "(j < length slots \<and> (slots[i := c]) ! j = d \<and> holds k d) \<longleftrightarrow>
      (j < length slots \<and> slots ! j = d \<and> holds k d)" for j d
    using assms(3-5) by (cases "j = i") auto
  then have "getc (slots[i := c]) k = Some d \<longleftrightarrow> getc slots k = Some d" for d
    unfolding getc_iff [OF assms(1)] getc_iff [OF assms(2)] length_list_update by simp
  then show ?thesis by (metis not_None_eq)
qed

text \<open>The slot a probe for \<open>k\<close> stops at, or the home slot when the probe went round, may be
  overwritten by a slot that holds \<open>k\<close>: other keys keep their slots.\<close>

lemma look_other:
  assumes pl: "placed slots" and i: "i < length slots" and c: "holds k c" and ne: "k' \<noteq> k"
    and j: "j < length slots" "holds k' (slots ! j)" "j \<noteq> i"
  shows "look (slots[i := c]) k' = Some j"
proof -
  have "look slots k' = Some j" using pl j by (auto simp: placed_def)
  moreover have "\<not> (free c \<or> holds k' c)" using c ne holds_free holds_unique by blast
  ultimately show ?thesis
    using i unfolding look_def first_stop_def length_list_update
    by (elim find_weaken [where i = i]) (auto simp: j(3))
qed

lemma placed_update:
  assumes pl: "placed slots" and i: "i < length slots" and c: "holds k c"
    and at: "look slots k = Some i \<or> look slots k = None \<and> i = home (length slots) k"
  shows "placed (slots[i := c])" "look (slots[i := c]) k = Some i"
proof -
  show self: "look (slots[i := c]) k = Some i"
    using at
  proof
    assume "look slots k = Some i"
    moreover have "(free ((slots[i := c]) ! x) \<or> holds k ((slots[i := c]) ! x)) =
        (free (slots ! x) \<or> holds k (slots ! x))" for x
      using calculation first_stop_Some [of _ slots _ i] c i
      by (cases "x = i") (auto simp: look_def)
    ultimately show ?thesis by (simp add: look_def first_stop_def)
  next
    assume *: "look slots k = None \<and> i = home (length slots) k"
    then have "circle (length slots) i = i # tl (circle (length slots) i)"
      using i by (intro first_stop_home) auto
    then show ?thesis using * c i by (metis (mono_tags, lifting) find.simps(2) first_stop_def
        length_list_update look_def nth_list_update_eq)
  qed
  have only: "j = i" if "j < length slots" "holds k ((slots[i := c]) ! j)" for j
  proof (rule ccontr)
    assume "j \<noteq> i"
    then have "holds k (slots ! j)" using that by simp
    then have "look slots k = Some j" using pl that(1) by (auto simp: placed_def)
    then show False using at \<open>j \<noteq> i\<close> by auto
  qed
  show "placed (slots[i := c])"
    unfolding placed_def length_list_update
  proof (intro allI impI)
    fix j k' assume j: "j < length slots" "holds k' ((slots[i := c]) ! j)"
    show "look (slots[i := c]) k' = Some j"
    proof (cases "k' = k")
      case True
      then show ?thesis using only [OF j(1)] j(2) self by simp
    next
      case False
      then have "j \<noteq> i" using j c i holds_unique by auto
      then show ?thesis using look_other [OF pl i c False j(1)] j(2) by simp
    qed
  qed
qed

lemma getc_update:
  assumes "placed slots" "i < length slots" "holds k c"
    "look slots k = Some i \<or> look slots k = None \<and> i = home (length slots) k"
  shows "getc (slots[i := c]) k' =
    (if k' = k then Some c else if holds k' (slots ! i) then None else getc slots k')"
proof -
  note pl = placed_update(1) [OF assms] and i = assms(2)
  have k: "getc (slots[i := c]) k = Some c"
    using getc_iff [OF pl] i assms(3) by (metis length_list_update nth_list_update_eq)
  have only_i: "j = i" if "j < length slots" "holds k' (slots ! j)" "holds k' (slots ! i)" for j
    using assms(1) that i unfolding placed_def by (metis option.inject)
  have "getc (slots[i := c]) k' = Some d \<longleftrightarrow> getc slots k' = Some d \<and> \<not> holds k' (slots ! i)"
    if ne: "k' \<noteq> k" for d
  proof -
    have nc: "\<not> holds k' c" using ne assms(3) holds_unique by blast
    have "getc (slots[i := c]) k' = Some d \<longleftrightarrow> (\<exists>j < length slots. j \<noteq> i \<and> slots ! j = d \<and> holds k' d)"
      unfolding getc_iff [OF pl] length_list_update using nc i by (metis nth_list_update_eq nth_list_update_neq)
    also have "... \<longleftrightarrow> getc slots k' = Some d \<and> \<not> holds k' (slots ! i)"
      unfolding getc_iff [OF assms(1)] using only_i i by metis
    finally show ?thesis .
  qed
  then show ?thesis using k by (cases "k' = k") (auto intro: option.expand, metis not_None_eq)
qed

text \<open>A slot on the way of the probe that neither stops it nor holds a key may be reused, and any
  slot may be turned into such a slot.\<close>

lemma placed_reuse:
  assumes pl: "placed slots" and c: "holds k c" and none: "getc slots k = None"
    and i: "i \<in> set (takeWhile (\<lambda>x. \<not> (free (slots ! x) \<or> holds k (slots ! x)))
      (circle (length slots) (home (length slots) k)))"
    and idle: "\<And>k'. \<not> holds k' (slots ! i)"
  shows "placed (slots[i := c])" "getc (slots[i := c]) k' = (if k' = k then Some c else getc slots k')"
proof -
  have il: "i < length slots" using i set_circle [of "length slots"] by (auto dest: set_takeWhileD)
  have no: "\<not> holds k (slots ! j)" if "j < length slots" for j using none pl that by (simp add: getc_None)
  have self: "look (slots[i := c]) k = Some i"
    unfolding look_def first_stop_def length_list_update
    using i c il by (intro find_earlier [OF i]) auto
  show pl': "placed (slots[i := c])"
    unfolding placed_def length_list_update
  proof (intro allI impI)
    fix j k' assume j: "j < length slots" "holds k' ((slots[i := c]) ! j)"
    show "look (slots[i := c]) k' = Some j"
    proof (cases "j = i")
      case True
      then have "k' = k" using j c il holds_unique by simp
      then show ?thesis using self True by simp
    next
      case False
      then have "holds k' (slots ! j)" using j by simp
      moreover from this have "k' \<noteq> k" using no [OF j(1)] by blast
      ultimately show ?thesis using look_other [OF pl il c _ j(1)] False by blast
    qed
  qed
  have "getc (slots[i := c]) k = Some c"
    unfolding getc_iff [OF pl'] using il c by (intro exI [of _ i]) simp
  moreover have "getc (slots[i := c]) k' = getc slots k'" if "k' \<noteq> k"
    using getc_change [OF pl pl' il] that c idle holds_unique by blast
  ultimately show "getc (slots[i := c]) k' = (if k' = k then Some c else getc slots k')" by simp
qed

lemma placed_vacate:
  assumes pl: "placed slots" and i: "i < length slots" and c: "\<not> free c" "\<And>k. \<not> holds k c"
  shows "placed (slots[i := c])" "getc (slots[i := c]) k' = (if holds k' (slots ! i) then None else getc slots k')"
proof -
  show pl': "placed (slots[i := c])"
    unfolding placed_def length_list_update
  proof (intro allI impI)
    fix j k' assume j: "j < length slots" "holds k' ((slots[i := c]) ! j)"
    then have ne: "j \<noteq> i" using c(2) i by auto
    then have "look slots k' = Some j" using pl j by (auto simp: placed_def)
    then show "look (slots[i := c]) k' = Some j"
      using i ne c unfolding look_def first_stop_def length_list_update
      by (elim find_weaken [where i = i]) auto
  qed
  have "holds k' (slots ! i) \<Longrightarrow> holds k' (slots ! j) \<Longrightarrow> j < length slots \<Longrightarrow> j = i" for j
    using pl i unfolding placed_def by (metis option.inject)
  then have "getc (slots[i := c]) k' = None" if "holds k' (slots ! i)"
    using that c(2) i unfolding getc_None [OF pl'] length_list_update
    by (metis nth_list_update_eq nth_list_update_neq)
  moreover have "getc (slots[i := c]) k' = getc slots k'" if "\<not> holds k' (slots ! i)"
    by (rule getc_change [OF pl pl' i c(2) that])
  ultimately show "getc (slots[i := c]) k' = (if holds k' (slots ! i) then None else getc slots k')"
    by simp
qed

lemma placed_free: "\<forall>c \<in> set slots. free c \<Longrightarrow> placed slots"
  using holds_free nth_mem unfolding placed_def by blast

lemma getc_free: "\<forall>c \<in> set slots. free c \<Longrightarrow> getc slots k = None"
  using getc_None [OF placed_free] holds_free nth_mem by blast

text \<open>A probe goes round only in a table without a free slot.\<close>

lemma look_room: "i < length slots \<Longrightarrow> free (slots ! i) \<Longrightarrow> look slots k \<noteq> None"
  by (auto simp: look_def first_stop_None)

end

end
