(* ===== verification/Hash_Table.thy ===== *)
theory Hash_Table
  imports Probe "HOL-Library.Monad_Syntax"
begin

text \<open>
  \<^verbatim>\<open>core/hash.h\<close>: the per-producer table of \<^verbatim>\<open>HashMapTable\<close> that tells readers which producers
  have ever buffered a key.  A slot is null, the deleted marker \<^verbatim>\<open>DelNode\<close>, or a key with its value.
  The probing loop takes fuel; one unit more than the capacity is always enough.
\<close>

section \<open>Model\<close>

datatype hcell = HNull | HDel | HEntry entry_key_t int

record HashMapTable =
  ht :: "hcell list option"
  capacity :: nat

definition HashMapTable_ctor :: HashMapTable where
  "HashMapTable_ctor = \<lparr>ht = None, capacity = 0\<rparr>"

definition hash_init :: "HashMapTable \<Rightarrow> int \<Rightarrow> HashMapTable" where
  "hash_init t cap =
     (let c = (if cap > 0 then nat cap else 1) in \<lparr>ht = Some (replicate c HNull), capacity = c\<rparr>)"

definition HashFunc :: "nat \<Rightarrow> entry_key_t \<Rightarrow> nat" where
  "HashFunc cap k = (if cap = 0 then 0 else nat (if k < 0 then - k else k) mod cap)"

text \<open>The loop shared by \<^verbatim>\<open>Insert\<close>, \<^verbatim>\<open>SearchKey\<close> and \<^verbatim>\<open>Remove\<close>; only the first looks at
  \<^verbatim>\<open>delindex\<close>.\<close>

fun passes :: "entry_key_t \<Rightarrow> hcell \<Rightarrow> bool" where
  "passes k HNull = False"
| "passes k HDel = True"
| "passes k (HEntry k' v) = (k' \<noteq> k)"

fun hash_probe :: "nat \<Rightarrow> hcell list \<Rightarrow> entry_key_t \<Rightarrow> nat \<Rightarrow> int \<Rightarrow> int \<Rightarrow> (nat \<times> int \<times> int) option" where
  "hash_probe 0 cells k hash_val init delindex = None"
| "hash_probe (Suc n) cells k hash_val init delindex =
     (if int hash_val \<noteq> init \<and> passes k (cells ! hash_val)
      then hash_probe n cells k (HashFunc (length cells) (int hash_val + 1))
             (if init = -1 then int hash_val else init)
             (if cells ! hash_val = HDel then int hash_val else delindex)
      else Some (hash_val, init, delindex))"

definition Insert :: "HashMapTable \<Rightarrow> entry_key_t \<Rightarrow> int \<Rightarrow> HashMapTable option" where
  "Insert t k v =
     (case ht t of None \<Rightarrow> Some t | Some cells \<Rightarrow>
        if capacity t = 0 then Some t
        else do {
          (hash_val, init, delindex) \<leftarrow> hash_probe (capacity t + 1) cells k (HashFunc (capacity t) k) (-1) (-1);
          let cells1 = (if cells ! hash_val = HNull \<or> int hash_val = init
                        then (if delindex \<noteq> -1 then cells[nat delindex := HEntry k v]
                              else cells[hash_val := HEntry k v])
                        else cells);
              cells2 = (if init \<noteq> int hash_val
                        then (case cells1 ! hash_val of
                                HDel \<Rightarrow> cells1[hash_val := HEntry k v]
                              | HNull \<Rightarrow> cells1
                              | HEntry k' v' \<Rightarrow> if k' = k then cells1[hash_val := HEntry k v] else cells1)
                        else cells1)
          in Some (t\<lparr>ht := Some cells2\<rparr>) })"

definition SearchKey :: "HashMapTable \<Rightarrow> entry_key_t \<Rightarrow> int option" where
  "SearchKey t k =
     (case ht t of None \<Rightarrow> Some (-1) | Some cells \<Rightarrow>
        if capacity t = 0 then Some (-1)
        else do {
          (hash_val, init, _) \<leftarrow> hash_probe (capacity t + 1) cells k (HashFunc (capacity t) k) (-1) (-1);
          Some (if cells ! hash_val = HNull \<or> int hash_val = init then -1
                else (case cells ! hash_val of HEntry k' v \<Rightarrow> v | _ \<Rightarrow> -1)) })"

definition Remove :: "HashMapTable \<Rightarrow> entry_key_t \<Rightarrow> HashMapTable option" where
  "Remove t k =
     (case ht t of None \<Rightarrow> Some t | Some cells \<Rightarrow>
        if capacity t = 0 then Some t
        else do {
          (hash_val, init, _) \<leftarrow> hash_probe (capacity t + 1) cells k (HashFunc (capacity t) k) (-1) (-1);
          Some (if int hash_val \<noteq> init \<and> cells ! hash_val \<noteq> HNull
                then t\<lparr>ht := Some (cells[hash_val := HDel])\<rparr> else t) })"

section \<open>The probing loop\<close>

definition hholds :: "int \<Rightarrow> hcell \<Rightarrow> bool" where
  "hholds k c \<longleftrightarrow> (\<exists>v. c = HEntry k v)"

interpretation hp: probe_table "\<lambda>c. c = HNull" hholds HashFunc
  by unfold_locales (auto simp: hholds_def HashFunc_def)

lemma passes_iff: "passes k c \<longleftrightarrow> \<not> (c = HNull \<or> hholds k c)"
  by (cases c) (auto simp: hholds_def)

lemma HashFunc_next: "0 < n \<Longrightarrow> HashFunc n (int i + 1) = Suc i mod n"
  by (simp add: HashFunc_def nat_add_distrib)

text \<open>Where the loop ends, and what it leaves in \<^verbatim>\<open>init\<close> and \<^verbatim>\<open>delindex\<close>.\<close>

text \<open>What the probe finds from position \<open>d\<close> of the circle on: the first cell that stops it, or the start again, and
  a deleted cell it has passed.\<close>

definition probe_result :: "hcell list \<Rightarrow> int \<Rightarrow> nat \<Rightarrow> nat \<Rightarrow> int \<Rightarrow> nat \<times> int \<times> int" where
  "probe_result cells k start d del =
     (case find (\<lambda>x. \<not> passes k (cells ! x)) (drop d (circle (length cells) start)) of
        Some i \<Rightarrow> (i, if i = start then -1 else int start, del)
      | None \<Rightarrow> (start, int start, del))"

definition deleted_on_way :: "hcell list \<Rightarrow> nat list \<Rightarrow> int \<Rightarrow> bool" where
  "deleted_on_way cells way del \<longleftrightarrow> del = -1 \<or> (\<exists>x \<in> set way. del = int x \<and> cells ! x = HDel)"

lemma deleted_on_way_mono: "deleted_on_way cells xs del \<Longrightarrow> set xs \<subseteq> set ys \<Longrightarrow> deleted_on_way cells ys del"
  by (auto simp: deleted_on_way_def)

lemma passed_prefix:
  assumes "\<forall>x \<in> set (take d xs). P x"
  shows "set (take d xs) \<subseteq> set (takeWhile P xs)"
proof -
  have "takeWhile P (take d xs @ drop d xs) = take d xs @ takeWhile P (drop d xs)"
    using assms by (intro takeWhile_append2) auto
  then show ?thesis by (metis append_take_drop_id set_append Un_upper1)
qed

text \<open>At position \<open>d\<close> the probe is at the cell \<open>hv\<close>, with the first cell in \<open>ini\<close> unless it has just started.\<close>

definition probe_at :: "nat \<Rightarrow> nat \<Rightarrow> nat \<Rightarrow> nat \<Rightarrow> int \<Rightarrow> bool" where
  "probe_at n start d hv ini \<longleftrightarrow> d \<le> n \<and> hv = (start + d) mod n \<and> ini = (if d = 0 then -1 else int start)"

lemma probe_at_inside:
  assumes "probe_at n start d hv ini" "start < n" "d < n"
  shows "circle n start ! d = hv" "d = 0 \<Longrightarrow> hv = start" "int hv \<noteq> ini" "ini = (if hv = start then -1 else int start)"
    "probe_at n start (Suc d) (Suc hv mod n) (int start)"
  using assms circle_inj [of d n 0 start] by (auto simp: probe_at_def circle_nth mod_Suc_eq)

lemma probe_at_end: "probe_at n start n hv ini \<Longrightarrow> start < n \<Longrightarrow> hv = start \<and> ini = int start"
  by (auto simp: probe_at_def)

lemma hash_probe_step:
  assumes "probe_at (length cells) start d hv ini" "start < length cells" "d < length cells" "passes k (cells ! hv)"
  shows "hash_probe (Suc fuel) cells k hv ini del =
    hash_probe fuel cells k (Suc hv mod length cells) (int start) (if cells ! hv = HDel then int hv else del)"
proof -
  have "0 < length cells" using assms(2) by linarith
  then show ?thesis
    using assms probe_at_inside(2,3) [OF assms(1-3)] HashFunc_next [of "length cells" hv] by (auto simp: probe_at_def)
qed

lemma hash_probe_from:
  assumes "start < length cells" "probe_at (length cells) start d hv ini" "length cells - d < fuel"
    "\<forall>x \<in> set (take d (circle (length cells) start)). passes k (cells ! x)"
    "deleted_on_way cells (take d (circle (length cells) start)) del"
  shows "\<exists>del'. hash_probe fuel cells k hv ini del = Some (probe_result cells k start d del') \<and>
    deleted_on_way cells (takeWhile (\<lambda>x. passes k (cells ! x)) (circle (length cells) start)) del'"
  using assms(2-)
proof (induction fuel arbitrary: d hv ini del)
  case (Suc fuel)
  let ?c = "circle (length cells) start"
  have way: "deleted_on_way cells (takeWhile (\<lambda>x. passes k (cells ! x)) ?c) del"
    by (rule deleted_on_way_mono [OF Suc.prems(4) passed_prefix [OF Suc.prems(3)]])
  consider "d = length cells" | "d < length cells" "passes k (cells ! hv)" | "d < length cells" "\<not> passes k (cells ! hv)"
    using Suc.prems(1) by (fastforce simp: probe_at_def)
  then show ?case
  proof cases
    case 1
    then have "hv = start" "ini = int start" using probe_at_end [of "length cells" start hv ini] Suc.prems(1) assms(1) by simp_all
    then show ?thesis using way 1 by (auto simp: probe_result_def)
  next
    case 2
    note at = probe_at_inside [OF Suc.prems(1) assms(1) 2(1)]
    have tk: "take (Suc d) ?c = take d ?c @ [hv]" using 2(1) at(1) by (simp add: take_Suc_conv_app_nth)
    have "find (\<lambda>x. \<not> passes k (cells ! x)) (drop d ?c) = find (\<lambda>x. \<not> passes k (cells ! x)) (drop (Suc d) ?c)"
      using 2 at(1) by (simp add: Cons_nth_drop_Suc [symmetric])
    then have res: "probe_result cells k start d = probe_result cells k start (Suc d)" by (simp add: probe_result_def fun_eq_iff)
    show ?thesis
      unfolding hash_probe_step [OF Suc.prems(1) assms(1) 2] res
      by (rule Suc.IH [OF at(5)]) (use Suc.prems(2-4) 2 tk in \<open>auto simp: deleted_on_way_def\<close>)
  next
    case 3
    note at = probe_at_inside [OF Suc.prems(1) assms(1) 3(1)]
    have "find (\<lambda>x. \<not> passes k (cells ! x)) (drop d ?c) = Some hv"
      using 3 at(1) by (simp add: Cons_nth_drop_Suc [symmetric])
    then show ?thesis using way 3(2) at(4) by (auto simp: probe_result_def)
  qed
qed simp

lemma hash_probe_ok:
  assumes "cells \<noteq> []"
  obtains del where "hash_probe (length cells + 1) cells k (HashFunc (length cells) k) (-1) (-1) =
      Some (case hp.look cells k of
              Some i \<Rightarrow> (i, if i = HashFunc (length cells) k then -1 else int (HashFunc (length cells) k), del)
            | None \<Rightarrow> (HashFunc (length cells) k, int (HashFunc (length cells) k), del))"
    "del = -1 \<or> (\<exists>x \<in> set (takeWhile (\<lambda>x. \<not> (cells ! x = HNull \<or> hholds k (cells ! x)))
        (circle (length cells) (HashFunc (length cells) k))). del = int x \<and> cells ! x = HDel)"
proof -
  let ?n = "length cells" and ?s = "HashFunc (length cells) k"
  have s: "?s < ?n" using hp.home_less assms by simp
  obtain del where "hash_probe (?n + 1) cells k ?s (-1) (-1) =
      Some (case find (\<lambda>x. \<not> passes k (cells ! x)) (drop 0 (circle ?n ?s)) of
              Some i \<Rightarrow> (i, if i = ?s then -1 else int ?s, del) | None \<Rightarrow> (?s, int ?s, del))"
    "del = -1 \<or> (\<exists>x \<in> set (takeWhile (\<lambda>x. passes k (cells ! x)) (circle ?n ?s)). del = int x \<and> cells ! x = HDel)"
    using hash_probe_from [of ?s cells 0 ?s "-1" "?n + 1" k "-1"] s by (auto simp: probe_at_def probe_result_def deleted_on_way_def)
  then show thesis using that by (simp add: hp.look_def first_stop_def passes_iff)
qed

section \<open>The table as a map\<close>

definition table_ok :: "HashMapTable \<Rightarrow> bool" where
  "table_ok t \<longleftrightarrow> 0 < capacity t \<and>
     (case ht t of None \<Rightarrow> False | Some cells \<Rightarrow> length cells = capacity t \<and> hp.placed cells)"

text \<open>What a search for a key finds.\<close>

definition table_get :: "HashMapTable \<Rightarrow> int \<Rightarrow> int option" where
  "table_get t k = (case ht t of None \<Rightarrow> None | Some cells \<Rightarrow>
     (case hp.getc cells k of Some (HEntry _ v) \<Rightarrow> Some v | _ \<Rightarrow> None))"

definition table_full :: "HashMapTable \<Rightarrow> bool" where
  "table_full t \<longleftrightarrow> (case ht t of None \<Rightarrow> False | Some cells \<Rightarrow> \<forall>c \<in> set cells. c \<noteq> HNull)"

definition no_del :: "HashMapTable \<Rightarrow> bool" where
  "no_del t \<longleftrightarrow> (case ht t of None \<Rightarrow> True | Some cells \<Rightarrow> HDel \<notin> set cells)"

lemma table_okE:
  assumes "table_ok t"
  obtains cells where "ht t = Some cells" "length cells = capacity t" "cells \<noteq> []" "hp.placed cells"
proof (cases "ht t")
  case (Some cells)
  then have "length cells = capacity t" "0 < length cells" "hp.placed cells"
    using assms by (auto simp: table_ok_def)
  then show thesis using that Some by blast
qed (use assms in \<open>simp add: table_ok_def\<close>)

lemma getc_entry: "hp.placed cells \<Longrightarrow> hp.getc cells k = Some c \<Longrightarrow> \<exists>v. c = HEntry k v"
  using hp.getc_iff [of cells k c] by (auto simp: hholds_def)

lemma init_ok: "table_ok (hash_init t cap)" "table_get (hash_init t cap) k = None" "no_del (hash_init t cap)"
  using hp.placed_free [of "replicate _ HNull"] hp.getc_free [of "replicate _ HNull" k]
  by (auto simp: hash_init_def Let_def table_ok_def table_get_def no_del_def)

lemma SearchKey_get:
  assumes "table_ok t"
  shows "SearchKey t k = Some (case table_get t k of None \<Rightarrow> -1 | Some v \<Rightarrow> v)"
proof -
  obtain cells where c: "ht t = Some cells" "length cells = capacity t" "cells \<noteq> []" "hp.placed cells"
    by (rule table_okE [OF assms])
  have cap: "capacity t \<noteq> 0" using c(2,3) by (metis length_0_conv)
  obtain del where p: "hash_probe (length cells + 1) cells k (HashFunc (length cells) k) (-1) (-1) =
      Some (case hp.look cells k of
              Some i \<Rightarrow> (i, if i = HashFunc (length cells) k then -1 else int (HashFunc (length cells) k), del)
            | None \<Rightarrow> (HashFunc (length cells) k, int (HashFunc (length cells) k), del))"
    by (rule hash_probe_ok [OF c(3)])
  show ?thesis
  proof (cases "hp.look cells k")
    case None
    then show ?thesis using p c cap by (simp add: SearchKey_def table_get_def hp.getc_def)
  next
    case (Some i)
    then have "cells ! i = HNull \<or> hholds k (cells ! i)" using hp.look_stop by blast
    then show ?thesis using p c cap Some
      by (auto simp: SearchKey_def table_get_def hp.getc_def hholds_def)
  qed
qed

text \<open>\<^verbatim>\<open>Insert\<close> writes one slot: where the probe stopped, the last deleted slot on its way, or, in
  a table without a free or deleted slot on the way, the home slot.\<close>

lemma Insert_shape:
  assumes t: "table_ok t"
  obtains cells i where "ht t = Some cells" "hp.placed cells" "length cells = capacity t" "i < length cells"
    "Insert t k v = Some (t\<lparr>ht := Some (cells[i := HEntry k v])\<rparr>)"
    "hp.look cells k = Some i \<or> hp.look cells k = None \<and> i = HashFunc (length cells) k \<or>
     hp.getc cells k = None \<and> cells ! i = HDel \<and>
       i \<in> set (takeWhile (\<lambda>x. \<not> (cells ! x = HNull \<or> hholds k (cells ! x)))
         (circle (length cells) (HashFunc (length cells) k)))"
proof -
  obtain cells where c: "ht t = Some cells" "length cells = capacity t" "cells \<noteq> []" "hp.placed cells"
    by (rule table_okE [OF t])
  let ?s = "HashFunc (length cells) k"
  have cap: "capacity t \<noteq> 0" using c(2,3) by (metis length_0_conv)
  then have s: "?s < length cells" using c(2) hp.home_less by simp
  obtain del where p: "hash_probe (length cells + 1) cells k ?s (-1) (-1) =
      Some (case hp.look cells k of Some i \<Rightarrow> (i, if i = ?s then -1 else int ?s, del) | None \<Rightarrow> (?s, int ?s, del))"
    and del: "del = -1 \<or> (\<exists>x \<in> set (takeWhile (\<lambda>x. \<not> (cells ! x = HNull \<or> hholds k (cells ! x)))
        (circle (length cells) ?s)). del = int x \<and> cells ! x = HDel)"
    by (rule hash_probe_ok [OF c(3)])
  have dlen: "x < length cells" if "x \<in> set (takeWhile P (circle (length cells) ?s))" for x P
    using that set_circle [of "length cells" ?s] by (auto dest: set_takeWhileD)
  show thesis
  proof (cases "hp.look cells k")
    case None
    then have "hp.getc cells k = None" by (simp add: hp.getc_def)
    then show ?thesis
      using that [of cells ?s] that [of cells "nat del"] None p c cap s del dlen
      by (cases "del = -1") (auto simp: Insert_def Let_def simp del: hash_probe.simps)
  next
    case (Some i)
    then have i: "i < length cells" "cells ! i = HNull \<or> hholds k (cells ! i)"
      using hp.look_stop by blast+
    show ?thesis
    proof (cases "cells ! i = HNull \<and> del \<noteq> -1")
      case True
      then obtain x where x: "del = int x" "cells ! x = HDel" "x \<in> set (takeWhile (\<lambda>x. \<not> (cells ! x = HNull \<or> hholds k (cells ! x)))
        (circle (length cells) ?s))" using del by blast
      have "x \<noteq> i" using x True by auto
      moreover have "hp.getc cells k = None" using Some True by (simp add: hp.getc_def hholds_def)
      ultimately show ?thesis
        using that [of cells x] Some True x dlen [OF x(3)] p c cap i by (auto simp: Insert_def Let_def simp del: hash_probe.simps)
    next
      case False
      then show ?thesis
        using that [of cells i] Some p c cap i by (auto simp: Insert_def Let_def hholds_def simp del: hash_probe.simps)
    qed
  qed
qed

text \<open>Writing an entry for \<open>k\<close> at a place where the insertion may put it.\<close>

lemma entry_placed:
  assumes c: "hp.placed cells" "i < length cells"
    and at: "hp.look cells k = Some i \<or> hp.look cells k = None \<and> i = HashFunc (length cells) k \<or>
     hp.getc cells k = None \<and> cells ! i = HDel \<and>
       i \<in> set (takeWhile (\<lambda>x. \<not> (cells ! x = HNull \<or> hholds k (cells ! x)))
         (circle (length cells) (HashFunc (length cells) k)))"
  shows "hp.placed (cells[i := HEntry k v]) \<and> (\<forall>k'. hp.getc (cells[i := HEntry k v]) k' = (if k' = k then Some (HEntry k v)
      else if hp.look cells k = None \<and> hholds k' (cells ! i) then None else hp.getc cells k'))"
proof (cases "hp.look cells k = Some i \<or> hp.look cells k = None \<and> i = HashFunc (length cells) k")
  case True
  have h: "hholds k (HEntry k v)" by (simp add: hholds_def)
  have "\<not> hholds k' (cells ! i)" if "hp.look cells k = Some i" "k' \<noteq> k" for k'
    using hp.look_stop [OF that(1)] that(2) by (auto simp: hholds_def)
  then show ?thesis
    using hp.placed_update(1) [OF c h True] hp.getc_update [OF c h True] True by auto
next
  case False
  then have d: "hp.getc cells k = None" "cells ! i = HDel"
    "i \<in> set (takeWhile (\<lambda>x. \<not> (cells ! x = HNull \<or> hholds k (cells ! x)))
       (circle (length cells) (HashFunc (length cells) k)))" using at by auto
  have h: "hholds k (HEntry k v)" and idle: "\<not> hholds k' (cells ! i)" for k' using d(2) by (simp_all add: hholds_def)
  show ?thesis using hp.placed_reuse [OF c(1) h d(1,3) idle] idle by auto
qed

lemma table_look:
  assumes "ht t = Some cells" "\<not> table_full t \<or> table_get t k \<noteq> None"
  shows "hp.look cells k \<noteq> None"
  using assms(2)
proof
  assume "\<not> table_full t"
  then obtain j where "j < length cells" "cells ! j = HNull"
    using assms(1) by (auto simp: table_full_def in_set_conv_nth)
  then show ?thesis by (rule hp.look_room)
next
  assume "table_get t k \<noteq> None"
  then show ?thesis using assms(1) by (cases "hp.look cells k") (simp_all add: table_get_def hp.getc_def)
qed

lemma Insert_get:
  assumes t: "table_ok t"
  obtains t' where "Insert t k v = Some t'" "table_ok t'" "capacity t' = capacity t" "no_del t \<Longrightarrow> no_del t'"
    "table_get t' k = Some v"
    "\<And>k'. k' \<noteq> k \<Longrightarrow> \<not> table_full t \<or> table_get t k \<noteq> None \<Longrightarrow> table_get t' k' = table_get t k'"
proof -
  obtain cells i where c: "ht t = Some cells" "hp.placed cells" "length cells = capacity t" "i < length cells"
    and ins: "Insert t k v = Some (t\<lparr>ht := Some (cells[i := HEntry k v])\<rparr>)"
    and at: "hp.look cells k = Some i \<or> hp.look cells k = None \<and> i = HashFunc (length cells) k \<or>
     hp.getc cells k = None \<and> cells ! i = HDel \<and>
       i \<in> set (takeWhile (\<lambda>x. \<not> (cells ! x = HNull \<or> hholds k (cells ! x)))
         (circle (length cells) (HashFunc (length cells) k)))"
    by (rule Insert_shape [OF t])
  let ?c = "cells[i := HEntry k v]" and ?t = "t\<lparr>ht := Some (cells[i := HEntry k v])\<rparr>"
  note both = entry_placed [OF c(2,4) at, of v]
  show thesis
  proof (rule that [OF ins])
    show "table_ok ?t" using t both c by (auto simp: table_ok_def)
    show "no_del t \<Longrightarrow> no_del ?t"
      using c(1) set_update_subset_insert [of cells i "HEntry k v"] by (auto simp: no_del_def)
    show "table_get ?t k = Some v" using both by (simp add: table_get_def)
    show "table_get ?t k' = table_get t k'"
      if "k' \<noteq> k" "\<not> table_full t \<or> table_get t k \<noteq> None" for k'
      using both table_look [OF c(1) that(2)] that(1) c(1) by (auto simp: table_get_def)
  qed simp
qed

text \<open>A full table without deleted slots: inserting a new key evicts the key of its home slot.\<close>

lemma Insert_evicts:
  assumes t: "table_ok t" "no_del t" "table_full t" "table_get t k = None"
  obtains t' k0 where "Insert t k v = Some t'" "table_get t k0 \<noteq> None" "table_get t' k0 = None" "k0 \<noteq> k"
proof -
  obtain cells i where c: "ht t = Some cells" "hp.placed cells" "length cells = capacity t" "i < length cells"
    and ins: "Insert t k v = Some (t\<lparr>ht := Some (cells[i := HEntry k v])\<rparr>)"
    and at: "hp.look cells k = Some i \<or> hp.look cells k = None \<and> i = HashFunc (length cells) k \<or>
     hp.getc cells k = None \<and> cells ! i = HDel \<and>
       i \<in> set (takeWhile (\<lambda>x. \<not> (cells ! x = HNull \<or> hholds k (cells ! x)))
         (circle (length cells) (HashFunc (length cells) k)))"
    by (rule Insert_shape [OF t(1)])
  have ci: "cells ! i \<in> set cells" using c(4) by simp
  then have "cells ! i \<noteq> HNull" "cells ! i \<noteq> HDel" using t(2,3) c(1) by (auto simp: table_full_def no_del_def)
  then obtain k0 v0 where k0: "cells ! i = HEntry k0 v0" by (cases "cells ! i") auto
  have g0: "hp.getc cells k0 = Some (HEntry k0 v0)"
    unfolding hp.getc_iff [OF c(2)] using c(4) k0 by (intro exI [of _ i]) (simp add: hholds_def)
  then have ne: "k0 \<noteq> k" using t(4) c(1) by (auto simp: table_get_def)
  have "hp.look cells k \<noteq> Some i"
  proof
    assume "hp.look cells k = Some i"
    then have "cells ! i = HNull \<or> hholds k (cells ! i)" using hp.look_stop by blast
    then show False using k0 ne by (auto simp: hholds_def)
  qed
  then have at': "hp.look cells k = Some i \<or> hp.look cells k = None \<and> i = HashFunc (length cells) k"
    using at k0 by auto
  have "hp.getc (cells[i := HEntry k v]) k0 = None"
    using hp.getc_update [OF c(2,4) _ at', of "HEntry k v" k0] ne k0 by (simp add: hholds_def)
  then show thesis using that [OF ins, of k0] g0 c(1) ne by (simp add: table_get_def)
qed

lemma Remove_get:
  assumes t: "table_ok t"
  obtains t' where "Remove t k = Some t'" "table_ok t'"
    "\<And>k'. table_get t' k' = (if k' = k then None else table_get t k')"
proof -
  obtain cells where c: "ht t = Some cells" "length cells = capacity t" "cells \<noteq> []" "hp.placed cells"
    by (rule table_okE [OF t])
  have cap: "capacity t \<noteq> 0" using c(2,3) by (metis length_0_conv)
  obtain del where p: "hash_probe (length cells + 1) cells k (HashFunc (length cells) k) (-1) (-1) =
      Some (case hp.look cells k of
              Some i \<Rightarrow> (i, if i = HashFunc (length cells) k then -1 else int (HashFunc (length cells) k), del)
            | None \<Rightarrow> (HashFunc (length cells) k, int (HashFunc (length cells) k), del))"
    by (rule hash_probe_ok [OF c(3)])
  show thesis
  proof (cases "hp.getc cells k")
    case None
    have "Remove t k = Some t"
    proof (cases "hp.look cells k")
      case (Some i)
      then have "cells ! i = HNull \<or> hholds k (cells ! i)" using hp.look_stop by blast
      then have "cells ! i = HNull" using None Some by (auto simp: hp.getc_def)
      then show ?thesis using p c cap Some by (simp add: Remove_def del: hash_probe.simps)
    qed (use p c cap in \<open>simp add: Remove_def del: hash_probe.simps\<close>)
    then show thesis using that None c(1) t by (auto simp: table_get_def)
  next
    case (Some d)
    then obtain i where i: "hp.look cells k = Some i" "hholds k (cells ! i)"
      by (auto simp: hp.getc_def split: option.splits if_splits)
    have il: "i < length cells" using hp.look_stop [OF i(1)] by blast
    have nn: "cells ! i \<noteq> HNull" using i(2) by (auto simp: hholds_def)
    have rm: "Remove t k = Some (t\<lparr>ht := Some (cells[i := HDel])\<rparr>)"
      using p c cap i nn by (simp add: Remove_def del: hash_probe.simps)
    have hd: "HDel \<noteq> HNull" "\<not> hholds k' HDel" for k' by (auto simp: hholds_def)
    note v = hp.placed_vacate [OF c(4) il hd]
    have "hholds k' (cells ! i) \<longleftrightarrow> k' = k" for k' using i(2) hp.holds_unique by blast
    then show thesis using that [OF rm] v c t by (auto simp: table_ok_def table_get_def)
  qed
qed

section \<open>Properties of the hash table\<close>

text \<open>C28: Inserting into a table that is not full, or that holds the key already, returns; a search
  finds the inserted value afterwards, and answers every other key as before.\<close>

theorem hash_insert_then_search:
  assumes "table_ok t" "\<not> table_full t \<or> table_get t k \<noteq> None"
  shows "\<exists>t'. Insert t k v = Some t' \<and> table_ok t' \<and> SearchKey t' k = Some v \<and>
    (\<forall>k'. k' \<noteq> k \<longrightarrow> SearchKey t' k' = SearchKey t k')"
proof (rule Insert_get [OF assms(1), of k v])
  fix t'
  assume t': "Insert t k v = Some t'" "table_ok t'" "table_get t' k = Some v"
    "\<And>k'. k' \<noteq> k \<Longrightarrow> \<not> table_full t \<or> table_get t k \<noteq> None \<Longrightarrow> table_get t' k' = table_get t k'"
  then show ?thesis using assms SearchKey_get [OF t'(2)] SearchKey_get [OF assms(1)] by simp
qed

theorem hash_insert_then_search_witness:
  "\<exists>t'. Insert (hash_init HashMapTable_ctor 4) 9 2 = Some t' \<and> SearchKey t' 9 = Some 2"
proof -
  have "\<not> table_full (hash_init HashMapTable_ctor 4)" by (simp add: table_full_def hash_init_def Let_def numeral_eq_Suc)
  then show ?thesis using hash_insert_then_search [OF init_ok(1), of HashMapTable_ctor 4 9 2] by blast
qed

text \<open>Inserting a new key into a full table, one with neither free nor deleted slots, overwrites
  another key without notice: a search for that key, which found its value before, finds nothing.\<close>

theorem full_hash_insert_evicts:
  assumes "table_ok t" "no_del t" "table_full t" "table_get t k = None"
  shows "\<exists>t' k0. Insert t k v = Some t' \<and> k0 \<noteq> k \<and> table_get t k0 \<noteq> None \<and> SearchKey t' k0 = Some (-1)"
proof (rule Insert_evicts [OF assms, of v])
  fix t' k0
  assume e: "Insert t k v = Some t'" "table_get t k0 \<noteq> None" "table_get t' k0 = None" "k0 \<noteq> k"
  obtain t1 where "Insert t k v = Some t1" "table_ok t1" by (rule Insert_get [OF assms(1)])
  then have "SearchKey t' k0 = Some (-1)" using SearchKey_get [of t' k0] e(1,3) by simp
  then show ?thesis using e by blast
qed

theorem full_hash_insert_evicts_witness:
  "\<exists>t t' k0. Insert (hash_init HashMapTable_ctor 1) 3 0 = Some t \<and> Insert t 7 0 = Some t' \<and> k0 \<noteq> 7 \<and>
     table_get t k0 \<noteq> None \<and> SearchKey t' k0 = Some (-1)"
proof -
  let ?t = "hash_init HashMapTable_ctor 1"
  have nf: "\<not> table_full ?t" by (simp add: table_full_def hash_init_def Let_def)
  obtain t where t: "Insert ?t 3 0 = Some t" "table_ok t" "no_del ?t \<Longrightarrow> no_del t"
    "\<And>k'. k' \<noteq> 3 \<Longrightarrow> \<not> table_full ?t \<or> table_get ?t 3 \<noteq> None \<Longrightarrow> table_get t k' = table_get ?t k'"
    by (rule Insert_get [OF init_ok(1), of HashMapTable_ctor 1 3 0]) (rule that)
  have "map_option table_full (Insert ?t 3 0) = Some True" by code_simp
  then have "table_full t" using t(1) by simp
  moreover have "table_get t 7 = None" using t(4) [of 7] nf init_ok(2) by simp
  ultimately show ?thesis using full_hash_insert_evicts [OF t(2,3), of 7 0] init_ok(3) t(1) by blast
qed

text \<open>Removing a key returns; a search does not find the key afterwards, and answers every other
  key as before, also those that were displaced past the removed slot.\<close>

theorem hash_remove_correct:
  assumes "table_ok t"
  shows "\<exists>t'. Remove t k = Some t' \<and> table_ok t' \<and> SearchKey t' k = Some (-1) \<and>
    (\<forall>k'. k' \<noteq> k \<longrightarrow> SearchKey t' k' = SearchKey t k')"
proof (rule Remove_get [OF assms, of k])
  fix t'
  assume t': "Remove t k = Some t'" "table_ok t'" "\<And>k'. table_get t' k' = (if k' = k then None else table_get t k')"
  then show ?thesis using SearchKey_get [OF t'(2)] SearchKey_get [OF assms] by simp
qed

theorem hash_remove_correct_witness:
  "\<exists>t'. Remove (hash_init HashMapTable_ctor 4) 9 = Some t' \<and> SearchKey t' 9 = Some (-1)"
  using hash_remove_correct [OF init_ok(1), of HashMapTable_ctor 4 9] by blast

end
