(* ===== verification/Lookup_Directory.thy ===== *)
theory Lookup_Directory
  imports Probe
begin

text \<open>
  The lookup directory of one producer (\<^verbatim>\<open>core/btree.h\<close>, \<^verbatim>\<open>future_lookup_slot\<close> and
  \<^verbatim>\<open>btree::future_lookup_index\<close>): an open-addressing table with the latest buffered operation of
  every key the producer has buffered since the last drain.  The directories of all producers are a
  list indexed by the producer.
\<close>

section \<open>Model\<close>

datatype future_entry_state = FUTURE_ABSENT | FUTURE_PRESENT | FUTURE_TOMBSTONE

record future_lookup_slot =
  occupied :: bool
  slot_key :: entry_key_t
  owner :: int
  state :: future_entry_state
  sequence :: "64 word"

definition lookup_slot_ctor :: future_lookup_slot where
  "lookup_slot_ctor = \<lparr>occupied = False, slot_key = 0, owner = -1, state = FUTURE_ABSENT, sequence = 0\<rparr>"

type_synonym directory = "future_lookup_slot list"

definition dir_home :: "nat \<Rightarrow> entry_key_t \<Rightarrow> nat" where
  "dir_home n key = nat (crem (crem key (int n) + int n) (int n))"

text \<open>The \<^verbatim>\<open>do ... while (index != start)\<close> loop; the table size is enough fuel.\<close>

fun lookup_probe :: "nat \<Rightarrow> directory \<Rightarrow> entry_key_t \<Rightarrow> bool \<Rightarrow> nat \<Rightarrow> nat \<Rightarrow> nat option" where
  "lookup_probe 0 dir key allocate_slot start index = None"
| "lookup_probe (Suc n) dir key allocate_slot start index =
     (if \<not> occupied (dir ! index) then Some (if allocate_slot then index else length dir)
      else if slot_key (dir ! index) = key then Some index
      else (let index' = (index + 1) mod length dir in
            if index' \<noteq> start then lookup_probe n dir key allocate_slot start index'
            else Some (length dir)))"

definition future_lookup_index ::
  "directory list \<Rightarrow> entry_key_t \<Rightarrow> int \<Rightarrow> bool \<Rightarrow> (nat \<times> directory list) option" where
  "future_lookup_index dirs key tid allocate_slot =
     (if tid < 0 \<or> tid \<ge> int (length dirs) then Some (0, dirs)
      else (let dir = (if dirs ! nat tid = [] then [lookup_slot_ctor] else dirs ! nat tid);
                start = dir_home (length dir) key
            in do { index \<leftarrow> lookup_probe (length dir) dir key allocate_slot start start;
                    Some (index, dirs[nat tid := dir]) }))"

text \<open>The last block of \<^verbatim>\<open>future_insert\<close>: the operation is recorded in the slot of its key when
  there is one.\<close>

definition record_lookup ::
  "directory list \<Rightarrow> entry_key_t \<Rightarrow> int \<Rightarrow> bool \<Rightarrow> 64 word \<Rightarrow> directory list option" where
  "record_lookup dirs key tid isDone seq =
     do { (index, dirs') \<leftarrow> future_lookup_index dirs key tid True;
          Some (if index \<noteq> length (dirs' ! nat tid)
                then dirs'[nat tid := (dirs' ! nat tid)[index :=
                       \<lparr>occupied = True, slot_key = key, owner = tid,
                        state = (if isDone then FUTURE_TOMBSTONE else FUTURE_PRESENT), sequence = seq\<rparr>]]
                else dirs') }"

definition clear_directory :: "directory \<Rightarrow> directory" where
  "clear_directory dir = replicate (length dir) lookup_slot_ctor"

text \<open>\<^verbatim>\<open>future_clear_lookup_entries_for_producers\<close> and \<^verbatim>\<open>future_clear_lookup_directory\<close>\<close>

fun future_clear_lookup_entries_for_producers :: "directory list \<Rightarrow> int list \<Rightarrow> directory list" where
  "future_clear_lookup_entries_for_producers dirs [] = dirs"
| "future_clear_lookup_entries_for_producers dirs (tid # tids) =
     future_clear_lookup_entries_for_producers
       (if tid < 0 \<or> tid \<ge> int (length dirs) then dirs
        else dirs[nat tid := clear_directory (dirs ! nat tid)]) tids"

definition future_clear_lookup_directory :: "directory list \<Rightarrow> directory list" where
  "future_clear_lookup_directory dirs = map clear_directory dirs"

section \<open>The directory as a map\<close>

lemma dir_home_mod: "0 < n \<Longrightarrow> dir_home n key = nat (key mod int n)"
proof -
  assume n: "0 < n"
  then have "0 \<le> crem key (int n) + int n" using crem_bounds [of "int n" key] by linarith
  then have "crem (crem key (int n) + int n) (int n) = (crem key (int n) + int n) mod int n"
    by (simp add: crem_def)
  then show ?thesis using n by (simp add: dir_home_def crem_mod)
qed

definition slot_holds :: "int \<Rightarrow> future_lookup_slot \<Rightarrow> bool" where
  "slot_holds k s \<longleftrightarrow> occupied s \<and> slot_key s = k"

interpretation dp: probe_table "\<lambda>s. \<not> occupied s" slot_holds dir_home
proof unfold_locales
  fix n k assume "0 < (n::nat)"
  then show "dir_home n k < n" by (simp add: dir_home_mod nat_less_iff)
qed (auto simp: slot_holds_def)

lemma lookup_probe_from:
  assumes n: "n = length dir" "start < n" and d: "d < n" "n - d \<le> fuel" and i: "i = (start + d) mod n"
  shows "lookup_probe fuel dir key al start i =
    Some (case find (\<lambda>x. \<not> occupied (dir ! x) \<or> slot_holds key (dir ! x)) (drop d (circle n start)) of
            None \<Rightarrow> n | Some j \<Rightarrow> if occupied (dir ! j) \<or> al then j else n)"
  using d i
proof (induction fuel arbitrary: d i)
  case (Suc fuel)
  have step: "find (\<lambda>x. \<not> occupied (dir ! x) \<or> slot_holds key (dir ! x)) (drop d (circle n start)) =
    (if \<not> occupied (dir ! i) \<or> slot_holds key (dir ! i) then Some i
     else find (\<lambda>x. \<not> occupied (dir ! x) \<or> slot_holds key (dir ! x)) (drop (Suc d) (circle n start)))"
    by (rule first_stop_step [OF n(1) Suc.prems(1,3), of "\<lambda>s. \<not> occupied s \<or> slot_holds key s"])
  have nx: "(i + 1) mod n = start \<longleftrightarrow> Suc d = n"
    using circle_next [OF Suc.prems(1) n(2)] Suc.prems(3) by simp
  show ?case
  proof (cases "\<not> occupied (dir ! i) \<or> slot_holds key (dir ! i)")
    case True
    then show ?thesis using step n(1) by (auto simp: slot_holds_def)
  next
    case False
    show ?thesis
    proof (cases "Suc d = n")
      case True
      then show ?thesis using step nx False n(1) by (auto simp: slot_holds_def Let_def)
    next
      case more: False
      have "lookup_probe fuel dir key al start ((i + 1) mod n) =
        Some (case find (\<lambda>x. \<not> occupied (dir ! x) \<or> slot_holds key (dir ! x)) (drop (Suc d) (circle n start)) of
            None \<Rightarrow> n | Some j \<Rightarrow> if occupied (dir ! j) \<or> al then j else n)"
        using more Suc.prems by (intro Suc.IH) (auto simp: mod_Suc_eq)
      then show ?thesis using step nx False more n(1) by (auto simp: slot_holds_def Let_def)
    qed
  qed
qed simp

lemma lookup_probe_ok:
  assumes "dir \<noteq> []"
  shows "lookup_probe (length dir) dir key al (dir_home (length dir) key) (dir_home (length dir) key) =
    Some (case dp.look dir key of None \<Rightarrow> length dir
          | Some j \<Rightarrow> if occupied (dir ! j) \<or> al then j else length dir)"
proof -
  have n: "0 < length dir" using assms by simp
  note h = dp.home_less [OF n, of key]
  have "dir_home (length dir) key = (dir_home (length dir) key + 0) mod length dir" using h by simp
  then show ?thesis
    using lookup_probe_from [OF refl h n, of "length dir"] by (simp add: dp.look_def first_stop_def)
qed

text \<open>The recorded operation of a key.\<close>

definition dir_ok :: "directory \<Rightarrow> bool" where
  "dir_ok dir \<longleftrightarrow> dir \<noteq> [] \<and> dp.placed dir"

definition dir_get :: "directory \<Rightarrow> int \<Rightarrow> future_lookup_slot option" where
  "dir_get dir k = dp.getc dir k"

definition dir_full :: "directory \<Rightarrow> bool" where
  "dir_full dir \<longleftrightarrow> (\<forall>s \<in> set dir. occupied s)"

lemma dir_get_iff: "dir_ok dir \<Longrightarrow> dir_get dir k = Some s \<longleftrightarrow> s \<in> set dir \<and> occupied s \<and> slot_key s = k"
  unfolding dir_get_def dir_ok_def using dp.getc_iff [of dir k s]
  by (auto simp: slot_holds_def in_set_conv_nth)

lemma clear_directory_ok:
  "dir \<noteq> [] \<Longrightarrow> dir_ok (clear_directory dir)" "dir_get (clear_directory dir) k = None"
  using dp.placed_free [of "clear_directory dir"] dp.getc_free [of "clear_directory dir" k]
  by (auto simp: dir_ok_def dir_get_def clear_directory_def lookup_slot_ctor_def)

text \<open>A lookup answers the recorded slot, or the size of the directory.\<close>

lemma future_lookup_index_get:
  assumes "tid < length dirs" "dir_ok (dirs ! tid)"
  obtains i where "future_lookup_index dirs key (int tid) False = Some (i, dirs)"
    "case dir_get (dirs ! tid) key of None \<Rightarrow> i = length (dirs ! tid)
     | Some s \<Rightarrow> i < length (dirs ! tid) \<and> dirs ! tid ! i = s"
proof -
  have ne: "dirs ! tid \<noteq> []" using assms(2) by (simp add: dir_ok_def)
  show thesis
  proof (rule that)
    show "future_lookup_index dirs key (int tid) False = Some (case dp.look (dirs ! tid) key of
        None \<Rightarrow> length (dirs ! tid) | Some j \<Rightarrow> if occupied (dirs ! tid ! j) then j else length (dirs ! tid), dirs)"
      using ne assms(1) lookup_probe_ok [OF ne, of key False]
      by (simp add: future_lookup_index_def Let_def split: option.splits)
  qed (use dp.look_stop [of "dirs ! tid" key] in
      \<open>auto simp: dir_get_def dp.getc_def slot_holds_def split: option.splits if_splits\<close>)
qed

lemma record_lookup_get:
  assumes tid: "tid < length dirs" and ok: "dir_ok (dirs ! tid)"
  obtains dir' where "record_lookup dirs key (int tid) del seq = Some (dirs[tid := dir'])" "dir_ok dir'"
    "length dir' = length (dirs ! tid)"
    "\<And>k. \<not> dir_full (dirs ! tid) \<or> dir_get (dirs ! tid) key \<noteq> None \<Longrightarrow>
       dir_get dir' k = (if k = key then Some \<lparr>occupied = True, slot_key = key, owner = int tid,
         state = (if del then FUTURE_TOMBSTONE else FUTURE_PRESENT), sequence = seq\<rparr>
         else dir_get (dirs ! tid) k)"
    "dir_full (dirs ! tid) \<Longrightarrow> dir_get (dirs ! tid) key = None \<Longrightarrow> dir' = dirs ! tid"
proof -
  let ?d = "dirs ! tid" and ?s = "\<lparr>occupied = True, slot_key = key, owner = int tid,
         state = (if del then FUTURE_TOMBSTONE else FUTURE_PRESENT), sequence = seq\<rparr>"
  have ne: "?d \<noteq> []" and pl: "dp.placed ?d" using ok by (auto simp: dir_ok_def)
  have ix: "future_lookup_index dirs key (int tid) True =
      Some (case dp.look ?d key of None \<Rightarrow> length ?d | Some j \<Rightarrow> j, dirs)"
    using ne tid lookup_probe_ok [OF ne, of key True]
    by (simp add: future_lookup_index_def Let_def split: option.splits)
  have h: "slot_holds key ?s" by (simp add: slot_holds_def)
  show thesis
  proof (cases "dp.look ?d key")
    case None
    have "record_lookup dirs key (int tid) del seq = Some (dirs[tid := ?d])"
      using ix None by (simp add: record_lookup_def)
    moreover have "dir_full ?d \<and> dir_get ?d key = None"
      using None dp.look_room [of _ ?d key] unfolding dir_full_def dir_get_def dp.getc_def
      by (metis in_set_conv_nth option.simps(4))
    ultimately show ?thesis using that [of ?d] ok by auto
  next
    case (Some i)
    then have i: "i < length ?d" using dp.look_stop by blast
    have "record_lookup dirs key (int tid) del seq = Some (dirs[tid := ?d[i := ?s]])"
      using ix Some i by (simp add: record_lookup_def)
    moreover have "dir_ok (?d[i := ?s])"
      using dp.placed_update(1) [OF pl i h] Some ne by (simp add: dir_ok_def)
    moreover have "\<not> slot_holds k (?d ! i)" if "k \<noteq> key" for k
      using dp.look_stop [OF Some] that by (auto simp: slot_holds_def)
    then have "dir_get (?d[i := ?s]) k = (if k = key then Some ?s else dir_get ?d k)" for k
      using dp.getc_update [OF pl i h, of k] Some by (simp add: dir_get_def)
    moreover have "\<not> (dir_full ?d \<and> dir_get ?d key = None)"
      using dp.look_stop [OF Some] Some by (auto simp: dir_full_def dir_get_def dp.getc_def)
    ultimately show ?thesis using that [of "?d[i := ?s]"] by auto
  qed
qed

end
