(* ===== verification/BTree.thy ===== *)
theory BTree
  imports Page
begin

text \<open>
  The global B+-tree (\<^verbatim>\<open>core/btree.h\<close>, class \<^verbatim>\<open>btree\<close>, and the page methods that
  follow sibling pointers): a heap of pages, the root pointer and the height.

  Pointers are addresses in \<open>pages\<close>; the model of \<^verbatim>\<open>new page\<close> hands out the addresses
  \<open>next_page\<close>, \<open>next_page + PAGESIZE\<close>, \<dots> (only that they are fresh and not null is used).
  Following a pointer that is not a page is undefined behaviour and yields \<open>None\<close>.  A loop of
  the code that may run forever is a \<^theory_text>\<open>partial_function\<close> (the descents and the walk along
  the leaves) or takes fuel (the mutual recursion of \<^verbatim>\<open>store\<close> and
  \<^verbatim>\<open>btree_insert_internal\<close>, and the retries of \<^verbatim>\<open>btree_insert\<close> and
  \<^verbatim>\<open>btree_delete\<close>); theory \<open>BTree_Correct\<close> shows that they return on every well-formed
  tree and how much fuel is enough.
\<close>

section \<open>State\<close>

type_synonym heap = "int \<Rightarrow> page option"

record tree_state =
  root :: entry_ptr_t
  height :: nat
  pages :: heap
  next_page :: entry_ptr_t

definition write_page :: "tree_state \<Rightarrow> int \<Rightarrow> page \<Rightarrow> tree_state" where
  "write_page t a p = t\<lparr>pages := (pages t)(a \<mapsto> p)\<rparr>"

text \<open>\<^verbatim>\<open>new page(...)\<close>: a fresh address holding the constructed page.\<close>

definition new_page :: "tree_state \<Rightarrow> page \<Rightarrow> int \<times> tree_state" where
  "new_page t p =
     (next_page t,
      t\<lparr>pages := (pages t)(next_page t \<mapsto> p), next_page := next_page t + int PAGESIZE\<rparr>)"

text \<open>The constructor \<^verbatim>\<open>btree::btree\<close> of the DRAM build: a root leaf and height 1.\<close>

definition tree_ctor :: "int \<Rightarrow> tree_state" where
  "tree_ctor base =
     (let (r, t) = new_page \<lparr>root = 0, height = 1, pages = (\<lambda>_. None), next_page = base\<rparr> (page_ctor 0)
      in t\<lparr>root := r\<rparr>)"

definition setNewRoot :: "tree_state \<Rightarrow> int \<Rightarrow> tree_state" where
  "setNewRoot t new_root = t\<lparr>root := new_root, height := height t + 1\<rparr>"

section \<open>Search\<close>

definition linear_search :: "heap \<Rightarrow> page \<Rightarrow> entry_key_t \<Rightarrow> entry_ptr_t option" where
  "linear_search h p key =
     (let sib = sibling_ptr p in
      if leftmost_ptr p = 0 then
        (let ret = leaf_search p key in
         if ret \<noteq> 0 then Some ret
         else if sib \<noteq> 0 then
           do { s \<leftarrow> h sib; Some (if ekey (slot (records s) 0) \<le> key then sib else 0) }
         else Some 0)
      else
        (let ret = internal_search p key;
             res = (if ret \<noteq> 0 then ret else leftmost_ptr p) in
         if sib \<noteq> 0 then
           do { s \<leftarrow> h sib; Some (if ekey (slot (records s) 0) \<le> key then sib else res) }
         else Some res))"

text \<open>\<^verbatim>\<open>while (p->hdr.leftmost_ptr != NULL) p = p->linear_search(key)\<close>\<close>

partial_function (option) find_leaf :: "heap \<Rightarrow> int \<Rightarrow> entry_key_t \<Rightarrow> int option" where
  "find_leaf h a key =
     do { p \<leftarrow> h a;
          (if leftmost_ptr p = 0 then Some a
           else do { c \<leftarrow> linear_search h p key; find_leaf h c key }) }"

text \<open>\<^verbatim>\<open>while (p->hdr.level > level) p = p->linear_search(key)\<close>\<close>

partial_function (option) find_level :: "heap \<Rightarrow> int \<Rightarrow> entry_key_t \<Rightarrow> nat \<Rightarrow> int option" where
  "find_level h a key lvl =
     do { p \<leftarrow> h a;
          (if level p \<le> lvl then Some a
           else do { c \<leftarrow> linear_search h p key; find_level h c key lvl }) }"

text \<open>The loop that follows siblings as long as the search of a leaf answers with the sibling
  pointer; the pair is the page reached (0 when it ran off the chain) and the last answer.\<close>

partial_function (option) leaf_walk :: "heap \<Rightarrow> int \<Rightarrow> entry_key_t \<Rightarrow> (int \<times> entry_ptr_t) option" where
  "leaf_walk h a key =
     do { p \<leftarrow> h a;
          t \<leftarrow> linear_search h p key;
          (if t = sibling_ptr p
           then (if t = 0 then Some (0, t) else leaf_walk h t key)
           else Some (a, t)) }"

declare find_leaf.simps [code] find_level.simps [code] leaf_walk.simps [code]

definition btree_search :: "tree_state \<Rightarrow> entry_key_t \<Rightarrow> entry_ptr_t option" where
  "btree_search t key =
     do { a \<leftarrow> find_leaf (pages t) (root t) key;
          r \<leftarrow> leaf_walk (pages t) a key;
          Some (snd r) }"

section \<open>Insertion\<close>

text \<open>The loop that moves the upper half of the records into the new sibling: \<open>i\<close> is the
  index, \<open>k\<close> the number of records left to move.\<close>

fun migrate :: "entry list \<Rightarrow> nat \<Rightarrow> nat \<Rightarrow> page \<times> nat \<Rightarrow> page \<times> nat" where
  "migrate rs i 0 acc = acc"
| "migrate rs i (Suc k) acc =
     migrate rs (i + 1) k
       (insert_key (fst acc) (ekey (slot rs i)) (eptr (slot rs i)) (snd acc) True)"

text \<open>The FAIR branch of \<^verbatim>\<open>store\<close> up to the insertion of the key: the two halves, the
  split key, and whether the key went into the sibling.\<close>

definition split_page ::
  "page \<Rightarrow> int \<Rightarrow> entry_key_t \<Rightarrow> entry_ptr_t \<Rightarrow> page \<times> page \<times> entry_key_t \<times> bool" where
  "split_page p sib key right =
     (let num_entries = count p;
          m = num_entries div 2;
          split_key = ekey (slot (records p) m);
          fresh = page_ctor (level p);
          (q, sibling_cnt) =
            (if leftmost_ptr p = 0
             then migrate (records p) m (num_entries - m) (fresh, 0)
             else migrate (records p) (m + 1) (num_entries - (m + 1)) (fresh, 0));
          q1 = (if leftmost_ptr p = 0 then q
                else q\<lparr>leftmost_ptr := eptr (slot (records p) m)\<rparr>);
          q2 = q1\<lparr>sibling_ptr := sibling_ptr p\<rparr>;
          p1 = p\<lparr>sibling_ptr := sib,
                 switch_counter := (if IS_FORWARD (switch_counter p) then switch_counter p + 2
                                    else switch_counter p + 1),
                 records := set_ptr (records p) m 0,
                 last_index := int m - 1\<rparr>
      in if key < split_key
         then (fst (insert_key p1 key right m True), q2, split_key, False)
         else (p1, fst (insert_key q2 key right sibling_cnt True), split_key, True))"

text \<open>The test in front of \<^verbatim>\<open>store\<close>: does the key belong behind the first key of the
  sibling?\<close>

definition go_sibling :: "heap \<Rightarrow> page \<Rightarrow> entry_key_t \<Rightarrow> int \<Rightarrow> bool option" where
  "go_sibling h p key invalid_sibling =
     (if sibling_ptr p \<noteq> 0 \<and> sibling_ptr p \<noteq> invalid_sibling
      then do { s \<leftarrow> h (sibling_ptr p); Some (ekey (slot (records s) 0) < key) }
      else Some False)"

text \<open>\<^verbatim>\<open>page::store\<close> answers the page that took the key, 0 for a deleted page.\<close>

fun store :: "nat \<Rightarrow> tree_state \<Rightarrow> int \<Rightarrow> entry_key_t \<Rightarrow> entry_ptr_t \<Rightarrow> int \<Rightarrow> (int \<times> tree_state) option"
and btree_insert_internal ::
  "nat \<Rightarrow> tree_state \<Rightarrow> entry_key_t \<Rightarrow> entry_ptr_t \<Rightarrow> nat \<Rightarrow> tree_state option" where
  "store 0 t a key right invalid_sibling = None"
| "store (Suc n) t a key right invalid_sibling =
     do { p \<leftarrow> pages t a;
          (if is_deleted p then Some (0, t)
           else do { go \<leftarrow> go_sibling (pages t) p key invalid_sibling;
             (if go then store n t (sibling_ptr p) key right invalid_sibling
              else if count p < cardinality - 1
              then Some (a, write_page t a (fst (insert_key p key right (count p) True)))
              else
                (let (p', q, split_key, in_sibling) = split_page p (next_page t) key right;
                     (sib, t1) = new_page t q;
                     t2 = write_page t1 a p';
                     ret = (if in_sibling then sib else a)
                 in if root t2 = a
                    then (let (nr, t3) = new_page t2 (page_ctor_grow a split_key sib (level p + 1))
                          in Some (ret, setNewRoot t3 nr))
                    else do { t3 \<leftarrow> btree_insert_internal n t2 split_key sib (level p + 1);
                              Some (ret, t3) })) }) }"
| "btree_insert_internal 0 t key right lvl = None"
| "btree_insert_internal (Suc n) t key right lvl =
     do { r \<leftarrow> pages t (root t);
          (if level r < lvl then Some t
           else do { a \<leftarrow> find_level (pages t) (root t) key lvl;
                     res \<leftarrow> store n t a key right 0;
                     (if fst res = 0 then btree_insert_internal n (snd res) key right lvl
                      else Some (snd res)) }) }"

fun btree_insert :: "nat \<Rightarrow> tree_state \<Rightarrow> entry_key_t \<Rightarrow> entry_ptr_t \<Rightarrow> tree_state option" where
  "btree_insert 0 t key right = None"
| "btree_insert (Suc n) t key right =
     do { a \<leftarrow> find_leaf (pages t) (root t) key;
          res \<leftarrow> store n t a key right 0;
          (if fst res = 0 then btree_insert n (snd res) key right else Some (snd res)) }"

section \<open>Deletion\<close>

text \<open>\<^verbatim>\<open>page::remove\<close>: \<^verbatim>\<open>remove_key\<close> under the page lock.\<close>

definition remove_page :: "tree_state \<Rightarrow> int \<Rightarrow> entry_key_t \<Rightarrow> (bool \<times> tree_state) option" where
  "remove_page t a key =
     do { p \<leftarrow> pages t a;
          Some (snd (remove_key p key), write_page t a (fst (remove_key p key))) }"

fun btree_delete :: "nat \<Rightarrow> tree_state \<Rightarrow> entry_key_t \<Rightarrow> tree_state option" where
  "btree_delete 0 t key = None"
| "btree_delete (Suc n) t key =
     do { a \<leftarrow> find_leaf (pages t) (root t) key;
          w \<leftarrow> leaf_walk (pages t) a key;
          (if fst w \<noteq> 0
           then do { res \<leftarrow> remove_page t (fst w) key;
                     (if fst res then Some (snd res) else btree_delete n (snd res) key) }
           else Some t) }"

text \<open>Fuel for a tree whose root has the given level: one unit per call of the recursion through
  the levels, see \<open>BTree_Correct\<close>.\<close>

definition tree_fuel :: "tree_state \<Rightarrow> nat" where
  "tree_fuel t = (case pages t (root t) of None \<Rightarrow> 0 | Some r \<Rightarrow> 2 * level r + 3)"

end
