(* ===== verification/Cells.thy ===== *)
theory Cells
  imports F3_Prelude
begin

text \<open>
  Ordered lists of (key, bucket) cells: the abstract contents of a page and of a whole level of
  the tree.  Insertion goes behind equal keys, as \<^verbatim>\<open>insert_key\<close> does; deletion takes the
  first cell of the key, as \<^verbatim>\<open>remove_key\<close> does; \<open>route\<close> picks the last cell whose key
  does not exceed the searched one, the child an internal page must descend to.
\<close>

section \<open>Specification functions\<close>

definition csorted :: "cell list \<Rightarrow> bool" where
  "csorted xs \<longleftrightarrow> sorted (map fst xs)"

fun ins_cell :: "cell \<Rightarrow> cell list \<Rightarrow> cell list" where
  "ins_cell c [] = [c]"
| "ins_cell c (x # xs) = (if fst c < fst x then c # x # xs else x # ins_cell c xs)"

fun del_cell :: "int \<Rightarrow> cell list \<Rightarrow> cell list" where
  "del_cell k [] = []"
| "del_cell k (x # xs) = (if fst x = k then xs else x # del_cell k xs)"

definition route :: "int \<Rightarrow> cell list \<Rightarrow> cell" where
  "route k xs = last (takeWhile (\<lambda>c. fst c \<le> k) xs)"

section \<open>Ordered insertion\<close>

lemma csorted_Nil [simp]: "csorted []"
  by (simp add: csorted_def)

lemma csorted_Cons [cell_simps]:
  "csorted (x # xs) \<longleftrightarrow> (\<forall>y \<in> set xs. fst x \<le> fst y) \<and> csorted xs"
  by (auto simp: csorted_def)

lemma csorted_append [cell_simps]:
  "csorted (xs @ ys) \<longleftrightarrow> csorted xs \<and> csorted ys \<and> (\<forall>x \<in> set xs. \<forall>y \<in> set ys. fst x \<le> fst y)"
  by (auto simp: csorted_def sorted_append)

lemma csorted_take_le: "csorted xs \<Longrightarrow> i < length xs \<Longrightarrow> \<forall>c \<in> set (take i xs). fst c \<le> fst (xs ! i)"
  by (metis append_take_drop_id csorted_append Cons_nth_drop_Suc list.set_intros(1))

lemma csorted_drop_ge: "csorted xs \<Longrightarrow> i < length xs \<Longrightarrow> i \<le> j \<Longrightarrow> \<forall>c \<in> set (drop j xs). fst (xs ! i) \<le> fst c"
proof -
  assume srt: "csorted xs" and i: "i < length xs" "i \<le> j"
  have "csorted (xs ! i # drop (Suc i) xs)"
    using srt csorted_append [of "take i xs" "drop i xs"] i(1) by (simp add: Cons_nth_drop_Suc)
  moreover have "set (drop j xs) \<subseteq> set (xs ! i # drop (Suc i) xs)"
    using i by (simp add: Cons_nth_drop_Suc set_drop_subset_set_drop)
  ultimately show ?thesis by (auto simp: csorted_Cons)
qed

lemma csorted_take [simp]: "csorted xs \<Longrightarrow> csorted (take i xs)"
  by (metis append_take_drop_id csorted_append)

lemma csorted_drop [simp]: "csorted xs \<Longrightarrow> csorted (drop i xs)"
  by (metis append_take_drop_id csorted_append)

lemma mset_ins_cell [simp]: "mset (ins_cell c xs) = add_mset c (mset xs)"
  by (induction xs) auto

lemma set_ins_cell [simp]: "set (ins_cell c xs) = insert c (set xs)"
  by (induction xs) auto

lemma length_ins_cell [simp]: "length (ins_cell c xs) = Suc (length xs)"
  by (induction xs) auto

lemma ins_cell_neq_Nil [simp]: "ins_cell c xs \<noteq> []"
  by (cases xs) auto

lemma csorted_ins_cell [simp]: "csorted xs \<Longrightarrow> csorted (ins_cell c xs)"
  by (induction xs) (auto simp: cell_simps)

lemma ins_cell_append_ge:
  "\<forall>x \<in> set xs. fst x \<le> fst c \<Longrightarrow> ins_cell c (xs @ ys) = xs @ ins_cell c ys"
  by (induction xs) auto

lemma ins_cell_append_less:
  "ys \<noteq> [] \<Longrightarrow> fst c < fst (hd ys) \<Longrightarrow> ins_cell c (xs @ ys) = ins_cell c xs @ ys"
proof (induction xs)
  case Nil
  then show ?case by (cases ys) auto
qed auto

lemma ins_cell_append_less_all:
  "\<forall>y \<in> set ys. fst c < fst y \<Longrightarrow> ins_cell c (xs @ ys) = ins_cell c xs @ ys"
  by (cases "ys = []") (auto simp: ins_cell_append_less)

lemma ins_cell_snoc:
  "\<forall>x \<in> set xs. fst x \<le> fst c \<Longrightarrow> ins_cell c xs = xs @ [c]"
  using ins_cell_append_ge [of xs c "[]"] by simp

lemma ins_cell_mid:
  assumes "csorted (xs @ [x])" "fst c < fst x"
  shows "ins_cell c (xs @ [x]) = ins_cell c xs @ [x]"
  using assms by (simp add: ins_cell_append_less)

section \<open>Deletion\<close>

lemma del_cell_absent [simp]: "k \<notin> fst ` set xs \<Longrightarrow> del_cell k xs = xs"
  by (induction xs) auto

lemma set_del_cell: "set (del_cell k xs) \<subseteq> set xs"
  by (induction xs) auto

lemma del_cell_other: "c \<in> set xs \<Longrightarrow> fst c \<noteq> k \<Longrightarrow> c \<in> set (del_cell k xs)"
  by (induction xs) auto

lemma csorted_del_cell [simp]: "csorted xs \<Longrightarrow> csorted (del_cell k xs)"
  by (induction xs) (use set_del_cell in \<open>fastforce simp: cell_simps\<close>)+

lemma length_del_cell:
  "length (del_cell k xs) = (if k \<in> fst ` set xs then length xs - 1 else length xs)"
proof (induction xs)
  case (Cons a xs)
  then show ?case by (cases xs) auto
qed simp

lemma del_cell_append:
  "del_cell k (xs @ ys) = (if k \<in> fst ` set xs then del_cell k xs @ ys else xs @ del_cell k ys)"
  by (induction xs) auto

lemma del_cell_first:
  "h < length xs \<Longrightarrow> fst (xs ! h) = k \<Longrightarrow> \<forall>j < h. fst (xs ! j) \<noteq> k \<Longrightarrow>
   del_cell k xs = take h xs @ drop (Suc h) xs"
proof (induction xs arbitrary: h)
  case (Cons a xs)
  show ?case
  proof (cases h)
    case (Suc h')
    then have "fst a \<noteq> k" using Cons.prems(3) by force
    moreover have "del_cell k xs = take h' xs @ drop (Suc h') xs"
      using Cons.prems Suc by (intro Cons.IH) auto
    ultimately show ?thesis using Suc by simp
  qed (use Cons.prems in simp)
qed simp

lemma distinct_del_cell:
  "distinct (map fst xs) \<Longrightarrow> fst ` set (del_cell k xs) = fst ` set xs - {k}"
  by (induction xs) (auto simp: image_iff)

lemma distinct_map_del_cell:
  "distinct (map fst xs) \<Longrightarrow> distinct (map fst (del_cell k xs))"
  by (induction xs) (use set_del_cell in fastforce)+

lemma filter_del_cell_length:
  "length (filter P (del_cell k xs)) \<le> length (filter P xs)"
  by (induction xs) auto

section \<open>Routing\<close>

lemma route_append_less:
  "xs \<noteq> [] \<Longrightarrow> fst (hd xs) \<le> k \<Longrightarrow> (ys = [] \<or> k < fst (hd ys)) \<Longrightarrow> csorted xs \<Longrightarrow>
   route k (xs @ ys) = route k xs"
  unfolding route_def
  by (cases ys) (auto simp: takeWhile_append takeWhile_eq_all_conv [THEN iffD2])

lemma route_append_ge:
  "csorted (xs @ ys) \<Longrightarrow> ys \<noteq> [] \<Longrightarrow> fst (hd ys) \<le> k \<Longrightarrow> route k (xs @ ys) = route k ys"
proof -
  assume s: "csorted (xs @ ys)" and ne: "ys \<noteq> []" and le: "fst (hd ys) \<le> k"
  have "\<forall>x \<in> set xs. fst x \<le> k"
    using s ne le by (cases ys) (auto simp: cell_simps intro: order_trans)
  then have "takeWhile (\<lambda>c. fst c \<le> k) (xs @ ys) = xs @ takeWhile (\<lambda>c. fst c \<le> k) ys"
    by (simp add: takeWhile_append2)
  moreover have "takeWhile (\<lambda>c. fst c \<le> k) ys \<noteq> []"
    using ne le by (cases ys) auto
  ultimately show ?thesis by (simp add: route_def)
qed

lemma route_in_set:
  "xs \<noteq> [] \<Longrightarrow> fst (hd xs) \<le> k \<Longrightarrow> route k xs \<in> set xs \<and> fst (route k xs) \<le> k"
proof -
  assume ne: "xs \<noteq> []" and le: "fst (hd xs) \<le> k"
  then have "takeWhile (\<lambda>c. fst c \<le> k) xs \<noteq> []" by (cases xs) auto
  then have "route k xs \<in> set (takeWhile (\<lambda>c. fst c \<le> k) xs)"
    unfolding route_def by (rule last_in_set)
  then show ?thesis by (auto dest: set_takeWhileD)
qed

text \<open>A routed list splits at the routed cell: nothing behind it is reached.\<close>

lemma route_split:
  assumes "csorted xs" "xs \<noteq> []" "fst (hd xs) \<le> k"
  obtains us vs where "xs = us @ route k xs # vs" "\<forall>c \<in> set vs. k < fst c"
    "\<forall>c \<in> set us. fst c \<le> k" "fst (route k xs) \<le> k"
proof -
  let ?t = "takeWhile (\<lambda>c. fst c \<le> k) xs" and ?d = "dropWhile (\<lambda>c. fst c \<le> k) xs"
  have ne: "?t \<noteq> []" using assms(2,3) by (cases xs) auto
  have s: "csorted (?t @ ?d)" using assms(1) by simp
  have "\<forall>c \<in> set ?d. k < fst c"
  proof (cases ?d)
    case (Cons d ds)
    then have "\<not> fst d \<le> k" by (metis (no_types) dropWhile_eq_Cons_conv)
    then show ?thesis using s Cons by (auto simp: cell_simps)
  qed (simp only: list.set ball_empty)
  moreover have "?t = butlast ?t @ [route k xs]" using ne by (simp add: route_def)
  then have "xs = butlast ?t @ route k xs # ?d"
    by (metis append.assoc append_Cons append_Nil takeWhile_dropWhile_id)
  moreover have "\<forall>c \<in> set (butlast ?t). fst c \<le> k"
    by (meson in_set_butlastD set_takeWhileD)
  moreover have "fst (route k xs) \<le> k" using route_in_set [OF assms(2,3)] by simp
  ultimately show thesis using that by blast
qed

end
