(* ===== verification/Page_Correct.thy ===== *)
theory Page_Correct
  imports Page Cells
begin

text \<open>
  Correctness of the operations on one page.  \<open>live p\<close> is the abstract content of a page, the
  cells in front of its null terminator; \<open>page_inv\<close> is the layout invariant every operation
  keeps.  Under it \<^verbatim>\<open>count\<close> is the number of live cells in both scan directions,
  \<^verbatim>\<open>insert_key\<close> is ordered insertion, \<^verbatim>\<open>remove_key\<close> deletes the first cell of the
  key, and both directions of the leaf and of the internal search agree with their list
  specification.
\<close>

section \<open>Abstraction and invariant\<close>

definition cell_of :: "entry \<Rightarrow> cell" where
  "cell_of e = (ekey e, eptr e)"

definition live :: "page \<Rightarrow> cell list" where
  "live p = map cell_of (take (nat (last_index p + 1)) (records p))"

definition page_inv :: "page \<Rightarrow> bool" where
  "page_inv p \<longleftrightarrow>
     length (records p) = cardinality \<and> -1 \<le> last_index p \<and>
     nat (last_index p + 1) < cardinality \<and>
     (\<forall>i < nat (last_index p + 1). eptr (records p ! i) \<noteq> 0) \<and>
     eptr (records p ! nat (last_index p + 1)) = 0 \<and>
     (last_index p = -1 \<longrightarrow> eptr (records p ! 1) = 0)"

text \<open>No slot of the array, live or stale, has a key below \<open>f\<close>.\<close>

definition keys_from :: "int \<Rightarrow> entry list \<Rightarrow> bool" where
  "keys_from f rs \<longleftrightarrow> (\<forall>e \<in> set rs. f \<le> ekey e)"

section \<open>Slots\<close>

lemma cardinality_val: "cardinality = 28"
  by (simp add: cardinality_def PAGESIZE_def sizeof_header_def sizeof_entry_def)

lemma cell_of_sel [simp]: "fst (cell_of e) = ekey e" "snd (cell_of e) = eptr e"
  by (simp_all add: cell_of_def)

lemma slot_nth [simp]: "i < length rs \<Longrightarrow> slot rs i = rs ! i"
  by (simp add: slot_def)

lemma slot_out [simp]: "length rs \<le> i \<Longrightarrow> slot rs i = entry_ctor"
  by (simp add: slot_def)

lemma length_set_key [simp]: "length (set_key rs i k) = length rs"
  by (simp add: set_key_def)

lemma length_set_ptr [simp]: "length (set_ptr rs i v) = length rs"
  by (simp add: set_ptr_def)

lemma entry_upd_collapse [simp]:
  "e\<lparr>eptr := v, ekey := k\<rparr> = \<lparr>ekey = k, eptr = v\<rparr>"
  "e\<lparr>ekey := k, eptr := v\<rparr> = \<lparr>ekey = k, eptr = v\<rparr>"
  by (cases e; simp)+

lemma set_key_ptr_collapse [simp]:
  "i < length rs \<Longrightarrow> set_key (set_ptr rs i v) i k = rs[i := \<lparr>ekey = k, eptr = v\<rparr>]"
  "i < length rs \<Longrightarrow> set_ptr (set_key rs i k) i v = rs[i := \<lparr>ekey = k, eptr = v\<rparr>]"
  "i < length rs \<Longrightarrow> set_ptr (rs[i := \<lparr>ekey = k, eptr = u\<rparr>]) i v = rs[i := \<lparr>ekey = k, eptr = v\<rparr>]"
  by (simp_all add: set_key_def set_ptr_def slot_def)

lemma entry_collapse [simp]: "\<lparr>ekey = ekey e, eptr = eptr e\<rparr> = (e :: entry)"
  by simp

lemma nth_set_ptr [slot_simps]:
  "i < length rs \<Longrightarrow> set_ptr rs i v ! j = (if j = i then (rs ! i)\<lparr>eptr := v\<rparr> else rs ! j)"
  by (simp add: set_ptr_def slot_def)

lemma take_set_ptr [slot_simps]: "n \<le> i \<Longrightarrow> take n (set_ptr rs i v) = take n rs"
  by (simp add: set_ptr_def)

lemma keys_set_ptr [slot_simps]: "i < length rs \<Longrightarrow> map ekey (set_ptr rs i v) = map ekey rs"
  by (simp add: set_ptr_def slot_def map_update list_update_same_conv)

lemma keys_from_update [simp]: "keys_from f rs \<Longrightarrow> f \<le> ekey e \<Longrightarrow> keys_from f (rs[i := e])"
  unfolding keys_from_def by (rule ball_list_update)

lemma keys_from_nth: "keys_from f rs \<Longrightarrow> i < length rs \<Longrightarrow> f \<le> ekey (rs ! i)"
  by (simp add: keys_from_def)

lemma keys_from_set_ptr [simp]: "keys_from f rs \<Longrightarrow> i < length rs \<Longrightarrow> keys_from f (set_ptr rs i v)"
  by (simp add: set_ptr_def keys_from_nth)

section \<open>The number of live cells\<close>

lemma length_live: "page_inv p \<Longrightarrow> length (live p) = nat (last_index p + 1)"
  by (simp add: page_inv_def live_def)

lemma live_nth:
  "page_inv p \<Longrightarrow> i < length (live p) \<Longrightarrow> live p ! i = cell_of (records p ! i)"
  by (simp add: length_live) (simp add: live_def page_inv_def)

lemma count_down_null: "eptr (slot rs i) = 0 \<Longrightarrow> count_down rs i = int i"
  by (cases i) auto

lemma count_live [page_simps]: "page_inv p \<Longrightarrow> count p = length (live p)"
  by (auto simp: page_inv_def count_def live_def Let_def count_up.simps [of _ "nat (last_index p + 1)"]
      count_down_null)

section \<open>Insertion\<close>

lemma length_insert_shift [simp]: "length (insert_shift i key ptr lm rs) = length rs"
  by (induction i arbitrary: rs) (auto simp: Let_def)

text \<open>A cell greater than the new one moves up by one slot, and the new one goes below it.\<close>

lemma insert_shift_moves:
  assumes "Suc i < length rs" "csorted (map cell_of (take i rs) @ [cell_of (rs ! i)])" "key < ekey (rs ! i)"
    and IH: "map cell_of (take (Suc i) r) = ins_cell (key, ptr) (map cell_of (take i rs))"
      "drop (Suc i) r = drop (Suc i) (rs[Suc i := rs ! i])"
  shows "map cell_of (take (Suc (Suc i)) r) = ins_cell (key, ptr) (map cell_of (take i rs) @ [cell_of (rs ! i)])"
    "drop (Suc (Suc i)) r = drop (Suc (Suc i)) rs"
proof -
  have dr: "drop (Suc i) r = rs ! i # drop (Suc (Suc i)) rs"
    using IH(2) assms(1) by (simp add: Cons_nth_drop_Suc [symmetric])
  have "take (Suc (Suc i)) r = take (Suc i) r @ take 1 (drop (Suc i) r)"
    using take_add [of "Suc i" 1 r] by simp
  then have "map cell_of (take (Suc (Suc i)) r) = ins_cell (key, ptr) (map cell_of (take i rs)) @ [cell_of (rs ! i)]"
    using IH(1) dr by simp
  then show "map cell_of (take (Suc (Suc i)) r) = ins_cell (key, ptr) (map cell_of (take i rs) @ [cell_of (rs ! i)])"
    using assms(3) ins_cell_mid [OF assms(2), of "(key, ptr)"] by simp
  show "drop (Suc (Suc i)) r = drop (Suc (Suc i)) rs" using dr by (metis drop_Suc list.sel(3) tl_drop)
qed

lemma insert_shift_both:
  assumes "i < length rs" "csorted (map cell_of (take i rs))"
  shows "map cell_of (take (Suc i) (insert_shift i key ptr lm rs)) = ins_cell (key, ptr) (map cell_of (take i rs)) \<and>
    drop (Suc i) (insert_shift i key ptr lm rs) = drop (Suc i) rs"
  using assms
proof (induction i arbitrary: rs)
  case 0
  then show ?case by (cases rs) (auto simp: cell_of_def set_ptr_def set_key_def)
next
  case (Suc i)
  let ?r = "insert_shift (Suc i) key ptr lm rs" and ?rs = "rs[Suc i := rs ! i]"
  have split: "map cell_of (take (Suc i) rs) = map cell_of (take i rs) @ [cell_of (rs ! i)]"
    using Suc.prems(1) by (simp add: take_Suc_conv_app_nth)
  have srt: "csorted (map cell_of (take i rs) @ [cell_of (rs ! i)])"
    using Suc.prems(2) split by simp
  show ?case
  proof (cases "key < ekey (rs ! i)")
    case True
    have r: "?r = insert_shift i key ptr lm ?rs" using True Suc.prems(1) by simp
    have IH: "map cell_of (take (Suc i) ?r) = ins_cell (key, ptr) (map cell_of (take i rs))" "drop (Suc i) ?r = drop (Suc i) ?rs"
      using Suc.IH [of ?rs] Suc.prems(1) srt unfolding r by (auto simp: cell_simps)
    show ?thesis using insert_shift_moves [OF Suc.prems(1) srt True IH] split by simp
  next
    case False
    have r: "?r = rs[Suc i := \<lparr>ekey = key, eptr = ptr\<rparr>]" using False Suc.prems(1) by simp
    have "\<forall>c \<in> set (map cell_of (take i rs) @ [cell_of (rs ! i)]). fst c \<le> key"
      using srt False by (auto simp: csorted_append intro: order_trans [of _ "ekey (rs ! i)"])
    then show ?thesis
      using split Suc.prems(1)
      by (simp add: r take_Suc_update ins_cell_snoc) (simp add: cell_of_def)
  qed
qed

lemmas insert_shift_cells = insert_shift_both [THEN conjunct1] insert_shift_both [THEN conjunct2]

lemma insert_shift_keys:
  "i < length rs \<Longrightarrow> f \<le> key \<Longrightarrow> keys_from f rs \<Longrightarrow>
   keys_from f (insert_shift i key ptr lm rs)"
  by (induction i arbitrary: rs) (auto simp: keys_from_nth)

lemma insert_shift_nth: "i < j \<Longrightarrow> insert_shift i key ptr lm rs ! j = rs ! j"
  by (induction i arbitrary: rs) (auto simp: set_ptr_def set_key_def Let_def)

text \<open>The records after \<^verbatim>\<open>insert_key\<close>, whether or not the page was empty.\<close>

lemma insert_key_records:
  assumes inv: "page_inv p" and room: "length (live p) < cardinality - 1"
    and n: "num = length (live p)" and srt: "csorted (live p)"
  shows "map cell_of (take (Suc num) (records (fst (insert_key p key ptr num True))))
           = ins_cell (key, ptr) (live p)"
    and "eptr (records (fst (insert_key p key ptr num True)) ! Suc num) = 0"
proof -
  let ?rs = "records p"
  have len: "length ?rs = 28" and num: "num < 27" and lv: "live p = map cell_of (take num ?rs)"
    using inv room n by (auto simp: page_inv_def cardinality_val live_def length_live)
  have null: "eptr (?rs ! num) = 0"
    using inv n by (simp add: page_inv_def length_live)
  let ?rs' = "set_ptr ?rs (num + 1) (eptr (slot ?rs num))"
  have tk: "take num ?rs' = take num ?rs" by (simp add: take_set_ptr)
  have "map cell_of (take (Suc num) (records (fst (insert_key p key ptr num True))))
           = ins_cell (key, ptr) (live p)
        \<and> eptr (records (fst (insert_key p key ptr num True)) ! Suc num) = 0"
  proof (cases "num = 0")
    case True
    then show ?thesis
      using len lv by (cases ?rs) (auto simp: insert_key_def Let_def slot_simps cell_of_def)
  next
    case False
    have "insert_shift num key ptr (leftmost_ptr p) ?rs' ! Suc num = ?rs' ! Suc num"
      by (simp add: insert_shift_nth)
    then show ?thesis
      using False insert_shift_cells(1) [of num ?rs'] len num srt lv tk null
      by (simp add: insert_key_def Let_def nth_set_ptr)
  qed
  then show "map cell_of (take (Suc num) (records (fst (insert_key p key ptr num True))))
           = ins_cell (key, ptr) (live p)"
    and "eptr (records (fst (insert_key p key ptr num True)) ! Suc num) = 0"
    by blast+
qed

lemma insert_key_num [simp]: "snd (insert_key p key ptr num u) = num + 1"
  by (simp add: insert_key_def Let_def)

lemma insert_key_frame [simp]:
  "leftmost_ptr (fst (insert_key p key ptr num u)) = leftmost_ptr p"
  "sibling_ptr (fst (insert_key p key ptr num u)) = sibling_ptr p"
  "level (fst (insert_key p key ptr num u)) = level p"
  "is_deleted (fst (insert_key p key ptr num u)) = is_deleted p"
  "last_index (fst (insert_key p key ptr num True)) = int num"
  "length (records (fst (insert_key p key ptr num u))) = length (records p)"
  by (simp_all add: insert_key_def Let_def)

lemma insert_key_live:
  assumes "page_inv p" "length (live p) < cardinality - 1" "num = length (live p)" "csorted (live p)"
  shows "live (fst (insert_key p key ptr num True)) = ins_cell (key, ptr) (live p)"
  using insert_key_records(1) [OF assms, of key ptr] by (simp add: live_def nat_add_distrib)

lemma insert_key_inv:
  assumes inv: "page_inv p" and room: "length (live p) < cardinality - 1"
    and num: "num = length (live p)" and srt: "csorted (live p)" and nz: "ptr \<noteq> 0"
  shows "page_inv (fst (insert_key p key ptr num True))"
proof -
  let ?p = "fst (insert_key p key ptr num True)"
  have len: "length (records ?p) = cardinality" using inv by (simp add: page_inv_def)
  have snds: "\<forall>c \<in> set (live p). snd c \<noteq> 0"
    using inv by (auto simp: page_inv_def live_def in_set_conv_nth)
  have cells: "map cell_of (take (Suc num) (records ?p)) = ins_cell (key, ptr) (live p)"
    by (rule insert_key_records(1) [OF inv room num srt])
  have "eptr (records ?p ! i) \<noteq> 0" if "i < Suc num" for i
  proof -
    have "cell_of (records ?p ! i) = map cell_of (take (Suc num) (records ?p)) ! i"
      using that room num len by (simp add: cardinality_val)
    also have "\<dots> \<in> set (ins_cell (key, ptr) (live p))"
      unfolding cells using that num by (intro nth_mem) simp
    finally have "snd (cell_of (records ?p ! i)) \<noteq> 0"
      using snds nz by (metis insertE set_ins_cell snd_conv)
    then show ?thesis by simp
  qed
  moreover have "eptr (records ?p ! Suc num) = 0"
    by (rule insert_key_records(2) [OF inv room num srt])
  ultimately show ?thesis
    using len room num by (simp add: page_inv_def nat_add_distrib cardinality_val)
qed

lemma insert_key_keys_from:
  assumes "page_inv p" "num < cardinality - 1" "f \<le> key" "keys_from f (records p)"
  shows "keys_from f (records (fst (insert_key p key ptr num True)))"
proof -
  have len: "length (records p) = 28" and n: "num < 27"
    using assms(1,2) by (auto simp: page_inv_def cardinality_val)
  then show ?thesis
    using assms(3,4) by (simp add: insert_key_def Let_def insert_shift_keys)
qed

section \<open>Removal\<close>

text \<open>Once the key has been found, the loop moves every record one slot to the left.\<close>

lemma remove_shift_shifting:
  assumes "n < length rs" "i \<le> n" "\<forall>j. i \<le> j \<and> j < n \<longrightarrow> eptr (rs ! j) \<noteq> 0" "eptr (rs ! n) = 0"
  shows "\<exists>rs'. remove_shift key lm True i rs = (True, rs') \<and> length rs' = length rs
           \<and> (\<forall>j < length rs. rs' ! j = (if i \<le> j \<and> j < n then rs ! Suc j else rs ! j))"
  using assms
proof (induction "n - i" arbitrary: i rs)
  case 0
  then show ?case by (subst remove_shift.simps) auto
next
  case (Suc d)
  let ?rs = "rs[i := rs ! Suc i]"
  have i: "i < n" and step: "remove_shift key lm True i rs = remove_shift key lm True (Suc i) ?rs"
    using Suc by (auto simp: remove_shift.simps [of key lm True i rs] Let_def)
  obtain rs' where rs': "remove_shift key lm True (Suc i) ?rs = (True, rs')" "length rs' = length ?rs"
    "\<forall>j < length ?rs. rs' ! j = (if Suc i \<le> j \<and> j < n then ?rs ! Suc j else ?rs ! j)"
  proof -
    have "d = n - Suc i" using Suc.hyps(2) by simp
    then show thesis using that Suc.hyps(1) [of "Suc i" ?rs] Suc.prems i by auto
  qed
  have "rs' ! j = (if i \<le> j \<and> j < n then rs ! Suc j else rs ! j)" if "j < length rs" for j
    using rs'(3) that i Suc.prems(1) by (cases "j = i") auto
  then show ?case using step rs' by auto
qed

lemma remove_shift_hit:
  assumes "h < n" "n < length rs" "\<forall>j < n. eptr (rs ! j) \<noteq> 0" "eptr (rs ! n) = 0"
    and "ekey (rs ! h) = key" "\<forall>j. i \<le> j \<and> j < h \<longrightarrow> ekey (rs ! j) \<noteq> key" "i \<le> h"
  shows "\<exists>rs'. remove_shift key lm False i rs = (True, rs') \<and> length rs' = length rs
           \<and> (\<forall>j < length rs. rs' ! j = (if h \<le> j \<and> j < n then rs ! Suc j else rs ! j))"
  using assms(6,7)
proof (induction "h - i" arbitrary: i)
  case 0
  let ?rs = "rs[h := rs ! Suc h]"
  have "remove_shift key lm False h rs = remove_shift key lm True (Suc h) ?rs"
    using assms(1-5) by (simp add: remove_shift.simps [of key lm False h rs] Let_def nth_set_ptr
        set_key_def set_ptr_def)
  moreover obtain rs' where rs': "remove_shift key lm True (Suc h) ?rs = (True, rs')"
    "length rs' = length ?rs"
    "\<forall>j < length ?rs. rs' ! j = (if Suc h \<le> j \<and> j < n then ?rs ! Suc j else ?rs ! j)"
    using remove_shift_shifting [of n ?rs "Suc h" key lm] assms(1-4) by auto
  moreover have "rs' ! j = (if h \<le> j \<and> j < n then rs ! Suc j else rs ! j)" if "j < length rs" for j
    using rs'(3) that assms(1,2) by (cases "j = h") auto
  ultimately show ?case using 0 by auto
next
  case (Suc d)
  then have "remove_shift key lm False i rs = remove_shift key lm False (Suc i) rs"
    using assms(1-4) by (auto simp: remove_shift.simps [of key lm False i rs] Let_def)
  then show ?case using Suc(1) [of "Suc i"] Suc(2-) by auto
qed

lemma remove_shift_miss:
  assumes "n < length rs" "\<forall>j < n. eptr (rs ! j) \<noteq> 0" "eptr (rs ! n) = 0"
    and "\<forall>j < n. ekey (rs ! j) \<noteq> key" "i \<le> n"
  shows "remove_shift key lm False i rs = (False, rs)"
  using assms(5)
proof (induction "n - i" arbitrary: i)
  case 0
  then show ?case using assms by (simp add: remove_shift.simps [of key lm False i rs])
next
  case (Suc d)
  then have "remove_shift key lm False i rs = remove_shift key lm False (Suc i) rs"
    using assms by (auto simp: remove_shift.simps [of key lm False i rs] Let_def)
  then show ?case using Suc(1) [of "Suc i"] Suc(2-) by auto
qed

lemma remove_key_frame [simp]:
  "leftmost_ptr (fst (remove_key p key)) = leftmost_ptr p"
  "sibling_ptr (fst (remove_key p key)) = sibling_ptr p"
  "level (fst (remove_key p key)) = level p"
  "is_deleted (fst (remove_key p key)) = is_deleted p"
  by (simp_all add: remove_key_def Let_def split: prod.splits)

lemma remove_key_miss:
  assumes "page_inv p" "key \<notin> fst ` set (live p)"
  shows "\<not> snd (remove_key p key)" "records (fst (remove_key p key)) = records p"
    "last_index (fst (remove_key p key)) = last_index p"
proof -
  let ?n = "nat (last_index p + 1)"
  have "\<forall>j < ?n. ekey (records p ! j) \<noteq> key"
  proof (intro allI impI)
    fix j assume j: "j < ?n"
    then have "cell_of (records p ! j) \<in> set (live p)"
      using assms(1) by (metis length_live live_nth nth_mem)
    then show "ekey (records p ! j) \<noteq> key" using assms(2) by force
  qed
  then have "remove_shift key (leftmost_ptr p) False 0 (records p) = (False, records p)"
    using assms(1) by (intro remove_shift_miss [of ?n]) (auto simp: page_inv_def)
  then show "\<not> snd (remove_key p key)" "records (fst (remove_key p key)) = records p"
    "last_index (fst (remove_key p key)) = last_index p"
    by (simp_all add: remove_key_def Let_def)
qed

text \<open>The first live index of a key.\<close>

lemma first_index:
  assumes "key \<in> fst ` set xs"
  obtains h where "h < length xs" "fst (xs ! h) = key" "\<forall>j < h. fst (xs ! j) \<noteq> key"
proof -
  let ?P = "\<lambda>h. h < length xs \<and> fst (xs ! h) = key"
  from assms obtain c where "c \<in> set xs" "fst c = key" by auto
  then obtain i where "i < length xs" "xs ! i = c" by (auto simp: in_set_conv_nth)
  with \<open>fst c = key\<close> have "\<exists>h. ?P h" by auto
  then obtain h where "?P h" "\<forall>j < h. \<not> ?P j"
    using exists_least_iff [of ?P] by auto
  then show thesis using that [of h] by auto
qed

text \<open>The records of a page from which the cell at position \<open>h\<close> was removed.\<close>

lemma remove_key_shape:
  assumes inv: "page_inv p" and mem: "key \<in> fst ` set (live p)"
  obtains h where "h < nat (last_index p + 1)" "fst (live p ! h) = key" "\<forall>j < h. fst (live p ! j) \<noteq> key"
    "snd (remove_key p key)" "length (records (fst (remove_key p key))) = length (records p)"
    "last_index (fst (remove_key p key)) = last_index p - 1"
    "\<And>j. j < length (records p) \<Longrightarrow> records (fst (remove_key p key)) ! j =
       (if h \<le> j \<and> j < nat (last_index p + 1) then records p ! Suc j else records p ! j)"
proof -
  let ?n = "nat (last_index p + 1)" and ?rs = "records p"
  have n: "?n < length ?rs" "\<forall>j < ?n. eptr (?rs ! j) \<noteq> 0" "eptr (?rs ! ?n) = 0"
    using inv by (auto simp: page_inv_def)
  have nn: "length (live p) = ?n" using inv by (rule length_live)
  then have cell: "live p ! j = cell_of (?rs ! j)" if "j < ?n" for j using that live_nth [OF inv] by simp
  obtain h where h: "h < ?n" "fst (live p ! h) = key" "\<forall>j < h. fst (live p ! j) \<noteq> key"
    using first_index [OF mem] nn by auto
  then have "ekey (?rs ! h) = key" "\<forall>j < h. ekey (?rs ! j) \<noteq> key" using cell by simp_all
  then obtain rs' where rs': "remove_shift key (leftmost_ptr p) False 0 ?rs = (True, rs')" "length rs' = length ?rs"
    "\<forall>j < length ?rs. rs' ! j = (if h \<le> j \<and> j < ?n then ?rs ! Suc j else ?rs ! j)"
    using remove_shift_hit [OF h(1) n, of key 0 "leftmost_ptr p"] by auto
  show thesis by (rule that [OF h]) (use rs' in \<open>simp_all add: remove_key_def Let_def\<close>)
qed

lemma remove_key_hit:
  assumes inv: "page_inv p" and mem: "key \<in> fst ` set (live p)"
  shows "snd (remove_key p key)" "live (fst (remove_key p key)) = del_cell key (live p)"
    "page_inv (fst (remove_key p key))"
    "keys_from f (records p) \<Longrightarrow> keys_from f (records (fst (remove_key p key)))"
proof -
  let ?n = "nat (last_index p + 1)" and ?rs = "records p" and ?p = "fst (remove_key p key)"
  have n: "?n < length ?rs" "\<forall>j < ?n. eptr (?rs ! j) \<noteq> 0" "eptr (?rs ! ?n) = 0"
    and card: "length ?rs = cardinality" and li: "-1 \<le> last_index p"
    using inv by (auto simp: page_inv_def)
  have nn: "length (live p) = ?n" using inv by (rule length_live)
  obtain h where h: "h < ?n" "fst (live p ! h) = key" "\<forall>j < h. fst (live p ! j) \<noteq> key"
    and hit: "snd (remove_key p key)" and len: "length (records ?p) = length ?rs" and li': "last_index ?p = last_index p - 1"
    and at: "\<And>j. j < length ?rs \<Longrightarrow> records ?p ! j = (if h \<le> j \<and> j < ?n then ?rs ! Suc j else ?rs ! j)"
    using remove_key_shape [OF inv mem] by blast
  show "snd (remove_key p key)" by (rule hit)
  have n': "nat (last_index ?p + 1) = ?n - 1" using li' h(1) by simp
  have del: "del_cell key (live p) = take h (live p) @ drop (Suc h) (live p)"
    using h nn by (intro del_cell_first) auto
  show "live ?p = del_cell key (live p)"
  proof (rule nth_equalityI)
    show "length (live ?p) = length (del_cell key (live p))"
      using n' n len h(1) nn del by (simp add: live_def)
  next
    fix i assume "i < length (live ?p)"
    then have i: "i < ?n - 1" "i < ?n" using n' by (auto simp: live_def)
    then have "live ?p ! i = cell_of (if h \<le> i then ?rs ! Suc i else ?rs ! i)" using n' len at n(1) by (simp add: live_def)
    also have "\<dots> = del_cell key (live p) ! i"
      using i h(1) nn live_nth [OF inv] by (simp add: del nth_append min_def)
    finally show "live ?p ! i = del_cell key (live p) ! i" .
  qed
  have m: "?n - 1 < ?n" "h \<le> ?n - 1" "Suc (?n - 1) = ?n" using h(1) by auto
  have "eptr (records ?p ! i) \<noteq> 0" if "i < ?n - 1" for i using that at n m by auto
  moreover have "eptr (records ?p ! (?n - 1)) = 0" using at n m by simp
  moreover have "eptr (records ?p ! 1) = 0" if "last_index ?p = -1" using that li' at n h(1) by auto
  ultimately show "page_inv ?p" unfolding page_inv_def n' using li' len n(1) card h(1) by auto
  show "keys_from f (records ?p)" if "keys_from f (records p)"
    using keys_from_nth [OF that] at len n(1) by (auto simp: keys_from_def in_set_conv_nth)
qed

section \<open>Searching a leaf\<close>

text \<open>In a leaf the bucket of a record is its key, so equal neighbours are duplicates.\<close>

definition leaf_cells :: "cell list \<Rightarrow> bool" where
  "leaf_cells cs \<longleftrightarrow> (\<forall>c \<in> set cs. snd c = fst c \<and> fst c \<noteq> 0)"

lemma leaf_cells_ins [simp]: "leaf_cells (ins_cell (k, v) cs) \<longleftrightarrow> leaf_cells cs \<and> v = k \<and> k \<noteq> 0"
  by (auto simp: leaf_cells_def)

lemma leaf_cells_del [simp]: "leaf_cells cs \<Longrightarrow> leaf_cells (del_cell k cs)"
  using set_del_cell by (fastforce simp: leaf_cells_def)

lemma leaf_cells_records:
  assumes "page_inv p" "leaf_cells (live p)" "j < length (live p)"
  shows "eptr (records p ! j) = ekey (records p ! j)" "ekey (records p ! j) \<noteq> 0"
    "slot (records p) j = records p ! j"
proof -
  have "cell_of (records p ! j) \<in> set (live p)"
    using assms by (metis live_nth nth_mem)
  then show "eptr (records p ! j) = ekey (records p ! j)" "ekey (records p ! j) \<noteq> 0"
    using assms(2) by (force simp: leaf_cells_def)+
  show "slot (records p) j = records p ! j"
    using assms(1,3) by (simp add: page_inv_def length_live)
qed

lemma leaf_scan_forward_spec:
  assumes inv: "page_inv p" and lc: "leaf_cells (live p)" and i: "1 \<le> i" "i \<le> length (live p)"
  shows "leaf_scan_forward (records p) key i =
    (if \<exists>j. i \<le> j \<and> j < length (live p) \<and> ekey (records p ! j) = key \<and> ekey (records p ! (j - 1)) \<noteq> key
     then key else 0)"
  using i
proof (induction "length (live p) - i" arbitrary: i)
  case 0
  then have "i = length (live p)" by simp
  then have "eptr (slot (records p) i) = 0"
    using inv by (simp add: page_inv_def length_live)
  then show ?case using 0 by (auto simp: leaf_scan_forward.simps [of _ _ i])
next
  case (Suc d)
  then have lt: "i < length (live p)" by simp
  note rec = leaf_cells_records [OF inv lc lt] leaf_cells_records [OF inv lc, of "i - 1"]
  have IH: "leaf_scan_forward (records p) key (Suc i) =
    (if \<exists>j. Suc i \<le> j \<and> j < length (live p) \<and> ekey (records p ! j) = key
        \<and> ekey (records p ! (j - 1)) \<noteq> key then key else 0)"
    using Suc lt by (intro Suc.hyps(1)) auto
  let ?Q = "\<lambda>j. ekey (records p ! j) = key \<and> ekey (records p ! (j - 1)) \<noteq> key"
  have ex: "(\<exists>j. i \<le> j \<and> j < length (live p) \<and> ?Q j) \<longleftrightarrow>
      ?Q i \<or> (\<exists>j. Suc i \<le> j \<and> j < length (live p) \<and> ?Q j)" (is "?A \<longleftrightarrow> ?B \<or> ?C")
    using lt by (metis Suc_leD Suc_leI le_neq_implies_less order_refl)
  have step: "leaf_scan_forward (records p) key i =
      (if ?B then key else leaf_scan_forward (records p) key (Suc i))"
    using rec lt Suc.prems by (subst leaf_scan_forward.simps) auto
  show ?case unfolding step IH ex by auto
qed

lemma leaf_scan_backward_spec:
  assumes inv: "page_inv p" and lc: "leaf_cells (live p)" and "i < length (live p)"
  shows "leaf_scan_backward (records p) key i =
    (if \<exists>j. 1 \<le> j \<and> j \<le> i \<and> ekey (records p ! j) = key \<and> ekey (records p ! (j - 1)) \<noteq> key
     then key else 0)"
  using assms(3)
proof (induction i)
  case (Suc i)
  note rec = leaf_cells_records [OF inv lc Suc.prems] leaf_cells_records [OF inv lc Suc_lessD [OF Suc.prems]]
  have ex: "(\<exists>j. 1 \<le> j \<and> j \<le> Suc i \<and> Q j) \<longleftrightarrow> Q (Suc i) \<or> (\<exists>j. 1 \<le> j \<and> j \<le> i \<and> Q j)" for Q
    by (metis le_Suc_eq le_add1 plus_1_eq_Suc)
  show ?case using Suc rec unfolding ex by auto
qed simp

lemma first_occurrence:
  assumes "page_inv p"
  shows "key \<in> fst ` set (live p) \<longleftrightarrow>
    (0 < length (live p) \<and> ekey (records p ! 0) = key) \<or>
    (\<exists>j. 1 \<le> j \<and> j < length (live p) \<and> ekey (records p ! j) = key \<and> ekey (records p ! (j - 1)) \<noteq> key)"
    (is "?L \<longleftrightarrow> ?R")
proof
  assume ?L
  then obtain h where h: "h < length (live p)" "fst (live p ! h) = key" "\<forall>j < h. fst (live p ! j) \<noteq> key"
    by (rule first_index)
  then show ?R
    using live_nth [OF assms] by (cases h) (auto simp: less_Suc_eq)
next
  assume ?R
  then obtain j where "j < length (live p)" "ekey (records p ! j) = key" by auto
  then show ?L
    using live_nth [OF assms] by (metis cell_of_sel(1) imageI nth_mem)
qed

lemma leaf_search_spec [page_simps]:
  assumes inv: "page_inv p" and lc: "leaf_cells (live p)"
  shows "leaf_search p key = (if key \<in> fst ` set (live p) then key else 0)"
proof (cases "live p = []")
  case True
  then have li: "last_index p = -1"
    using inv length_live [OF inv] by (simp add: page_inv_def)
  then have "eptr (slot (records p) 0) = 0" "eptr (slot (records p) 1) = 0"
    using inv by (auto simp: page_inv_def cardinality_val)
  then show ?thesis
    using True inv by (simp add: leaf_search_def Let_def leaf_scan_forward.simps count_live)
next
  case False
  then have n: "0 < length (live p)" by simp
  note r0 = leaf_cells_records [OF inv lc n]
  have f: "leaf_scan_forward (records p) key 1 =
    (if \<exists>j. 1 \<le> j \<and> j < length (live p) \<and> ekey (records p ! j) = key \<and> ekey (records p ! (j - 1)) \<noteq> key
     then key else 0)"
    using n by (intro leaf_scan_forward_spec [OF inv lc]) (auto simp: Suc_le_eq)
  have b: "leaf_scan_backward (records p) key (length (live p) - 1) =
    (if \<exists>j. 1 \<le> j \<and> j < length (live p) \<and> ekey (records p ! j) = key \<and> ekey (records p ! (j - 1)) \<noteq> key
     then key else 0)"
  proof -
    have "j \<le> length (live p) - 1 \<longleftrightarrow> j < length (live p)" for j using n by linarith
    then show ?thesis using n leaf_scan_backward_spec [OF inv lc, of "length (live p) - 1" key] by simp
  qed
  show ?thesis
    unfolding first_occurrence [OF inv] leaf_search_def Let_def count_live [OF inv] f b
    using r0 n by auto
qed

section \<open>Searching an internal page\<close>

text \<open>In an internal page neighbouring children are different pages.\<close>

definition child_cells :: "entry_ptr_t \<Rightarrow> cell list \<Rightarrow> bool" where
  "child_cells lm cs \<longleftrightarrow> distinct (lm # map snd cs) \<and> 0 \<notin> set (lm # map snd cs)"

lemma child_cells_records:
  assumes "page_inv p" "child_cells lm (live p)" "j < length (live p)"
  shows "slot (records p) j = records p ! j" "eptr (records p ! j) \<noteq> 0"
    "(if j = 0 then lm else eptr (records p ! (j - 1))) \<noteq> eptr (records p ! j)"
proof -
  have nth: "eptr (records p ! i) = map snd (live p) ! i" if "i \<le> j" for i
    using assms(1,3) that live_nth [OF assms(1)] by simp
  have "j < length (map snd (live p))" using assms(3) by simp
  then have mem: "map snd (live p) ! j \<in> set (map snd (live p))" by (rule nth_mem)
  then have "map snd (live p) ! j \<noteq> 0" "lm \<noteq> map snd (live p) ! j"
    using assms(2) unfolding child_cells_def by (metis list.set_intros(2), metis distinct.simps(2))
  moreover have "map snd (live p) ! (j - 1) \<noteq> map snd (live p) ! j" if "j \<noteq> 0"
    using assms(2,3) that nth_eq_iff_index_eq [of "map snd (live p)" "j - 1" j]
    by (simp add: child_cells_def)
  ultimately show "eptr (records p ! j) \<noteq> 0"
    "(if j = 0 then lm else eptr (records p ! (j - 1))) \<noteq> eptr (records p ! j)"
    using nth [of j] nth [of "j - 1"] by auto
  show "slot (records p) j = records p ! j"
    using assms(1,3) by (simp add: page_inv_def length_live)
qed

definition route_index :: "int \<Rightarrow> cell list \<Rightarrow> nat" where
  "route_index key cs = length (takeWhile (\<lambda>c. fst c \<le> key) cs)"

lemma route_index_le: "route_index key cs \<le> length cs"
  by (simp add: route_index_def length_takeWhile_le)

lemma route_index_below: "j < route_index key cs \<Longrightarrow> fst (cs ! j) \<le> key"
  unfolding route_index_def by (metis nth_mem set_takeWhileD takeWhile_nth)

lemma route_index_above:
  "csorted cs \<Longrightarrow> route_index key cs \<le> j \<Longrightarrow> j < length cs \<Longrightarrow> key < fst (cs ! j)"
proof -
  assume s: "csorted cs" and j: "route_index key cs \<le> j" "j < length cs"
  have "\<not> fst (cs ! route_index key cs) \<le> key"
    using j nth_length_takeWhile [of "\<lambda>c. fst c \<le> key" cs] by (simp add: route_index_def)
  moreover have "fst (cs ! route_index key cs) \<le> fst (cs ! j)"
    using sorted_nth_mono [OF s [unfolded csorted_def] j(1)] j by simp
  ultimately show ?thesis by linarith
qed

lemma route_by_index:
  "f \<le> key \<Longrightarrow> route key ((f, lm) # cs) =
     (if route_index key cs = 0 then (f, lm) else cs ! (route_index key cs - 1))"
  unfolding route_def route_index_def
  by (auto simp: last_conv_nth takeWhile_nth)

lemma internal_scan_forward_spec:
  assumes inv: "page_inv p" and cc: "child_cells lm (live p)" and srt: "csorted (live p)"
    and i: "1 \<le> i" "i \<le> route_index key (live p)"
  shows "internal_scan_forward (records p) key i = eptr (records p ! (route_index key (live p) - 1))"
  using i
proof (induction "route_index key (live p) - i" arbitrary: i)
  case 0
  then have m: "i = route_index key (live p)" "1 \<le> i" by auto
  have prev: "slot (records p) (i - 1) = records p ! (i - 1)"
  proof (rule slot_nth)
    have "i - 1 < length (live p)" using m route_index_le [of key "live p"] by simp
    then show "i - 1 < length (records p)" using inv by (simp add: page_inv_def length_live)
  qed
  show ?case
  proof (cases "i = length (live p)")
    case True
    then have "eptr (slot (records p) i) = 0"
      using inv by (simp add: page_inv_def length_live)
    then have "internal_scan_forward (records p) key i = eptr (slot (records p) (i - 1))"
      by (simp add: internal_scan_forward.simps [of _ _ i])
    then show ?thesis using m prev by simp
  next
    case False
    then have lt: "i < length (live p)" using m route_index_le [of key "live p"] by simp
    have "key < ekey (records p ! i)"
      using route_index_above [OF srt, of key i] m lt live_nth [OF inv lt] by simp
    then have "internal_scan_forward (records p) key i = eptr (slot (records p) (i - 1))"
      using child_cells_records [OF inv cc lt] m(2) prev
      by (simp add: internal_scan_forward.simps [of _ _ i])
    then show ?thesis using m prev by simp
  qed
next
  case (Suc d)
  then have lt: "i < length (live p)" "i < route_index key (live p)"
    using route_index_le [of key "live p"] by auto
  have "ekey (records p ! i) \<le> key"
    using route_index_below [OF lt(2)] live_nth [OF inv lt(1)] by simp
  then have "internal_scan_forward (records p) key i = internal_scan_forward (records p) key (Suc i)"
    using child_cells_records [OF inv cc lt(1)] by (simp add: internal_scan_forward.simps [of _ _ i])
  then show ?case using Suc lt by simp
qed

lemma internal_scan_backward_spec:
  assumes inv: "page_inv p" and cc: "child_cells lm (live p)" and srt: "csorted (live p)"
    and i: "route_index key (live p) \<le> i" "i \<le> length (live p)"
  shows "internal_scan_backward (records p) lm key i =
    (if route_index key (live p) = 0 then 0 else eptr (records p ! (route_index key (live p) - 1)))"
  using i
proof (induction i)
  case (Suc i)
  then have lt: "i < length (live p)" by simp
  note rec = child_cells_records [OF inv cc lt] live_nth [OF inv lt]
  have pre: "(if i = 0 then lm else eptr (slot (records p) (i - 1))) \<noteq> eptr (records p ! i)"
    using rec(3) lt inv by (auto simp: page_inv_def length_live)
  show ?case
  proof (cases "route_index key (live p) = Suc i")
    case True
    then have "ekey (records p ! i) \<le> key"
      using route_index_below [of i key "live p"] rec(4) by simp
    then show ?thesis using rec pre True by simp
  next
    case False
    then have le: "route_index key (live p) \<le> i" using Suc.prems by simp
    then have "key < ekey (records p ! i)"
      using route_index_above [OF srt le lt] rec(4) by simp
    then show ?thesis using rec Suc.IH le lt by simp
  qed
qed simp

lemma internal_search_spec [page_simps]:
  assumes inv: "page_inv p" and cc: "child_cells (leftmost_ptr p) (live p)" and srt: "csorted (live p)"
    and ne: "live p \<noteq> []" and f: "f \<le> key"
  shows "(if internal_search p key \<noteq> 0 then internal_search p key else leftmost_ptr p)
           = snd (route key ((f, leftmost_ptr p) # live p))"
proof -
  let ?m = "route_index key (live p)"
  have n: "0 < length (live p)" using ne by simp
  note r0 = child_cells_records [OF inv cc n]
  have k0: "?m = 0 \<longleftrightarrow> key < ekey (records p ! 0)"
    using route_index_above [OF srt, of key 0] route_index_below [of 0 key "live p"] n live_nth [OF inv n]
    by (cases "?m = 0") auto
  have rt: "snd (route key ((f, leftmost_ptr p) # live p)) =
      (if ?m = 0 then leftmost_ptr p else eptr (records p ! (?m - 1)))"
    using route_by_index [OF f] live_nth [OF inv, of "?m - 1"] route_index_le [of key "live p"] by auto
  have nz: "eptr (records p ! (?m - 1)) \<noteq> 0" if "?m \<noteq> 0"
    using child_cells_records(2) [OF inv cc, of "?m - 1"] that route_index_le [of key "live p"] by simp
  have lm: "leftmost_ptr p \<noteq> 0" using cc by (simp add: child_cells_def)
  show ?thesis
  proof (cases "IS_FORWARD (switch_counter p)")
    case True
    have "?m \<noteq> 0 \<Longrightarrow> internal_scan_forward (records p) key 1 = eptr (records p ! (?m - 1))"
      by (rule internal_scan_forward_spec [OF inv cc srt]) auto
    then show ?thesis
      unfolding rt using True k0 r0 nz lm by (auto simp: internal_search_def Let_def)
  next
    case False
    have "internal_scan_backward (records p) (leftmost_ptr p) key (length (live p)) =
      (if ?m = 0 then 0 else eptr (records p ! (?m - 1)))"
      by (rule internal_scan_backward_spec [OF inv cc srt route_index_le order_refl])
    then show ?thesis
      unfolding rt using False nz by (simp add: internal_search_def Let_def count_live [OF inv])
  qed
qed

end
