(* ===== verification/Split_Correct.thy ===== *)
theory Split_Correct
  imports BTree Page_Correct
begin

text \<open>
  The split of a full page (the FAIR branch of \<^verbatim>\<open>page::store\<close>): moving the upper half into
  a fresh sibling and inserting the key into one of the halves leaves two well-formed pages whose
  cells together are the old cells with the new one inserted in order.
\<close>

section \<open>Contents of a node\<close>

text \<open>The cells of a page seen from its parent: an internal page also owns the child left of its
  first record, whose fence is the fence \<open>f\<close> of the page itself.\<close>

definition node_cells :: "int \<Rightarrow> page \<Rightarrow> cell list" where
  "node_cells f p = (if leftmost_ptr p = 0 then live p else (f, leftmost_ptr p) # live p)"

section \<open>A fresh page\<close>

lemma page_ctor_sel [simp]:
  "leftmost_ptr (page_ctor l) = 0" "sibling_ptr (page_ctor l) = 0" "level (page_ctor l) = l"
  "is_deleted (page_ctor l) = False" "last_index (page_ctor l) = -1"
  "length (records (page_ctor l)) = cardinality"
  by (simp_all add: page_ctor_def)

lemma page_ctor_records: "records (page_ctor l) = replicate cardinality entry_ctor"
  by (simp add: page_ctor_def set_ptr_def slot_def entry_ctor_def list_update_same_conv cardinality_val)

lemma page_ctor_inv: "page_inv (page_ctor l)"
  by (simp add: page_inv_def page_ctor_records cardinality_val entry_ctor_def)

lemma page_ctor_live: "live (page_ctor l) = []"
  by (simp add: live_def)

lemma page_ctor_keys: "f \<le> LONG_MAX \<Longrightarrow> keys_from f (records (page_ctor l))"
  by (simp add: page_ctor_records keys_from_def entry_ctor_def)

section \<open>Moving the upper half\<close>

lemma migrate_spec:
  assumes "page_inv q" "c = length (live q)" "c + k < cardinality" "i + k \<le> length rs"
    "csorted (live q @ map cell_of (take k (drop i rs)))"
    "\<forall>e \<in> set (take k (drop i rs)). eptr e \<noteq> 0 \<and> f \<le> ekey e" "keys_from f (records q)"
  defines "r \<equiv> migrate rs i k (q, c)"
  shows "live (fst r) = live q @ map cell_of (take k (drop i rs))" "page_inv (fst r)"
    "snd r = c + k" "keys_from f (records (fst r))"
    "leftmost_ptr (fst r) = leftmost_ptr q" "level (fst r) = level q"
    "is_deleted (fst r) = is_deleted q"
proof -
  have "live (fst r) = live q @ map cell_of (take k (drop i rs)) \<and> page_inv (fst r)
    \<and> snd r = c + k \<and> keys_from f (records (fst r))
    \<and> leftmost_ptr (fst r) = leftmost_ptr q \<and> level (fst r) = level q
    \<and> is_deleted (fst r) = is_deleted q"
    unfolding r_def using assms(1-7)
  proof (induction k arbitrary: i q c)
    case (Suc k)
    let ?e = "rs ! i"
    let ?q = "fst (insert_key q (ekey ?e) (eptr ?e) c True)"
    have lt: "i < length rs" using Suc.prems(4) by simp
    have dr: "take (Suc k) (drop i rs) = ?e # take k (drop (Suc i) rs)"
      using lt by (simp add: Cons_nth_drop_Suc [symmetric])
    have room: "length (live q) < cardinality - 1" using Suc.prems(2,3) by simp
    have srt: "csorted (live q)" using Suc.prems(5) by (simp add: csorted_append)
    have ge: "\<forall>x \<in> set (live q). fst x \<le> ekey ?e"
      using Suc.prems(5) unfolding dr by (simp add: csorted_append)
    have lv: "live ?q = live q @ [cell_of ?e]"
      using insert_key_live [OF Suc.prems(1) room Suc.prems(2) srt] ge
      by (simp add: ins_cell_snoc cell_of_def)
    have inv: "page_inv ?q"
      using insert_key_inv [OF Suc.prems(1) room Suc.prems(2) srt] Suc.prems(6) unfolding dr by simp
    have keys: "keys_from f (records ?q)"
      using insert_key_keys_from [OF Suc.prems(1)] room Suc.prems(2,6,7) unfolding dr by simp
    have IH: "live (fst (migrate rs (Suc i) k (?q, Suc c))) = live ?q @ map cell_of (take k (drop (Suc i) rs))
      \<and> page_inv (fst (migrate rs (Suc i) k (?q, Suc c))) \<and> snd (migrate rs (Suc i) k (?q, Suc c)) = Suc c + k
      \<and> keys_from f (records (fst (migrate rs (Suc i) k (?q, Suc c))))
      \<and> leftmost_ptr (fst (migrate rs (Suc i) k (?q, Suc c))) = leftmost_ptr ?q
      \<and> level (fst (migrate rs (Suc i) k (?q, Suc c))) = level ?q
      \<and> is_deleted (fst (migrate rs (Suc i) k (?q, Suc c))) = is_deleted ?q"
      using Suc.prems inv keys lv unfolding dr by (intro Suc.IH) (auto simp: cell_of_def)
    have "migrate rs i (Suc k) (q, c) = migrate rs (Suc i) k (?q, Suc c)"
      using lt by (simp add: prod_eq_iff [of "insert_key _ _ _ _ _"])
        (metis Suc_eq_plus1 insert_key_num prod.collapse)
    then show ?case using IH lv dr by simp
  qed simp
  then show "live (fst r) = live q @ map cell_of (take k (drop i rs))" "page_inv (fst r)"
    "snd r = c + k" "keys_from f (records (fst r))"
    "leftmost_ptr (fst r) = leftmost_ptr q" "level (fst r) = level q"
    "is_deleted (fst r) = is_deleted q" by blast+
qed

section \<open>The two halves\<close>

lemma page_upd_inv [simp]:
  "live (p\<lparr>sibling_ptr := a\<rparr>) = live p" "live (p\<lparr>leftmost_ptr := a\<rparr>) = live p"
  "page_inv (p\<lparr>sibling_ptr := a\<rparr>) = page_inv p" "page_inv (p\<lparr>leftmost_ptr := a\<rparr>) = page_inv p"
  by (simp_all add: live_def page_inv_def)

text \<open>The page cut off at index \<open>m\<close>: its null terminator moves there, the slots behind keep
  their stale contents.\<close>

lemma truncate_page:
  fixes sib :: int and sc :: "8 word"
  assumes inv: "page_inv p" and m: "m < length (live p)" "0 < m"
  defines "p1 \<equiv> p\<lparr>sibling_ptr := sib, switch_counter := sc, records := set_ptr (records p) m 0,
                   last_index := int m - 1\<rparr>"
  shows "live p1 = take m (live p)" "page_inv p1"
    "keys_from f (records p) \<Longrightarrow> keys_from f (records p1)"
proof -
  have len: "length (records p) = cardinality" and lt: "m < cardinality"
    and nz: "\<forall>i < m. eptr (records p ! i) \<noteq> 0"
    using inv m(1) by (auto simp: page_inv_def length_live)
  show "live p1 = take m (live p)"
    using m(1) length_live [OF inv] by (simp add: p1_def live_def take_set_ptr take_map min_def)
  show "page_inv p1"
    using len lt nz m by (simp add: p1_def page_inv_def nth_set_ptr)
  show "keys_from f (records p) \<Longrightarrow> keys_from f (records p1)"
    using len lt by (simp add: p1_def)
qed

lemma live_segment:
  assumes "page_inv p"
  shows "map cell_of (take (length (live p) - i) (drop i (records p))) = drop i (live p)"
  unfolding length_live [OF assms] by (simp add: live_def drop_map drop_take)

lemma segment_entries:
  assumes inv: "page_inv p" and e: "e \<in> set (take (length (live p) - i) (drop i (records p)))"
    and s: "\<forall>c \<in> set (drop i (live p)). g \<le> fst c"
  shows "eptr e \<noteq> 0 \<and> g \<le> ekey e"
proof -
  have "cell_of e \<in> set (drop i (live p))"
    using e live_segment [OF inv, of i] by (metis image_eqI list.set_map)
  moreover have "snd c \<noteq> 0" if "c \<in> set (live p)" for c
    using that inv by (auto simp: page_inv_def live_def in_set_conv_nth)
  ultimately show ?thesis using s by (metis cell_of_sel in_set_dropD)
qed

text \<open>The upper half of a full page in a new page, and the page cut to its lower half.\<close>

lemma migrate_upper:
  fixes p :: page
  defines "s \<equiv> fst (live p ! 13)" and "n \<equiv> if leftmost_ptr p = 0 then 13 else (14 :: nat)"
  defines "r \<equiv> migrate (records p) n (length (live p) - n) (page_ctor (level p), 0)"
  assumes inv: "page_inv p" and full: "length (live p) = 27" and srt: "csorted (live p)" and smax: "s \<le> LONG_MAX"
  shows "live (fst r) = drop n (live p)" "page_inv (fst r)" "snd r = length (drop n (live p))" "keys_from s (records (fst r))"
    "leftmost_ptr (fst r) = 0" "level (fst r) = level p" "\<not> is_deleted (fst r)" "csorted (drop n (live p))"
proof -
  have ge: "\<forall>c \<in> set (drop n (live p)). s \<le> fst c"
    unfolding s_def by (rule csorted_drop_ge [OF srt]) (simp_all add: full n_def)
  show hisrt: "csorted (drop n (live p))" using srt by (metis append_take_drop_id csorted_append)
  have len: "length (records p) = 28" using inv by (simp add: page_inv_def cardinality_val)
  have seg: "map cell_of (take (length (live p) - n) (drop n (records p))) = drop n (live p)"
    using live_segment [OF inv] by simp
  note mig = migrate_spec [where f = s and q = "page_ctor (level p)" and rs = "records p" and i = n
      and k = "length (live p) - n" and c = 0, folded r_def]
  show "live (fst r) = drop n (live p)" "page_inv (fst r)" "snd r = length (drop n (live p))" "keys_from s (records (fst r))"
    "leftmost_ptr (fst r) = 0" "level (fst r) = level p" "\<not> is_deleted (fst r)"
    using mig page_ctor_inv page_ctor_live page_ctor_keys [OF smax] full len seg hisrt segment_entries [OF inv _ ge]
    by (simp_all add: cardinality_val n_def)
qed

lemma split_page_spec:
  fixes p :: page and sib key right f :: int
  defines "xs \<equiv> live p" and "s \<equiv> fst (live p ! 13)"
    and "hi \<equiv> drop (if leftmost_ptr p = 0 then 13 else 14) (live p)"
  assumes inv: "page_inv p" and full: "length (live p) = 27" and srt: "csorted (live p)"
    and keys: "keys_from f (records p)" and f: "f \<le> key" and smax: "s \<le> LONG_MAX"
    and nz: "right \<noteq> 0"
  obtains p' q where "split_page p sib key right = (p', q, s, \<not> key < s)"
    "live p' = (if key < s then ins_cell (key, right) (take 13 xs) else take 13 xs)"
    "live q = (if key < s then hi else ins_cell (key, right) hi)"
    "page_inv p'" "page_inv q" "keys_from f (records p')" "keys_from s (records q)"
    "leftmost_ptr p' = leftmost_ptr p"
    "leftmost_ptr q = (if leftmost_ptr p = 0 then 0 else snd (xs ! 13))"
    "sibling_ptr p' = sib" "sibling_ptr q = sibling_ptr p"
    "level p' = level p" "level q = level p" "is_deleted p' = is_deleted p" "\<not> is_deleted q"
proof -
  let ?i = "if leftmost_ptr p = 0 then 13 else (14::nat)"
  have cnt: "count p = 27" using full count_live [OF inv] by simp
  have slot13: "slot (records p) 13 = records p ! 13"
    using inv by (simp add: page_inv_def cardinality_val)
  have s: "ekey (records p ! 13) = s" "eptr (records p ! 13) = snd (xs ! 13)"
    using live_nth [OF inv, of 13] full by (simp_all add: s_def xs_def)
  define r where "r = migrate (records p) ?i (length (live p) - ?i) (page_ctor (level p), 0)"
  note r = migrate_upper [OF inv full srt smax [unfolded s_def], folded r_def hi_def s_def]
  define q where "q = (if leftmost_ptr p = 0 then fst r
     else (fst r)\<lparr>leftmost_ptr := eptr (slot (records p) 13)\<rparr>)\<lparr>sibling_ptr := sibling_ptr p\<rparr>"
  have q: "live q = hi" "page_inv q" "records q = records (fst r)"
    "leftmost_ptr q = (if leftmost_ptr p = 0 then 0 else snd (xs ! 13))"
    "sibling_ptr q = sibling_ptr p" "level q = level p" "\<not> is_deleted q"
    using r s(2) slot13 by (auto simp: q_def)
  define p1 where "p1 = p\<lparr>sibling_ptr := sib,
      switch_counter := (if IS_FORWARD (switch_counter p) then switch_counter p + 2
                         else switch_counter p + 1),
      records := set_ptr (records p) 13 0, last_index := int 13 - 1\<rparr>"
  have p1: "live p1 = take 13 xs" "page_inv p1" "keys_from f (records p1)"
    unfolding p1_def using truncate_page [OF inv, of 13] full keys by (simp_all add: xs_def)
  have split: "split_page p sib key right =
     (if key < s then (fst (insert_key p1 key right 13 True), q, s, False)
      else (p1, fst (insert_key q key right (snd r) True), s, True))"
    unfolding split_page_def Let_def cnt p1_def q_def r_def full using slot13 s
    by (auto simp: split_beta)
  have lo: "length (live p1) < cardinality - 1" "13 = length (live p1)" "csorted (live p1)"
    using p1(1) full srt by (auto simp: xs_def cardinality_val csorted_def take_map [symmetric] intro: sorted_wrt_take)
  have up: "length (live q) < cardinality - 1" "snd r = length (live q)" "csorted (live q)"
    using r(3,8) q(1) full by (auto simp: hi_def cardinality_val)
  show thesis
  proof (cases "key < s")
    case True
    then show thesis
      using that [of "fst (insert_key p1 key right 13 True)" q] split q r p1(1)
        insert_key_live [OF p1(2) lo] insert_key_inv [OF p1(2) lo nz] insert_key_keys_from [OF p1(2) _ f p1(3), of 13]
      by (simp add: cardinality_val) (simp add: p1_def)
  next
    case False
    then show thesis
      using that [of p1 "fst (insert_key q key right (snd r) True)"] split q r p1 up(1)
        insert_key_live [OF q(2) up] insert_key_inv [OF q(2) up nz] insert_key_keys_from [OF q(2), of "snd r" s key right]
      by simp (simp add: p1_def)
  qed
qed

end
