(* ===== verification/Level.thy ===== *)
theory Level
  imports Split_Correct
begin

text \<open>
  One level of the tree: the pages of a level form a chain along their sibling pointers, described
  by the list of (fence, address) cells from left to right.  The cells of the pages of a level,
  put one after the other, are the chain of the level below; at the leaves they are the stored
  keys.  This is the invariant that survives splits: a split inserts one cell into the chain of its
  level, and inserting the same cell into the level above restores the whole tree.
\<close>

section \<open>Chains\<close>

definition hd_key :: "cell list \<Rightarrow> int \<Rightarrow> int" where
  "hd_key L hi = (case L of [] \<Rightarrow> hi | c # _ \<Rightarrow> fst c)"

definition hd_adr :: "cell list \<Rightarrow> int \<Rightarrow> int" where
  "hd_adr L a = (case L of [] \<Rightarrow> a | c # _ \<Rightarrow> snd c)"

text \<open>Largest number of cells of a page that may equal the fence of its right neighbour: a split
  keeps 13 of 27 cells on the left, and repeated inserts of one key put copies on both sides.\<close>

definition half :: nat where
  "half = 13"

text \<open>The page at \<open>a\<close> is a well-formed page of level \<open>l\<close> for the keys from \<open>f\<close> up to the
  fence \<open>hi\<close> of its right neighbour \<open>sib\<close>; at most \<open>b\<close> of its cells reach \<open>hi\<close>.\<close>

abbreviation page_kind :: "nat \<Rightarrow> int \<Rightarrow> cell list \<Rightarrow> bool" where
  "page_kind l lm xs \<equiv> (if l = 0 then lm = 0 \<and> leaf_cells xs else child_cells lm xs \<and> xs \<noteq> [])"

definition page_ok :: "nat \<Rightarrow> nat \<Rightarrow> int \<Rightarrow> int \<Rightarrow> int \<Rightarrow> page \<Rightarrow> bool" where
  "page_ok b l f hi sib p \<longleftrightarrow>
     page_inv p \<and> level p = l \<and> \<not> is_deleted p \<and> sibling_ptr p = sib \<and>
     csorted (live p) \<and> keys_from f (records p) \<and> f \<le> hi \<and>
     (\<forall>c \<in> set (live p). fst c \<le> hi) \<and>
     length (filter (\<lambda>c. hi \<le> fst c) (live p)) \<le> b \<and>
     page_kind l (leftmost_ptr p) (live p)"

definition node_ok :: "heap \<Rightarrow> nat \<Rightarrow> nat \<Rightarrow> int \<Rightarrow> int \<Rightarrow> int \<Rightarrow> int \<Rightarrow> bool" where
  "node_ok h b l f a hi sib \<longleftrightarrow> a \<noteq> 0 \<and> (\<exists>p. h a = Some p \<and> page_ok b l f hi sib p)"

fun chain_ok :: "heap \<Rightarrow> nat \<Rightarrow> nat \<Rightarrow> cell list \<Rightarrow> int \<Rightarrow> int \<Rightarrow> bool" where
  "chain_ok h b l [] hi sib = True"
| "chain_ok h b l (c # L) hi sib =
     (node_ok h b l (fst c) (snd c) (hd_key L hi) (hd_adr L sib) \<and> chain_ok h b l L hi sib)"

definition page_cells :: "heap \<Rightarrow> cell \<Rightarrow> cell list" where
  "page_cells h c = (case h (snd c) of None \<Rightarrow> [] | Some p \<Rightarrow> node_cells (fst c) p)"

definition content :: "heap \<Rightarrow> cell list \<Rightarrow> cell list" where
  "content h L = concat (map (page_cells h) L)"

section \<open>Structure of chains\<close>

lemma hd_simps [simp]:
  "hd_key [] hi = hi" "hd_key (c # L) hi = fst c" "hd_adr [] a = a" "hd_adr (c # L) a = snd c"
  by (simp_all add: hd_key_def hd_adr_def)

lemma hd_append [simp]:
  "hd_key (us @ vs) hi = hd_key us (hd_key vs hi)" "hd_adr (us @ vs) a = hd_adr us (hd_adr vs a)"
  by (cases us; simp)+

lemma chain_ok_append:
  "chain_ok h b l (us @ vs) hi sib \<longleftrightarrow>
     chain_ok h b l us (hd_key vs hi) (hd_adr vs sib) \<and> chain_ok h b l vs hi sib"
  by (induction us) auto

lemma content_simps [simp]:
  "content h [] = []" "content h (c # L) = page_cells h c @ content h L"
  "content h (us @ vs) = content h us @ content h vs"
  by (simp_all add: content_def)

lemma node_ok_frame: "h' a = h a \<Longrightarrow> node_ok h' b l f a hi sib = node_ok h b l f a hi sib"
  by (simp add: node_ok_def)

lemma chain_ok_frame:
  "\<forall>c \<in> set L. h' (snd c) = h (snd c) \<Longrightarrow> chain_ok h' b l L hi sib = chain_ok h b l L hi sib"
  by (induction L) (auto simp: node_ok_frame [of h' _ h])

lemma content_frame:
  "\<forall>c \<in> set L. h' (snd c) = h (snd c) \<Longrightarrow> content h' L = content h L"
  by (induction L) (auto simp: page_cells_def)

lemma chain_ok_page:
  assumes "chain_ok h b l L hi sib" "c \<in> set L"
  shows "\<exists>p. h (snd c) = Some p \<and> level p = l" "snd c \<noteq> 0"
  using assms by (induction L) (auto simp: node_ok_def page_ok_def)

lemma page_ok_cells:
  assumes "page_ok b l f hi sib p"
  shows "csorted (node_cells f p)" "\<forall>c \<in> set (node_cells f p). f \<le> fst c \<and> fst c \<le> hi"
proof -
  have "f \<le> fst c" if "c \<in> set (live p)" for c
    using that assms keys_from_nth [of f "records p"] unfolding page_ok_def page_inv_def
    by (auto simp: live_def in_set_conv_nth)
  then show "csorted (node_cells f p)" "\<forall>c \<in> set (node_cells f p). f \<le> fst c \<and> fst c \<le> hi"
    using assms by (auto simp: page_ok_def node_cells_def csorted_Cons)
qed

lemma page_ok_mono: "page_ok b l f hi sib p \<Longrightarrow> b \<le> b' \<Longrightarrow> page_ok b' l f hi sib p"
  by (auto simp: page_ok_def)

lemma node_ok_le: "node_ok h b l f a hi sib \<Longrightarrow> f \<le> hi"
  by (auto simp: node_ok_def page_ok_def)

lemma node_ok_page_cells:
  assumes "node_ok h b l f a hi sib"
  shows "csorted (page_cells h (f, a))" "\<forall>c \<in> set (page_cells h (f, a)). f \<le> fst c \<and> fst c \<le> hi"
proof -
  from assms obtain p where "h a = Some p" "page_ok b l f hi sib p" by (auto simp: node_ok_def)
  then show "csorted (page_cells h (f, a))"
    "\<forall>c \<in> set (page_cells h (f, a)). f \<le> fst c \<and> fst c \<le> hi"
    using page_ok_cells [of b l f hi sib p] by (simp_all add: page_cells_def)
qed

lemma chain_ok_fences:
  assumes "chain_ok h b l L hi sib"
  shows "csorted L" "\<forall>c \<in> set L. hd_key L hi \<le> fst c \<and> fst c \<le> hi" "hd_key L hi \<le> hi"
proof -
  have "csorted L \<and> (\<forall>c \<in> set L. hd_key L hi \<le> fst c \<and> fst c \<le> hi) \<and> hd_key L hi \<le> hi"
    using assms
  proof (induction L)
    case (Cons c L)
    then have "fst c \<le> hd_key L hi" using node_ok_le by auto
    with Cons show ?case by (fastforce simp: csorted_Cons)
  qed simp
  then show "csorted L" "\<forall>c \<in> set L. hd_key L hi \<le> fst c \<and> fst c \<le> hi" "hd_key L hi \<le> hi"
    by blast+
qed

lemma chain_ok_content:
  assumes "chain_ok h b l L hi sib"
  shows "csorted (content h L)" "\<forall>c \<in> set (content h L). hd_key L hi \<le> fst c \<and> fst c \<le> hi"
proof -
  have "csorted (content h L) \<and> (\<forall>c \<in> set (content h L). hd_key L hi \<le> fst c \<and> fst c \<le> hi)"
    using assms
  proof (induction L)
    case (Cons c L)
    have n: "node_ok h b l (fst c) (snd c) (hd_key L hi) (hd_adr L sib)"
      and IH: "csorted (content h L)" "\<forall>c \<in> set (content h L). hd_key L hi \<le> fst c \<and> fst c \<le> hi"
      using Cons by auto
    have hi: "hd_key L hi \<le> hi" "fst c \<le> hd_key L hi"
      using chain_ok_fences(3) Cons.prems node_ok_le [OF n] by auto
    have c: "csorted (page_cells h c)" "\<forall>d \<in> set (page_cells h c). fst c \<le> fst d \<and> fst d \<le> hd_key L hi"
      using node_ok_page_cells [OF n] by simp_all
    have "fst x \<le> fst y" if "x \<in> set (page_cells h c)" "y \<in> set (content h L)" for x y
      using that c(2) IH(2) by (meson order_trans)
    moreover have "fst c \<le> fst y \<and> fst y \<le> hi" if "y \<in> set (page_cells h c @ content h L)" for y
      using that c(2) IH(2) hi by (metis Un_iff order_trans set_append)
    ultimately show ?case using c(1) IH(1) by (simp add: csorted_append)
  qed simp
  then show "csorted (content h L)" "\<forall>c \<in> set (content h L). hd_key L hi \<le> fst c \<and> fst c \<le> hi"
    by blast+
qed

section \<open>Searching from a routed page\<close>

text \<open>What a reader may rely on about the right neighbour: its first slot holds no key below the
  fence \<open>hi\<close>.\<close>

definition sib_ok :: "heap \<Rightarrow> int \<Rightarrow> int \<Rightarrow> bool" where
  "sib_ok h sib hi \<longleftrightarrow> sib = 0 \<or> (\<exists>q. h sib = Some q \<and> hi \<le> ekey (slot (records q) 0))"

lemma sib_ok_chain: "chain_ok h b l vs hi 0 \<Longrightarrow> sib_ok h (hd_adr vs 0) (hd_key vs hi)"
proof (cases vs)
  case (Cons c L)
  assume "chain_ok h b l vs hi 0"
  then obtain q where "h (snd c) = Some q" "page_ok b l (fst c) (hd_key L hi) (hd_adr L 0) q"
    using Cons by (auto simp: node_ok_def)
  moreover from this have "fst c \<le> ekey (slot (records q) 0)"
    by (auto simp: page_ok_def page_inv_def cardinality_val intro: keys_from_nth)
  ultimately show ?thesis using Cons by (simp add: sib_ok_def)
qed (simp add: sib_ok_def)

lemma linear_search_internal:
  assumes ok: "page_ok b (Suc l) f hi sib p" and sib: "sib_ok h sib hi" and k: "f \<le> k" "k < hi"
  shows "linear_search h p k = Some (snd (route k (node_cells f p)))"
proof -
  have "leftmost_ptr p \<noteq> 0" using ok by (simp add: page_ok_def child_cells_def)
  moreover have "(if internal_search p k \<noteq> 0 then internal_search p k else leftmost_ptr p)
      = snd (route k ((f, leftmost_ptr p) # live p))"
    using ok k(1) by (intro internal_search_spec) (auto simp: page_ok_def)
  moreover have "sibling_ptr p = sib" using ok by (simp add: page_ok_def)
  ultimately show ?thesis
    using sib k(2) by (auto simp: linear_search_def Let_def node_cells_def sib_ok_def)
qed

lemma linear_search_leaf:
  assumes ok: "page_ok b 0 f hi sib p" and sib: "sib_ok h sib hi" and k: "k < hi"
  shows "linear_search h p k = Some (if k \<in> fst ` set (live p) then k else 0)"
proof -
  have "leaf_search p k = (if k \<in> fst ` set (live p) then k else 0)"
    using ok by (intro leaf_search_spec) (auto simp: page_ok_def)
  moreover have "k \<in> fst ` set (live p) \<Longrightarrow> k \<noteq> 0"
    using ok by (auto simp: page_ok_def leaf_cells_def)
  moreover have "sibling_ptr p = sib" "leftmost_ptr p = 0" using ok by (auto simp: page_ok_def)
  ultimately show ?thesis
    using sib k by (auto simp: linear_search_def Let_def sib_ok_def)
qed

lemma go_sibling_no:
  "page_ok b l f hi sib p \<Longrightarrow> sib_ok h sib hi \<Longrightarrow> k < hi \<Longrightarrow> go_sibling h p k 0 = Some False"
  by (auto simp: go_sibling_def sib_ok_def page_ok_def)

text \<open>The page a key is routed to on a chain, with everything known about it.\<close>

lemma chain_route:
  assumes ch: "chain_ok h b l L hi 0" and ne: "L \<noteq> []" and k: "fst (hd L) \<le> k" "k < hi"
  obtains us f a vs p where "L = us @ (f, a) # vs" "route k L = (f, a)" "f \<le> k" "k < hd_key vs hi"
    "h a = Some p" "a \<noteq> 0" "page_ok b l f (hd_key vs hi) (hd_adr vs 0) p"
    "sib_ok h (hd_adr vs 0) (hd_key vs hi)" "\<forall>c \<in> set us. fst c \<le> f"
proof -
  have srt: "csorted L" by (rule chain_ok_fences(1) [OF ch])
  obtain us vs where L: "L = us @ route k L # vs" "\<forall>c \<in> set vs. k < fst c" "fst (route k L) \<le> k"
    using route_split [OF srt ne k(1)] by metis
  obtain f a where fa: "route k L = (f, a)" by fastforce
  have hd: "k < hd_key vs hi" using L(2) k(2) by (cases vs) auto
  have n: "node_ok h b l f a (hd_key vs hi) (hd_adr vs 0)" "chain_ok h b l vs hi 0"
    using ch L(1) fa by (metis chain_ok_append chain_ok.simps(2) fst_conv snd_conv)+
  then obtain p where "h a = Some p" "a \<noteq> 0" "page_ok b l f (hd_key vs hi) (hd_adr vs 0) p"
    by (auto simp: node_ok_def)
  moreover have "\<forall>c \<in> set us. fst c \<le> f"
    using srt L(1) fa by (metis csorted_append fst_conv list.set_intros(1))
  ultimately show thesis
    using that L fa hd sib_ok_chain [OF n(2)] by (metis fst_conv)
qed

lemma route_content:
  assumes ch: "chain_ok h b (Suc l) L hi 0" and ne: "L \<noteq> []" and k: "fst (hd L) \<le> k" "k < hi"
    and r: "route k L = (f, a)" and p: "h a = Some p"
  shows "route k (content h L) = route k (node_cells f p)"
proof -
  obtain us vs where L: "L = us @ (f, a) # vs" and f: "f \<le> k" "k < hd_key vs hi"
    and ok: "page_ok b (Suc l) f (hd_key vs hi) (hd_adr vs 0) p"
    using chain_route [OF ch ne k] r p by (metis (no_types, lifting) Pair_inject option.inject)
  have nc: "node_cells f p = (f, leftmost_ptr p) # live p"
    using ok by (simp add: node_cells_def page_ok_def child_cells_def)
  have cont: "content h L = content h us @ node_cells f p @ content h vs"
    using L p by (simp add: page_cells_def)
  have srt: "csorted (content h us @ node_cells f p @ content h vs)"
    using chain_ok_content(1) [OF ch] cont by simp
  have "content h vs = [] \<or> k < fst (hd (content h vs))"
  proof (cases "content h vs")
    case (Cons d ds)
    have "chain_ok h b (Suc l) vs hi 0" using ch L by (simp add: chain_ok_append)
    from chain_ok_content(2) [OF this] have "hd_key vs hi \<le> fst d" using Cons by simp
    then show ?thesis using f(2) Cons by simp
  qed simp
  then have "route k (node_cells f p @ content h vs) = route k (node_cells f p)"
    using page_ok_cells(1) [OF ok] f(1) by (intro route_append_less) (auto simp: nc)
  moreover have "route k (content h us @ node_cells f p @ content h vs) = route k (node_cells f p @ content h vs)"
    using srt f(1) by (intro route_append_ge) (auto simp: nc)
  ultimately show ?thesis using cont by simp
qed

section \<open>Inserting into a page of a level\<close>

text \<open>What \<^verbatim>\<open>right\<close> may be: the key itself in a leaf, a page that is not yet a child in an
  internal page.\<close>

definition right_ok :: "nat \<Rightarrow> int \<Rightarrow> int \<Rightarrow> cell list \<Rightarrow> bool" where
  "right_ok l k right cs \<longleftrightarrow> right \<noteq> 0 \<and> (if l = 0 then right = k else right \<notin> snd ` set cs)"

lemma child_cells_ins:
  "child_cells lm cs \<Longrightarrow> right \<noteq> 0 \<Longrightarrow> right \<noteq> lm \<Longrightarrow> right \<notin> snd ` set cs \<Longrightarrow>
   child_cells lm (ins_cell (k, right) cs)"
proof -
  assume cc: "child_cells lm cs" "right \<noteq> 0" "right \<noteq> lm" "right \<notin> snd ` set cs"
  have "mset (map snd (ins_cell (k, right) cs)) = mset (right # map snd cs)"
    by simp
  then have "distinct (map snd (ins_cell (k, right) cs)) = distinct (right # map snd cs)"
    by (rule mset_eq_imp_distinct_iff)
  then show ?thesis using cc by (auto simp: child_cells_def)
qed

lemma child_cells_subset:
  assumes "child_cells lm cs" "cs = us @ vs" shows "child_cells lm us"
  using assms by (auto simp: child_cells_def)

lemma filter_ins_less:
  "fst c < hi \<Longrightarrow> length (filter (\<lambda>c. hi \<le> fst c) (ins_cell c cs)) = length (filter (\<lambda>c. hi \<le> fst c) cs)"
  by (metis (no_types, lifting) filter_mset_add_mset linorder_not_less mset_filter mset_ins_cell size_mset)

lemma node_cells_ins:
  "page_ok b l f hi sib p \<Longrightarrow> f \<le> fst c \<Longrightarrow> live p' = ins_cell c (live p) \<Longrightarrow>
   leftmost_ptr p' = leftmost_ptr p \<Longrightarrow> node_cells f p' = ins_cell c (node_cells f p)"
  by (simp add: node_cells_def)

lemma page_ok_insert:
  assumes ok: "page_ok b l f hi sib p" and k: "f \<le> k" "k < hi"
    and room: "count p < cardinality - 1" and r: "right_ok l k right (node_cells f p)"
  defines "p' \<equiv> fst (insert_key p k right (count p) True)"
  shows "page_ok b l f hi sib p'" "live p' = ins_cell (k, right) (live p)"
    "node_cells f p' = ins_cell (k, right) (node_cells f p)"
proof -
  have inv: "page_inv p" and srt: "csorted (live p)" and nz: "right \<noteq> 0"
    using ok r by (auto simp: page_ok_def right_ok_def)
  have cnt: "count p = length (live p)" by (rule count_live [OF inv])
  have room': "length (live p) < cardinality - 1" using room cnt by simp
  note ins = insert_key_live [OF inv room' cnt srt, of k right, folded p'_def]
    insert_key_inv [OF inv room' cnt srt nz, of k, folded p'_def]
    insert_key_keys_from [OF inv room k(1), of right, folded p'_def]
  have lm: "leftmost_ptr p' = leftmost_ptr p"
    and fr: "level p' = level p" "is_deleted p' = is_deleted p" "sibling_ptr p' = sibling_ptr p"
    by (simp_all add: p'_def)
  show "live p' = ins_cell (k, right) (live p)" by (rule ins(1))
  show "node_cells f p' = ins_cell (k, right) (node_cells f p)"
    using node_cells_ins [OF ok _ ins(1) lm] k(1) by simp
  have "if l = 0 then leftmost_ptr p' = 0 \<and> leaf_cells (live p')
      else child_cells (leftmost_ptr p') (live p') \<and> live p' \<noteq> []"
  proof (cases "l = 0")
    case True
    then show ?thesis using ok r lm ins(1) by (auto simp: page_ok_def right_ok_def leaf_cells_def)
  next
    case False
    then have "child_cells (leftmost_ptr p) (live p)" "right \<noteq> leftmost_ptr p" "right \<notin> snd ` set (live p)"
      using ok r by (auto simp: page_ok_def right_ok_def node_cells_def child_cells_def split: if_splits)
    then show ?thesis using False lm ins(1) nz by (simp add: child_cells_ins)
  qed
  then show "page_ok b l f hi sib p'"
    using ok ins k filter_ins_less [of "(k, right)" hi "live p"] fr by (simp add: page_ok_def)
qed

lemma filter_half:
  assumes "csorted cs" "length (filter (\<lambda>c. hi \<le> fst c) cs) \<le> b" "i + b < length cs"
  shows "fst (cs ! i) < hi"
proof (rule ccontr)
  assume "\<not> fst (cs ! i) < hi"
  then have "\<forall>c \<in> set (drop i cs). hi \<le> fst c"
  proof (intro ballI)
    fix c assume "c \<in> set (drop i cs)"
    then obtain j where "i + j < length cs" "c = cs ! (i + j)"
      using assms(3) by (auto simp: in_set_conv_nth less_diff_conv add.commute)
    moreover from this have "map fst cs ! i \<le> map fst cs ! (i + j)"
      using assms(1) by (intro sorted_nth_mono) (auto simp: csorted_def)
    ultimately show "hi \<le> fst c" using \<open>\<not> fst (cs ! i) < hi\<close> by simp
  qed
  then have "filter (\<lambda>c. hi \<le> fst c) (drop i cs) = drop i cs" by simp
  then have "length (drop i cs) \<le> length (filter (\<lambda>c. hi \<le> fst c) cs)"
    by (metis append_take_drop_id filter_append le_add2 length_append)
  then show False using assms(2,3) by simp
qed

lemma filter_drop_le: "length (filter P (drop i cs)) \<le> length (filter P cs)"
  by (metis append_take_drop_id filter_append le_add2 length_append)

text \<open>The cells left of the split keep their distance from the split key: at most 13 reach it,
  none when the keys are pairwise distinct.\<close>

lemma left_half_filter:
  assumes "csorted cs" "length cs = 27" "s = fst (cs ! 13)"
    "b = half \<or> (distinct (map fst cs) \<and> b = 0)"
  shows "length (filter (\<lambda>c. s \<le> fst c) (take 13 cs)) \<le> b"
  using assms(4)
proof
  assume "b = half"
  then show ?thesis
    using assms(2) length_filter_le [of "\<lambda>c. s \<le> fst c" "take 13 cs"] by (simp add: half_def)
next
  assume d: "distinct (map fst cs) \<and> b = 0"
  have "fst c < s" if c: "c \<in> set (take 13 cs)" for c
  proof -
    obtain i where i: "i < 13" "c = cs ! i" using c assms(2) by (auto simp: in_set_conv_nth)
    have "map fst cs ! i \<le> map fst cs ! 13"
      using assms(1,2) i by (intro sorted_nth_mono) (auto simp: csorted_def)
    moreover have "map fst cs ! i \<noteq> map fst cs ! 13"
      using d i assms(2) nth_eq_iff_index_eq [of "map fst cs" i 13] by simp
    ultimately show ?thesis using i assms(2,3) by simp
  qed
  then show ?thesis using d by (auto simp: filter_empty_conv not_le)
qed

section \<open>Splitting a page of a level\<close>

lemma split_cells_leaf:
  assumes "csorted xs" "length xs = 27" "s = fst (xs ! 13)"
  shows "(if k < s then ins_cell (k, v) (take 13 xs) else take 13 xs) @
         (if k < s then drop 13 xs else ins_cell (k, v) (drop 13 xs)) = ins_cell (k, v) xs"
proof -
  have d: "drop 13 xs = xs ! 13 # drop 14 xs"
    using assms(2) by (simp add: Cons_nth_drop_Suc [symmetric])
  have xs: "xs = take 13 xs @ drop 13 xs" by simp
  have le: "\<forall>c \<in> set (take 13 xs). fst c \<le> s"
    by (rule csorted_take_le [OF assms(1), of 13, folded assms(3)]) (use assms(2) in simp)
  show ?thesis
  proof (cases "k < s")
    case True
    then have "ins_cell (k, v) (take 13 xs @ drop 13 xs) = ins_cell (k, v) (take 13 xs) @ drop 13 xs"
      using d assms(3) by (intro ins_cell_append_less) auto
    then show ?thesis using True by simp
  next
    case False
    then have "ins_cell (k, v) (take 13 xs @ drop 13 xs) = take 13 xs @ ins_cell (k, v) (drop 13 xs)"
      using le by (intro ins_cell_append_ge) auto
    then show ?thesis using False by simp
  qed
qed

lemma split_cells_internal:
  assumes "csorted xs" "length xs = 27" "xs ! 13 = (s, v0)"
  shows "(if k < s then ins_cell (k, v) (take 13 xs) else take 13 xs) @
         (s, v0) # (if k < s then drop 14 xs else ins_cell (k, v) (drop 14 xs)) = ins_cell (k, v) xs"
proof -
  have "drop 13 xs = (s, v0) # drop 14 xs"
    using assms(2,3) by (simp add: Cons_nth_drop_Suc [symmetric])
  then show ?thesis using split_cells_leaf [OF assms(1,2), of s k v] assms(3) by auto
qed

lemma page_ok_full: "page_ok b l f hi sib p \<Longrightarrow> \<not> count p < cardinality - 1 \<Longrightarrow> length (live p) = 27"
  using count_live [of p] length_live [of p] by (auto simp: page_ok_def page_inv_def cardinality_val)

text \<open>Both halves are pages of their kind: leaves hold keys as buckets, internal pages hold
  pairwise different children.\<close>

lemma split_leaf_kind:
  assumes lc: "leaf_cells (live p)" "leftmost_ptr p = 0" and srt: "csorted (live p)" and len: "length (live p) = 27"
    and r: "right_ok 0 k right (node_cells f p)" and s: "s = fst (live p ! 13)"
    and lp: "live p' = (if k < s then ins_cell (k, right) (take 13 (live p)) else take 13 (live p))"
    and lq: "live q = (if k < s then drop 13 (live p) else ins_cell (k, right) (drop 13 (live p)))"
    and lm: "leftmost_ptr p' = 0" "leftmost_ptr q = 0"
  shows "node_cells f p' @ node_cells s q = ins_cell (k, right) (node_cells f p)"
    "s \<in> fst ` set (live q)" "leaf_cells (live p')" "leaf_cells (live q)"
proof -
  show "node_cells f p' @ node_cells s q = ins_cell (k, right) (node_cells f p)"
    using split_cells_leaf [OF srt len s, of k right] lp lq lm lc(2) by (simp add: node_cells_def)
  have "live p ! 13 \<in> set (drop 13 (live p))"
    using len by (simp add: Cons_nth_drop_Suc [symmetric])
  then show "s \<in> fst ` set (live q)" using lq s by auto
  have rk: "right = k" "k \<noteq> 0" using r by (auto simp: right_ok_def)
  have "leaf_cells (take 13 (live p))" "leaf_cells (drop 13 (live p))"
    using lc(1) by (auto simp: leaf_cells_def dest: in_set_takeD in_set_dropD)
  then show "leaf_cells (live p')" "leaf_cells (live q)" using lp lq rk by auto
qed

lemma split_internal_kind:
  assumes cc: "child_cells (leftmost_ptr p) (live p)" and srt: "csorted (live p)" and len: "length (live p) = 27"
    and r: "right_ok (Suc l) k right (node_cells f p)" and s: "s = fst (live p ! 13)" and fk: "f \<le> k"
    and lp: "live p' = (if k < s then ins_cell (k, right) (take 13 (live p)) else take 13 (live p))"
    and lq: "live q = (if k < s then drop 14 (live p) else ins_cell (k, right) (drop 14 (live p)))"
    and lm: "leftmost_ptr p' = leftmost_ptr p" "leftmost_ptr q = snd (live p ! 13)"
  shows "node_cells f p' @ node_cells s q = ins_cell (k, right) (node_cells f p)"
    "child_cells (leftmost_ptr p') (live p') \<and> live p' \<noteq> []"
    "child_cells (leftmost_ptr q) (live q) \<and> live q \<noteq> []"
proof -
  let ?xs = "live p" and ?c = "snd (live p ! 13)"
  have nz: "leftmost_ptr p \<noteq> 0" using cc by (simp add: child_cells_def)
  have xs: "?xs = take 13 ?xs @ ?xs ! 13 # drop 14 ?xs"
    using id_take_nth_drop [of 13 ?xs] len by (simp only: Suc_numeral semiring_norm)
  have "child_cells (leftmost_ptr p) (take 13 ?xs @ ?xs ! 13 # drop 14 ?xs)"
    using cc xs by simp
  then have halves: "child_cells (leftmost_ptr p) (take 13 ?xs)" "child_cells ?c (drop 14 ?xs)"
    by (auto simp: child_cells_def)
  have rr: "right \<noteq> 0" "right \<noteq> leftmost_ptr p" "right \<notin> snd ` set ?xs"
    using r nz by (auto simp: right_ok_def node_cells_def)
  then have fresh: "right \<noteq> ?c" "right \<notin> snd ` set (take 13 ?xs)" "right \<notin> snd ` set (drop 14 ?xs)"
    using len by (auto dest: in_set_takeD in_set_dropD)
  have cnz: "?c \<noteq> 0" using halves(2) by (simp add: child_cells_def)
  show "node_cells f p' @ node_cells s q = ins_cell (k, right) (node_cells f p)"
    using split_cells_internal [OF srt len, of s ?c k right] lp lq lm s nz cnz fk
    by (simp add: node_cells_def)
  show "child_cells (leftmost_ptr p') (live p') \<and> live p' \<noteq> []"
    using halves(1) fresh rr lp lm len by (auto simp: child_cells_ins)
  show "child_cells (leftmost_ptr q) (live q) \<and> live q \<noteq> []"
    using halves(2) fresh rr lq lm len by (auto simp: child_cells_ins)
qed

text \<open>A split yields two pages of the kind of the old one, with its cells and the new one between them.\<close>

lemma split_kind:
  fixes xs :: "cell list" and lm :: int
  defines "s \<equiv> fst (xs ! 13)" and "up \<equiv> drop (if lm = 0 then 13 else 14) xs"
  assumes kind: "page_kind l lm xs" and srt: "csorted xs" and len: "length xs = 27" and xs: "live p = xs" "leftmost_ptr p = lm"
    and r: "right_ok l k right (node_cells f p)" and k: "f \<le> k"
    and lp: "live p' = (if k < s then ins_cell (k, right) (take 13 xs) else take 13 xs)"
    and lq: "live q = (if k < s then up else ins_cell (k, right) up)"
    and lm: "leftmost_ptr p' = lm" "leftmost_ptr q = (if lm = 0 then 0 else snd (xs ! 13))"
  shows "node_cells f p' @ node_cells s q = ins_cell (k, right) (node_cells f p)" "l = 0 \<Longrightarrow> s \<in> fst ` set (live q)"
    "page_kind l (leftmost_ptr p') (live p')" "page_kind l (leftmost_ptr q) (live q)"
proof -
  note lp' = lp [unfolded s_def, folded xs(1)] and lq' = lq [unfolded s_def, folded xs(1)]
  note srt' = srt [folded xs(1)] and len' = len [folded xs(1)]
  have "node_cells f p' @ node_cells s q = ins_cell (k, right) (node_cells f p) \<and> (l = 0 \<longrightarrow> s \<in> fst ` set (live q)) \<and>
    page_kind l (leftmost_ptr p') (live p') \<and> page_kind l (leftmost_ptr q) (live q)"
  proof (cases l)
    case 0
    then have l0: "leaf_cells (live p)" "leftmost_ptr p = 0" "leftmost_ptr p' = 0" "leftmost_ptr q = 0" "up = drop 13 (live p)"
      using kind lm xs by (auto simp: up_def)
    show ?thesis
      using split_leaf_kind [OF l0(1,2) srt' len' r [unfolded 0] refl lp' lq' [unfolded l0(5)] l0(3,4)] 0 l0 xs
      by (simp add: s_def)
  next
    case (Suc l')
    then have ls: "child_cells (leftmost_ptr p) (live p)" "leftmost_ptr q = snd (live p ! 13)" "up = drop 14 (live p)"
      "leftmost_ptr p' = leftmost_ptr p"
      using kind lm xs by (auto simp: child_cells_def up_def)
    show ?thesis
      using split_internal_kind [OF ls(1) srt' len' r [unfolded Suc] refl k lp' lq' [unfolded ls(3)] ls(4,2)] Suc xs
      by (simp add: s_def)
  qed
  then show "node_cells f p' @ node_cells s q = ins_cell (k, right) (node_cells f p)" "l = 0 \<Longrightarrow> s \<in> fst ` set (live q)"
    "page_kind l (leftmost_ptr p') (live p')" "page_kind l (leftmost_ptr q) (live q)"
    by blast+
qed

text \<open>The two halves are sorted, keep to their fences, and hold few cells at the upper one.\<close>

lemma split_lower_half:
  assumes "csorted xs" "length xs = 27" "b = half \<or> (distinct (map fst xs) \<and> b = 0)"
    and "ys = (if k < fst (xs ! 13) then ins_cell (k, right) (take 13 xs) else take 13 xs)"
  shows "csorted ys" "\<forall>c \<in> set ys. fst c \<le> fst (xs ! 13)" "length (filter (\<lambda>c. fst (xs ! 13) \<le> fst c) ys) \<le> b"
proof -
  have "\<forall>c \<in> set (take 13 xs). fst c \<le> fst (xs ! 13)" by (rule csorted_take_le [OF assms(1)]) (simp add: assms(2))
  then show "csorted ys" "\<forall>c \<in> set ys. fst c \<le> fst (xs ! 13)" "length (filter (\<lambda>c. fst (xs ! 13) \<le> fst c) ys) \<le> b"
    using assms(1,4) filter_ins_less [of "(k, right)" "fst (xs ! 13)" "take 13 xs"] left_half_filter [OF assms(1,2) refl assms(3)]
    by auto
qed

lemma split_upper_half:
  assumes "csorted xs" "\<forall>c \<in> set xs. fst c \<le> hi" "length (filter (\<lambda>c. hi \<le> fst c) xs) \<le> b" "k < hi"
    and "ys = (if k < s then drop n xs else ins_cell (k, right) (drop n xs))"
  shows "csorted ys" "\<forall>c \<in> set ys. fst c \<le> hi" "length (filter (\<lambda>c. hi \<le> fst c) ys) \<le> b"
  using assms set_drop_subset [of n xs] filter_ins_less [of "(k, right)" hi "drop n xs"]
    order_trans [OF filter_drop_le assms(3), of n]
  by auto

lemma page_ok_split:
  assumes ok: "page_ok b l f hi sib p" and k: "f \<le> k" "k < hi" and full: "\<not> count p < cardinality - 1"
    and hi: "hi \<le> 2 ^ 63" and r: "right_ok l k right (node_cells f p)"
    and b: "b = half \<or> (distinct (map fst (live p)) \<and> b = 0)"
  obtains p' q s where "split_page p na k right = (p', q, s, \<not> k < s)"
    "page_ok b l f s na p'" "page_ok b l s hi sib q" "f \<le> s" "s < hi"
    "node_cells f p' @ node_cells s q = ins_cell (k, right) (node_cells f p)"
    "l = 0 \<Longrightarrow> s \<in> fst ` set (live q)"
proof -
  let ?xs = "live p" and ?s = "fst (live p ! 13)"
  let ?up = "drop (if leftmost_ptr p = 0 then 13 else 14) (live p)"
  have len: "length ?xs = 27" by (rule page_ok_full [OF ok full])
  have inv: "page_inv p" and srt: "csorted ?xs" and kf: "keys_from f (records p)"
    and flt: "length (filter (\<lambda>c. hi \<le> fst c) ?xs) \<le> b" and kind: "page_kind l (leftmost_ptr p) ?xs"
    and base: "level p = l" "\<not> is_deleted p" "sibling_ptr p = sib" "\<forall>c \<in> set ?xs. fst c \<le> hi"
    using ok by (auto simp: page_ok_def)
  have sh: "?s < hi" using filter_half [OF srt flt, of 13] b len by (auto simp: half_def)
  have fs: "f \<le> ?s"
    using page_ok_cells(2) [OF ok] len by (simp add: node_cells_def split: if_splits)
  have smax: "?s \<le> LONG_MAX" using sh hi by (simp add: LONG_MAX_def)
  have nz: "right \<noteq> 0" using r by (simp add: right_ok_def)
  obtain p' q where sp: "split_page p na k right = (p', q, ?s, \<not> k < ?s)"
    and lp: "live p' = (if k < ?s then ins_cell (k, right) (take 13 ?xs) else take 13 ?xs)"
    and lq: "live q = (if k < ?s then ?up else ins_cell (k, right) ?up)"
    and pq: "page_inv p'" "page_inv q" "keys_from f (records p')" "keys_from ?s (records q)"
    and lm: "leftmost_ptr p' = leftmost_ptr p"
      "leftmost_ptr q = (if leftmost_ptr p = 0 then 0 else snd (?xs ! 13))"
    and fr: "sibling_ptr p' = na" "sibling_ptr q = sibling_ptr p" "level p' = level p" "level q = level p"
      "is_deleted p' = is_deleted p" "\<not> is_deleted q"
    by (rule split_page_spec [OF inv len srt kf k(1) smax nz, of na])
  note kinds = split_kind [OF kind srt len refl refl r k(1) lp lq lm]
  have "page_ok b l f ?s na p'"
    unfolding page_ok_def using pq(1,3) fr(1,3,5) base(1,2) kinds(3) fs split_lower_half [OF srt len b lp] by blast
  moreover have "page_ok b l ?s hi sib q"
    unfolding page_ok_def using pq(2,4) fr(2,4,6) base(1,3) kinds(4) sh split_upper_half [OF srt base(4) flt k(2) lq]
    by (metis less_imp_le)
  ultimately show thesis using that [OF sp _ _ fs sh kinds(1,2)] by blast
qed

section \<open>Updating a chain\<close>

lemma chain_replace:
  assumes ch: "chain_ok h b l (us @ (f, a) # vs) hi sib" and d: "distinct (map snd (us @ (f, a) # vs))"
    and ok: "page_ok b l f (hd_key vs hi) (hd_adr vs sib) p'"
  shows "chain_ok (h(a \<mapsto> p')) b l (us @ (f, a) # vs) hi sib"
    "content (h(a \<mapsto> p')) (us @ (f, a) # vs) = content h us @ node_cells f p' @ content h vs"
proof -
  let ?h = "h(a \<mapsto> p')"
  have fr: "\<forall>c \<in> set us. ?h (snd c) = h (snd c)" "\<forall>c \<in> set vs. ?h (snd c) = h (snd c)"
    using d by force+
  have "a \<noteq> 0" using ch by (simp add: chain_ok_append node_ok_def)
  then have "node_ok ?h b l f a (hd_key vs hi) (hd_adr vs sib)" using ok by (simp add: node_ok_def)
  then show "chain_ok ?h b l (us @ (f, a) # vs) hi sib"
    using ch chain_ok_frame [where h' = ?h and h = h, OF fr(1)] chain_ok_frame [where h' = ?h and h = h, OF fr(2)]
    by (simp add: chain_ok_append)
  show "content ?h (us @ (f, a) # vs) = content h us @ node_cells f p' @ content h vs"
    using content_frame [where h' = ?h and h = h, OF fr(1)]
      content_frame [where h' = ?h and h = h, OF fr(2)] by (simp add: page_cells_def)
qed

lemma chain_split:
  assumes ch: "chain_ok h b l (us @ (f, a) # vs) hi sib" and d: "distinct (map snd (us @ (f, a) # vs))"
    and na: "na \<notin> snd ` set (us @ (f, a) # vs)" "na \<noteq> 0"
    and ok: "page_ok b l f s na p'" "page_ok b l s (hd_key vs hi) (hd_adr vs sib) q"
  defines "h' \<equiv> h(na \<mapsto> q, a \<mapsto> p')"
  shows "chain_ok h' b l (us @ (f, a) # (s, na) # vs) hi sib"
    "content h' (us @ (f, a) # (s, na) # vs) = content h us @ node_cells f p' @ node_cells s q @ content h vs"
    "distinct (map snd (us @ (f, a) # (s, na) # vs))"
proof -
  have fr: "\<forall>c \<in> set us. h' (snd c) = h (snd c)" "\<forall>c \<in> set vs. h' (snd c) = h (snd c)"
    using d na(1) unfolding h'_def by force+
  have ne: "na \<noteq> a" using na(1) by simp
  have "a \<noteq> 0" using ch by (simp add: chain_ok_append node_ok_def)
  then have "node_ok h' b l f a s na" "node_ok h' b l s na (hd_key vs hi) (hd_adr vs sib)"
    using ok na(2) ne by (simp_all add: node_ok_def h'_def)
  then show "chain_ok h' b l (us @ (f, a) # (s, na) # vs) hi sib"
    using ch chain_ok_frame [where h' = h' and h = h, OF fr(1)] chain_ok_frame [where h' = h' and h = h, OF fr(2)]
    by (simp add: chain_ok_append)
  show "content h' (us @ (f, a) # (s, na) # vs) =
      content h us @ node_cells f p' @ node_cells s q @ content h vs"
    using content_frame [where h' = h' and h = h, OF fr(1)]
      content_frame [where h' = h' and h = h, OF fr(2)] ne
    by (simp add: page_cells_def) (simp add: h'_def)
  show "distinct (map snd (us @ (f, a) # (s, na) # vs))" using d na(1) by auto
qed

text \<open>Inserting into the cells of the routed page is inserting into the cells of the whole level.\<close>

lemma content_insert:
  assumes ch: "chain_ok h b l (us @ (f, a) # vs) hi 0" and p: "h a = Some p"
    and k: "f \<le> k" "k < hd_key vs hi"
  shows "content h us @ ins_cell (k, v) (node_cells f p) @ content h vs
           = ins_cell (k, v) (content h (us @ (f, a) # vs))"
proof -
  have us: "chain_ok h b l us f a" and vs: "chain_ok h b l vs hi 0"
    using ch by (auto simp: chain_ok_append)
  have "\<forall>c \<in> set (content h us). fst c \<le> k"
    using chain_ok_content(2) [OF us] k(1) by (meson order_trans)
  moreover have "\<forall>c \<in> set (content h vs). k < fst c"
    using chain_ok_content(2) [OF vs] k(2) by (meson less_le_trans)
  ultimately show ?thesis
    using p by (simp add: ins_cell_append_ge ins_cell_append_less_all page_cells_def)
qed

end
