(* ===== verification/BTree_Correct.thy ===== *)
theory BTree_Correct
  imports Level
begin

text \<open>
  Correctness of the global B+-tree.  A tree is well-formed when its levels, from the leaves to
  the root, are chains of well-formed pages and the cells of every level are the chain of the level
  below.  On well-formed trees the descents reach the page a key belongs to, \<^verbatim>\<open>store\<close> with
  enough fuel returns and inserts one cell on its level (splitting upwards as far as needed), and
  the search, insert and delete of the tree act on its set of keys.
\<close>

section \<open>Well-formed trees\<close>

fun ups :: "heap \<Rightarrow> nat \<Rightarrow> nat \<Rightarrow> cell list list \<Rightarrow> int \<Rightarrow> bool" where
  "ups h b l [] r = False"
| "ups h b l [L] r = (L = [(LONG_MIN, r)] \<and> chain_ok h b l L (2 ^ 63) 0)"
| "ups h b l (L # M # Ls) r =
     (L \<noteq> [] \<and> fst (hd L) = LONG_MIN \<and> distinct (map snd L) \<and> chain_ok h b l L (2 ^ 63) 0 \<and>
      content h M = L \<and> ups h half (Suc l) (M # Ls) r)"

text \<open>Every page lies between the first address handed out and the next one, and exactly the
  pages of level 0 are leaves.\<close>

definition heap_ok :: "int \<Rightarrow> tree_state \<Rightarrow> bool" where
  "heap_ok base t \<longleftrightarrow>
     0 < base \<and> base \<le> next_page t \<and>
     (\<forall>a p. pages t a = Some p \<longrightarrow> base \<le> a \<and> a < next_page t \<and> (leftmost_ptr p = 0 \<longleftrightarrow> level p = 0))"

text \<open>The chains of the tree, computed from the root downwards.\<close>

fun chain_down :: "heap \<Rightarrow> nat \<Rightarrow> cell list \<Rightarrow> cell list" where
  "chain_down h 0 L = L"
| "chain_down h (Suc n) L = chain_down h n (content h L)"

definition leaf_chain :: "tree_state \<Rightarrow> cell list" where
  "leaf_chain t =
     (case pages t (root t) of None \<Rightarrow> [] | Some r \<Rightarrow> chain_down (pages t) (level r) [(LONG_MIN, root t)])"

text \<open>All cells of the leaves, and the keys a search can reach: those stored in the leaf their
  key is routed to.\<close>

definition tree_cells :: "tree_state \<Rightarrow> cell list" where
  "tree_cells t = content (pages t) (leaf_chain t)"

definition routed_keys :: "heap \<Rightarrow> cell list \<Rightarrow> int \<Rightarrow> int set" where
  "routed_keys h L k = fst ` set (page_cells h (route k L))"

definition key_set :: "tree_state \<Rightarrow> int set" where
  "key_set t = {k. LONG_MIN \<le> k \<and> k < 2 ^ 63 \<and> k \<in> routed_keys (pages t) (leaf_chain t) k}"

text \<open>The invariant of the tree; with \<open>b = 0\<close> it also says that no key sits on both sides of a
  fence.\<close>

definition tree_ok :: "int \<Rightarrow> nat \<Rightarrow> tree_state \<Rightarrow> bool" where
  "tree_ok base b t \<longleftrightarrow>
     heap_ok base t \<and> (\<exists>L Ls. ups (pages t) b 0 (L # Ls) (root t) \<and> height t = Suc (length Ls))"

section \<open>Facts about the levels\<close>

lemma ups_bottom:
  assumes "ups h b l (L # Ls) r"
  shows "L \<noteq> []" "fst (hd L) = LONG_MIN" "distinct (map snd L)" "chain_ok h b l L (2 ^ 63) 0"
  using assms by (cases Ls; simp)+

lemma ups_up: "ups h b l (L # M # Ls) r \<Longrightarrow> ups h half (Suc l) (M # Ls) r \<and> content h M = L"
  by simp

lemma ups_root: "ups h b l (L # Ls) r \<Longrightarrow> \<exists>p. h r = Some p \<and> level p = l + length Ls"
proof (induction Ls arbitrary: L l b)
  case Nil
  then show ?case by (auto simp: node_ok_def page_ok_def)
next
  case (Cons M Ls)
  then show ?case by fastforce
qed

lemma ups_frame:
  "ups h b l Ls r \<Longrightarrow> \<forall>a p. h a = Some p \<and> l \<le> level p \<longrightarrow> h' a = Some p \<Longrightarrow> ups h' b l Ls r"
proof (induction h b l Ls r rule: ups.induct)
  case (2 h b l L r)
  have "\<forall>c \<in> set L. h' (snd c) = h (snd c)"
    using 2 chain_ok_page(1) by (metis order_refl ups.simps(2))
  then have "chain_ok h' b l L (2 ^ 63) 0 = chain_ok h b l L (2 ^ 63) 0" by (rule chain_ok_frame)
  then show ?case using 2(1) by (metis ups.simps(2))
next
  case (3 h b l L M Ls r)
  have up: "ups h half (Suc l) (M # Ls) r" using 3(2) by simp
  have L: "\<forall>c \<in> set L. h' (snd c) = h (snd c)"
    using 3(2,3) chain_ok_page(1) by (metis order_refl ups.simps(3))
  have M: "\<forall>c \<in> set M. h' (snd c) = h (snd c)"
    using ups_bottom(4) [OF up] 3(3) chain_ok_page(1) by (metis Suc_leD order_refl)
  have "ups h' half (Suc l) (M # Ls) r"
    using 3(1) [OF up] 3(3) by (metis Suc_leD)
  then show ?case
    using 3(2) chain_ok_frame [where h' = h' and h = h, OF L] content_frame [where h' = h' and h = h, OF M]
    by simp
qed simp

section \<open>The descents\<close>

lemma find_level_step:
  assumes "find_level h r k m = Some a" "l \<le> m"
  shows "find_level h r k l = find_level h a k l"
proof -
  have "m' = m \<longrightarrow> k' = k \<longrightarrow> h' = h \<longrightarrow> find_level h' r k' l = find_level h' a k' l"
    if "find_level h' r k' m' = Some a" for h' k' m'
    using that
  proof (rule find_level.raw_induct [where P = "\<lambda>h' r k' m' a. m' = m \<longrightarrow> k' = k \<longrightarrow> h' = h \<longrightarrow>
      find_level h' r k' l = find_level h' a k' l", rotated])
    fix f h' r k' m' a
    assume IH: "\<And>h' r k' m' a. f h' r k' m' = Some a \<Longrightarrow> m' = m \<longrightarrow> k' = k \<longrightarrow> h' = h \<longrightarrow>
      find_level h' r k' l = find_level h' a k' l"
      and eq: "do { p \<leftarrow> h' r; if level p \<le> m' then Some r
        else do { c \<leftarrow> linear_search h' p k'; f h' c k' m' } } = Some a"
    show "m' = m \<longrightarrow> k' = k \<longrightarrow> h' = h \<longrightarrow> find_level h' r k' l = find_level h' a k' l"
    proof (intro impI)
      assume *: "m' = m" "k' = k" "h' = h"
      obtain p where p: "h r = Some p" using eq * by (auto simp: bind_eq_Some_conv)
      show "find_level h' r k' l = find_level h' a k' l"
      proof (cases "level p \<le> m")
        case True
        then show ?thesis using eq p * by simp
      next
        case False
        then obtain c where c: "linear_search h p k = Some c" "f h c k m = Some a"
          using eq p * by (auto simp: bind_eq_Some_conv)
        have "find_level h r k l = find_level h c k l"
          using p c(1) False assms(2) by (subst find_level.simps) simp
        then show ?thesis using IH [OF c(2)] * by simp
      qed
    qed
  qed
  then show ?thesis using assms(1) by blast
qed

lemma find_level_route:
  assumes "ups h b l (L # Ls) r" "LONG_MIN \<le> k" "k < 2 ^ 63"
  shows "find_level h r k l = Some (snd (route k L))"
  using assms(1)
proof (induction Ls arbitrary: L l b)
  case Nil
  then obtain p where "h r = Some p" "level p = l" by (auto simp: node_ok_def page_ok_def)
  moreover have "route k L = (LONG_MIN, r)" using Nil assms(2) by (simp add: route_def)
  ultimately show ?case by (simp add: find_level.simps)
next
  case (Cons M Ls)
  have up: "ups h half (Suc l) (M # Ls) r" and cont: "content h M = L"
    using Cons.prems by auto
  have step: "find_level h r k l = find_level h (snd (route k M)) k l"
    using find_level_step [OF Cons.IH [OF up]] by simp
  note M = ups_bottom [OF up]
  obtain us f a vs p where r: "route k M = (f, a)" "f \<le> k" "k < hd_key vs (2 ^ 63)" "h a = Some p"
    "page_ok half (Suc l) f (hd_key vs (2 ^ 63)) (hd_adr vs 0) p"
    "sib_ok h (hd_adr vs 0) (hd_key vs (2 ^ 63))"
    using chain_route [OF M(4,1)] M(2) assms(2,3) by metis
  have ls: "linear_search h p k = Some (snd (route k L))"
    using linear_search_internal [OF r(5,6,2,3)] route_content [OF M(4,1) _ assms(3) r(1,4)] M(2)
      assms(2) cont by simp
  have lev: "level p = Suc l" using r(5) by (simp add: page_ok_def)
  note L = ups_bottom [OF Cons.prems]
  have "route k L \<in> set L" using route_in_set L(1,2) assms(2) by metis
  then obtain q where "h (snd (route k L)) = Some q" "level q = l"
    using chain_ok_page(1) [OF L(4)] by blast
  then have "find_level h (snd (route k L)) k l = Some (snd (route k L))"
    by (simp add: find_level.simps)
  then show ?case using step r(1,4) lev ls by (simp add: find_level.simps [of h a])
qed

text \<open>\<^verbatim>\<open>btree_insert\<close> and the readers descend until a page without leftmost child, the same
  page as the descent to level 0.\<close>

lemma find_leaf_level:
  assumes "\<forall>a p. h a = Some p \<longrightarrow> (leftmost_ptr p = 0 \<longleftrightarrow> level p = 0)" "find_level h r k 0 = Some a"
  shows "find_leaf h r k = Some a"
proof -
  have "m' = 0 \<longrightarrow> h' = h \<longrightarrow> find_leaf h' r k' = Some a" if "find_level h' r k' m' = Some a" for h' k' m'
    using that
  proof (rule find_level.raw_induct [where P = "\<lambda>h' r k' m' a. m' = 0 \<longrightarrow> h' = h \<longrightarrow>
      find_leaf h' r k' = Some a", rotated])
    fix f h' r k' m' a
    assume IH: "\<And>h' r k' m' a. f h' r k' m' = Some a \<Longrightarrow> m' = 0 \<longrightarrow> h' = h \<longrightarrow> find_leaf h' r k' = Some a"
      and eq: "do { p \<leftarrow> h' r; if level p \<le> m' then Some r
        else do { c \<leftarrow> linear_search h' p k'; f h' c k' m' } } = Some a"
    show "m' = 0 \<longrightarrow> h' = h \<longrightarrow> find_leaf h' r k' = Some a"
    proof (intro impI)
      assume *: "m' = 0" "h' = h"
      obtain p where p: "h r = Some p" using eq * by (auto simp: bind_eq_Some_conv)
      show "find_leaf h' r k' = Some a"
      proof (cases "level p = 0")
        case True
        then show ?thesis using eq p * assms(1) by (simp add: find_leaf.simps)
      next
        case False
        then obtain c where "linear_search h p k' = Some c" "f h c k' 0 = Some a"
          using eq p * by (auto simp: bind_eq_Some_conv)
        then show ?thesis using p False * IH assms(1) by (simp add: find_leaf.simps [of h r])
      qed
    qed
  qed
  then show ?thesis using assms(2) by blast
qed

lemma find_leaf_route:
  assumes "heap_ok base t" "ups (pages t) b 0 (L # Ls) (root t)" "LONG_MIN \<le> k" "k < 2 ^ 63"
  shows "find_leaf (pages t) (root t) k = Some (snd (route k L))"
  using assms find_level_route [OF assms(2-4)] by (intro find_leaf_level) (auto simp: heap_ok_def)

section \<open>Insertion on one level\<close>

lemma page_ok_leaf: "page_ok b l f hi sib p \<Longrightarrow> leftmost_ptr p = 0 \<longleftrightarrow> level p = 0"
  by (auto simp: page_ok_def child_cells_def split: if_splits)

lemma ups_replace:
  assumes "ups h b l (L # Ls) r" "chain_ok h' b l L (2 ^ 63) 0"
    "\<forall>a p. h a = Some p \<and> Suc l \<le> level p \<longrightarrow> h' a = Some p"
  shows "ups h' b l (L # Ls) r"
proof (cases Ls)
  case Nil
  then show ?thesis using assms(1,2) by (metis ups.simps(2))
next
  case (Cons M Ms)
  then have up: "ups h half (Suc l) (M # Ms) r" using assms(1) by simp
  have "\<forall>c \<in> set M. h' (snd c) = h (snd c)"
    using ups_bottom(4) [OF up] assms(3) chain_ok_page(1) by (metis order_refl)
  then have "content h' M = content h M" by (rule content_frame)
  then show ?thesis using assms(1,2) ups_frame [OF up assms(3)] Cons by simp
qed

text \<open>Which page a key is routed to after a split: only the keys of the split page move.\<close>

lemma route_after_split:
  assumes "csorted (us @ (f, a) # vs)" "f \<le> s" "\<forall>c \<in> set vs. s < fst c"
    "fst (hd (us @ [(f, a)])) \<le> k"
  shows "route k (us @ (f, a) # (s, na) # vs) =
    (if route k (us @ (f, a) # vs) = (f, a) \<and> s \<le> k then (s, na) else route k (us @ (f, a) # vs))"
proof -
  have srt: "csorted (us @ [(f, a)])" "csorted (us @ (f, a) # vs)" "csorted ((us @ [(f, a)]) @ (s, na) # vs)"
    using assms by (auto simp: cell_simps intro: less_imp_le order_trans)
  show ?thesis
  proof (cases "k < s")
    case True
    have "vs = [] \<or> k < fst (hd vs)" using assms(3) True by (cases vs) auto
    then show ?thesis
      using route_append_less [of "us @ [(f, a)]" k "(s, na) # vs"]
        route_append_less [of "us @ [(f, a)]" k vs] srt(1) assms(4) True by simp
  next
    case False
    have l: "route k (us @ (f, a) # (s, na) # vs) = route k ((s, na) # vs)"
      using route_append_ge [OF srt(3), of k] False by simp
    have r: "route k (us @ (f, a) # vs) = route k ((f, a) # vs)"
      using route_append_ge [OF srt(2), of k] False assms(2) by simp
    show ?thesis
    proof (cases "vs \<noteq> [] \<and> fst (hd vs) \<le> k")
      case True
      then have v: "route k ((s, na) # vs) = route k vs" "route k ((f, a) # vs) = route k vs"
        using False assms(2) by (cases vs; simp add: route_def)+
      have "route k vs \<in> set vs" using True route_in_set by blast
      then have "route k vs \<noteq> (f, a)" using assms(2,3) by force
      then show ?thesis using l r v by simp
    next
      case *: False
      then have "route k ((s, na) # vs) = (s, na)" "route k ((f, a) # vs) = (f, a)"
        using False assms(2) by (cases vs; simp add: route_def)+
      then show ?thesis using l r False by simp
    qed
  qed
qed

lemma routed_replace:
  assumes "distinct (map snd (us @ (f, a) # vs))" "h a = Some p" "leftmost_ptr p = 0" "leftmost_ptr p' = 0"
    "live p' = ins_cell (k, k) (live p)" "route k (us @ (f, a) # vs) = (f, a)"
    "fst (hd (us @ [(f, a)])) \<le> k'"
  shows "k' \<in> routed_keys (h(a \<mapsto> p')) (us @ (f, a) # vs) k' \<longleftrightarrow>
    k' = k \<or> k' \<in> routed_keys h (us @ (f, a) # vs) k'"
proof (cases "route k' (us @ (f, a) # vs) = (f, a)")
  case True
  then show ?thesis using assms(2-5) by (simp add: routed_keys_def page_cells_def node_cells_def)
next
  case False
  let ?L = "us @ (f, a) # vs"
  have "fst (hd ?L) \<le> k'" using assms(7) by (cases us) auto
  then have "route k' ?L \<in> set ?L" using route_in_set by blast
  then have "snd (route k' ?L) \<in> snd ` (set us \<union> set vs)" using False by auto
  moreover have "a \<notin> snd ` (set us \<union> set vs)" using assms(1) by auto
  ultimately have "snd (route k' ?L) \<noteq> a" by metis
  then show ?thesis using False assms(6) by (auto simp: routed_keys_def page_cells_def)
qed

lemma routed_split:
  assumes srt: "csorted (us @ (f, a) # vs)" and fs: "f \<le> s" "\<forall>c \<in> set vs. s < fst c"
    and k': "fst (hd (us @ [(f, a)])) \<le> k'"
    and d: "distinct (map snd (us @ (f, a) # (s, na) # vs))" and p: "h a = Some p"
    and lm: "leftmost_ptr p = 0" "leftmost_ptr p' = 0" "leftmost_ptr q = 0"
    and cells: "live p' @ live q = ins_cell (k, k) (live p)"
    and lo: "\<forall>c \<in> set (live p'). fst c \<le> s" and up: "\<forall>c \<in> set (live q). s \<le> fst c"
    and s: "s \<in> fst ` set (live q)" and r: "route k (us @ (f, a) # vs) = (f, a)"
  shows "k' \<in> routed_keys (h(na \<mapsto> q, a \<mapsto> p')) (us @ (f, a) # (s, na) # vs) k' \<longleftrightarrow>
    k' = k \<or> k' \<in> routed_keys h (us @ (f, a) # vs) k'"
proof -
  let ?L = "us @ (f, a) # vs" and ?L' = "us @ (f, a) # (s, na) # vs" and ?h = "h(na \<mapsto> q, a \<mapsto> p')"
  note route = route_after_split [OF srt fs k', of na]
  have "set (live p') \<union> set (live q) = insert (k, k) (set (live p))"
    using arg_cong [OF cells, of set] by simp
  then have keys: "fst ` set (live p') \<union> fst ` set (live q) = insert k (fst ` set (live p))"
    by (metis fst_conv image_Un image_insert)
  show ?thesis
  proof (cases "route k' ?L = (f, a)")
    case True
    have lo': "\<forall>x \<in> fst ` set (live p'). x \<le> s" and up': "\<forall>x \<in> fst ` set (live q). s \<le> x"
      using lo up by simp_all
    have "k' \<in> fst ` set (live p') \<longleftrightarrow> k' \<in> insert k (fst ` set (live p))" if "k' < s"
      unfolding keys [symmetric] using up' that by (meson Un_iff not_less)
    moreover have "k' \<in> fst ` set (live q) \<longleftrightarrow> k' \<in> insert k (fst ` set (live p))" if "s \<le> k'"
      unfolding keys [symmetric] using lo' s that by (metis Un_iff antisym)
    moreover have "na \<noteq> a" using d by auto
    ultimately show ?thesis
      using True route p lm by (simp add: routed_keys_def page_cells_def node_cells_def)
  next
    case False
    have "fst (hd ?L) \<le> k'" using k' by (cases us) auto
    then have "route k' ?L \<in> set ?L" using route_in_set by blast
    then have "snd (route k' ?L) \<in> snd ` (set us \<union> set vs)" using False by auto
    moreover have "a \<notin> snd ` (set us \<union> set vs)" "na \<notin> snd ` (set us \<union> set vs)" using d by auto
    ultimately have "snd (route k' ?L) \<noteq> a" "snd (route k' ?L) \<noteq> na" by metis+
    then have "routed_keys ?h ?L' k' = routed_keys h ?L k'"
      using False route by (simp add: routed_keys_def page_cells_def)
    moreover have "k' \<noteq> k" using False r by auto
    ultimately show ?thesis by simp
  qed
qed

text \<open>What a store does to the levels from \<open>l\<close> upwards.\<close>

definition level_step ::
  "int \<Rightarrow> nat \<Rightarrow> nat \<Rightarrow> int \<Rightarrow> int \<Rightarrow> tree_state \<Rightarrow> cell list \<Rightarrow> cell list list \<Rightarrow>
   tree_state \<Rightarrow> cell list \<Rightarrow> cell list list \<Rightarrow> bool" where
  "level_step base b l k right t L Ls t' L' Ls' \<longleftrightarrow>
     heap_ok base t' \<and> ups (pages t') b l (L' # Ls') (root t') \<and>
     content (pages t') L' = ins_cell (k, right) (content (pages t) L) \<and>
     (\<forall>a p. pages t a = Some p \<and> level p < l \<longrightarrow> pages t' a = Some p) \<and>
     height t' + length Ls = height t + length Ls' \<and>
     (l = 0 \<longrightarrow> (\<forall>k'. LONG_MIN \<le> k' \<longrightarrow>
        (k' \<in> routed_keys (pages t') L' k' \<longleftrightarrow> k' = k \<or> k' \<in> routed_keys (pages t) L k')))"

lemma right_ok_page:
  "right_ok l k right (content h (us @ (f, a) # vs)) \<Longrightarrow> h a = Some p \<Longrightarrow> right_ok l k right (node_cells f p)"
  by (simp add: right_ok_def page_cells_def image_Un split: if_splits)

lemma live_distinct:
  "distinct (map fst (content h (us @ (f, a) # vs))) \<Longrightarrow> h a = Some p \<Longrightarrow> distinct (map fst (live p))"
  by (auto simp: page_cells_def node_cells_def split: if_splits)

lemma heap_ok_write:
  "heap_ok base t \<Longrightarrow> pages t a = Some p \<Longrightarrow> page_ok b l f hi sib p' \<Longrightarrow> heap_ok base (write_page t a p')"
  by (auto simp: heap_ok_def write_page_def page_ok_leaf)

lemma heap_ok_new:
  "heap_ok base t \<Longrightarrow> (leftmost_ptr q = 0 \<longleftrightarrow> level q = 0) \<Longrightarrow> heap_ok base (snd (new_page t q))"
  by (auto simp: heap_ok_def new_page_def PAGESIZE_def) force+

lemma heap_ok_fresh: "heap_ok base t \<Longrightarrow> pages t (next_page t) = None \<and> next_page t \<noteq> 0"
  by (auto simp: heap_ok_def) (metis less_irrefl not_None_eq)

lemma level_step_room:
  assumes hok: "heap_ok base t" and ups: "ups (pages t) b l (L # Ls) (root t)"
    and L: "L = us @ (f, a) # vs" and r: "route k L = (f, a)" and k: "f \<le> k" "k < hd_key vs (2 ^ 63)"
    and p: "pages t a = Some p" "page_ok b l f (hd_key vs (2 ^ 63)) (hd_adr vs 0) p"
    and right: "right_ok l k right (content (pages t) L)" and room: "count p < cardinality - 1"
  defines "t' \<equiv> write_page t a (fst (insert_key p k right (count p) True))"
  shows "level_step base b l k right t L Ls t' L Ls"
proof -
  let ?p' = "fst (insert_key p k right (count p) True)"
  note up = ups_bottom [OF ups]
  note ins = page_ok_insert [OF p(2) k room right_ok_page [OF right [unfolded L] p(1)]]
  note ch = chain_replace [OF up(4) [unfolded L] up(3) [unfolded L] ins(1)]
  have h': "pages t' = (pages t)(a \<mapsto> ?p')" "root t' = root t" "height t' = height t"
    by (simp_all add: t'_def write_page_def)
  have lev: "level p = l" using p(2) by (simp add: page_ok_def)
  have "ups (pages t') b l (L # Ls) (root t')"
    unfolding h' using ch(1) p(1) lev by (intro ups_replace [OF ups]) (auto simp: L)
  moreover have "content (pages t') L = ins_cell (k, right) (content (pages t) L)"
    unfolding h' using ch(2) ins(3) content_insert [OF up(4) [unfolded L] p(1) k] L by simp
  moreover have "k' \<in> routed_keys (pages t') L k' \<longleftrightarrow> k' = k \<or> k' \<in> routed_keys (pages t) L k'"
    if l0: "l = 0" and k': "LONG_MIN \<le> k'" for k'
  proof -
    have lm: "leftmost_ptr p = 0" "leftmost_ptr ?p' = 0" and rk: "right = k"
      using p(2) ins(1) l0 right by (auto simp: page_ok_def right_ok_def)
    have hd: "fst (hd (us @ [(f, a)])) \<le> k'" using up(2) k' L by (cases us) auto
    have lv: "live ?p' = ins_cell (k, k) (live p)" using ins(2) rk by simp
    show ?thesis
      unfolding h' L by (rule routed_replace
        [where h = "pages t" and p = p and k = k, OF up(3) [unfolded L] p(1) lm lv r [unfolded L] hd])
  qed
  moreover have "heap_ok base t'" unfolding t'_def by (rule heap_ok_write [OF hok p(1) ins(1)])
  ultimately show ?thesis using lev p(1) h' by (auto simp: level_step_def)
qed

text \<open>The heap after a split, before the parent is told.\<close>

definition linked :: "tree_state \<Rightarrow> int \<Rightarrow> page \<Rightarrow> page \<Rightarrow> tree_state" where
  "linked t a p' q = write_page (snd (new_page t q)) a p'"

lemma linked_sel [simp]:
  "pages (linked t a p' q) = (pages t)(next_page t \<mapsto> q, a \<mapsto> p')" "root (linked t a p' q) = root t"
  "height (linked t a p' q) = height t" "next_page (linked t a p' q) = next_page t + int PAGESIZE"
  by (simp_all add: linked_def write_page_def new_page_def)

lemma heap_ok_linked:
  assumes "heap_ok base t" "pages t a = Some p" "page_ok b l f hi sib p'" "page_ok b l f' hi' sib' q"
  shows "heap_ok base (linked t a p' q)"
proof -
  have "heap_ok base (snd (new_page t q))" using assms(1) page_ok_leaf [OF assms(4)] by (rule heap_ok_new)
  moreover have "pages (snd (new_page t q)) a = Some p"
    using assms(1,2) heap_ok_fresh [OF assms(1)] by (auto simp: new_page_def)
  ultimately show ?thesis unfolding linked_def using assms(3) by (rule heap_ok_write)
qed

text \<open>The level after a split of one of its pages, before the parent is told.\<close>

definition split_linked ::
  "int \<Rightarrow> nat \<Rightarrow> nat \<Rightarrow> int \<Rightarrow> int \<Rightarrow> tree_state \<Rightarrow> cell list \<Rightarrow> tree_state \<Rightarrow> int \<Rightarrow> bool" where
  "split_linked base b l k right t L t2 s \<longleftrightarrow>
     (let L2 = ins_cell (s, next_page t) L in
      heap_ok base t2 \<and> root t2 = root t \<and> height t2 = height t \<and> LONG_MIN \<le> s \<and> s < 2 ^ 63 \<and>
      chain_ok (pages t2) b l L2 (2 ^ 63) 0 \<and> distinct (map snd L2) \<and> fst (hd L2) = LONG_MIN \<and>
      content (pages t2) L2 = ins_cell (k, right) (content (pages t) L) \<and>
      (\<forall>x y. pages t x = Some y \<and> level y \<noteq> l \<longrightarrow> pages t2 x = Some y) \<and>
      (l = 0 \<longrightarrow> (\<forall>k'. LONG_MIN \<le> k' \<longrightarrow>
         (k' \<in> routed_keys (pages t2) L2 k' \<longleftrightarrow> k' = k \<or> k' \<in> routed_keys (pages t) L k'))))"

text \<open>The new fence goes behind the one of the page that was split, and the keys routed to either half are those of
  the page and the new one.\<close>

lemma ins_fence:
  assumes "csorted (us @ (f, a) # vs)" "f \<le> s" "\<forall>c \<in> set vs. s < fst c"
  shows "ins_cell (s, na) (us @ (f, a) # vs) = us @ (f, a) # (s, na) # vs"
proof -
  have "\<forall>c \<in> set us. fst c \<le> f" using assms(1) by (auto simp: cell_simps)
  then show ?thesis
    using assms(2,3) ins_cell_append_ge [of "us @ [(f, a)]" "(s, na)" vs] ins_cell_append_less_all [of vs "(s, na)" "[]"]
    by (simp add: ball_Un) (meson order_trans)
qed

lemma split_routed:
  assumes L: "csorted (us @ (f, a) # vs)" "fst (hd (us @ [(f, a)])) \<le> k'" "route k (us @ (f, a) # vs) = (f, a)"
      "distinct (map snd (us @ (f, a) # (s, na) # vs))"
    and p: "h a = Some p" "page_ok b 0 f hi sib p" and right: "right_ok 0 k right cs" and fs: "f \<le> s" "\<forall>c \<in> set vs. s < fst c"
    and ok: "page_ok b 0 f s na p'" "page_ok b 0 s hi sib q"
    and cells: "node_cells f p' @ node_cells s q = ins_cell (k, right) (node_cells f p)" and mem: "s \<in> fst ` set (live q)"
  shows "k' \<in> routed_keys (h(na \<mapsto> q, a \<mapsto> p')) (us @ (f, a) # (s, na) # vs) k' \<longleftrightarrow>
    k' = k \<or> k' \<in> routed_keys h (us @ (f, a) # vs) k'"
proof -
  have lm: "leftmost_ptr p = 0" "leftmost_ptr p' = 0" "leftmost_ptr q = 0" "right = k"
    using p(2) ok right by (auto simp: page_ok_def right_ok_def)
  have nc: "node_cells f p' = live p'" "node_cells s q = live q" "node_cells f p = live p"
    using lm by (simp_all add: node_cells_def)
  have lo: "\<forall>c \<in> set (live p'). fst c \<le> s" "\<forall>c \<in> set (live q). s \<le> fst c"
    using page_ok_cells(2) [OF ok(1)] page_ok_cells(2) [OF ok(2)] nc by simp_all
  show ?thesis
    by (rule routed_split [where h = h and k = k, OF L(1) fs L(2,4) p(1) lm(1-3) cells [unfolded nc lm(4)] lo mem L(3)])
qed

text \<open>The two halves of a split page, linked into the chain of their level.\<close>

lemma split_level:
  assumes hok: "heap_ok base t" and ups: "ups (pages t) b l (L # Ls) (root t)"
    and L: "L = us @ (f, a) # vs" and r: "route k L = (f, a)" and k: "f \<le> k" "k < hd_key vs (2 ^ 63)"
    and p: "pages t a = Some p" "page_ok b l f (hd_key vs (2 ^ 63)) (hd_adr vs 0) p"
    and right: "right_ok l k right (content (pages t) L)" and full: "\<not> count p < cardinality - 1"
    and b: "b = half \<or> b = 0 \<and> distinct (map fst (content (pages t) L))"
  obtains p' q s where "split_page p (next_page t) k right = (p', q, s, \<not> k < s)"
    "split_linked base b l k right t L (linked t a p' q) s"
proof -
  let ?na = "next_page t" and ?hi = "hd_key vs (2 ^ 63)"
  note up = ups_bottom [OF ups]
  have srt: "csorted L" by (rule chain_ok_fences(1) [OF up(4)])
  have vs: "chain_ok (pages t) b l vs (2 ^ 63) 0" using up(4) L by (simp add: chain_ok_append)
  have hi: "?hi \<le> 2 ^ 63" by (rule chain_ok_fences(3) [OF vs])
  have b': "b = half \<or> (distinct (map fst (live p)) \<and> b = 0)"
    using b live_distinct [of "pages t" us f a vs p] p(1) L by blast
  obtain p' q s where sp: "split_page p ?na k right = (p', q, s, \<not> k < s)"
    and ok: "page_ok b l f s ?na p'" "page_ok b l s ?hi (hd_adr vs 0) q" and fs: "f \<le> s" "s < ?hi"
    and cells: "node_cells f p' @ node_cells s q = ins_cell (k, right) (node_cells f p)"
    and mem: "l = 0 \<Longrightarrow> s \<in> fst ` set (live q)"
    using page_ok_split [OF p(2) k full hi right_ok_page [OF right [unfolded L] p(1)] b', of ?na] by metis
  have fresh: "?na \<notin> snd ` set (us @ (f, a) # vs)" "?na \<noteq> 0"
    using heap_ok_fresh [OF hok] chain_ok_page(1) [OF up(4)] unfolding L by (metis imageE option.distinct(1))+
  note ch = chain_split [OF up(4) [unfolded L] up(3) [unfolded L] fresh ok]
  have vs_gt: "\<forall>c \<in> set vs. s < fst c"
    using chain_ok_fences(2) [OF vs] fs(2) by (meson less_le_trans)
  have insL: "ins_cell (s, ?na) L = us @ (f, a) # (s, ?na) # vs"
    unfolding L by (rule ins_fence [OF srt [unfolded L] fs(1) vs_gt])
  have "content ((pages t)(?na \<mapsto> q, a \<mapsto> p')) (us @ (f, a) # (s, ?na) # vs)
      = ins_cell (k, right) (content (pages t) L)"
    using ch(2) cells content_insert [OF up(4) [unfolded L] p(1) k, of right] L
    by (metis append.assoc)
  moreover have "LONG_MIN \<le> f"
    using chain_ok_fences(2) [OF up(4)] up(1,2) L by (cases us) (auto simp: hd_key_def)
  moreover have "k' \<in> routed_keys ((pages t)(?na \<mapsto> q, a \<mapsto> p')) (us @ (f, a) # (s, ?na) # vs) k'
       \<longleftrightarrow> k' = k \<or> k' \<in> routed_keys (pages t) L k'" if l0: "l = 0" and k': "LONG_MIN \<le> k'" for k'
  proof -
    have hd: "fst (hd (us @ [(f, a)])) \<le> k'" using up(2) k' L by (cases us) auto
    show ?thesis
      unfolding L by (rule split_routed [where h = "pages t" and k = k and us = us and vs = vs, OF srt [unfolded L] hd r [unfolded L] ch(3) p [unfolded l0] right [unfolded l0] fs(1) vs_gt
        ok [unfolded l0] cells mem [OF l0]])
  qed
  moreover have "\<forall>x y. pages t x = Some y \<and> level y \<noteq> l \<longrightarrow> pages (linked t a p' q) x = Some y"
    using p heap_ok_fresh [OF hok] by (auto simp: page_ok_def)
  moreover have "fst (hd (us @ (f, a) # (s, ?na) # vs)) = LONG_MIN" using up(2) L by (cases us) auto
  ultimately have "split_linked base b l k right t L (linked t a p' q) s"
    unfolding split_linked_def Let_def insL linked_sel
    using heap_ok_linked [OF hok p(1) ok] ch(1,3) fs hi by simp
  then show thesis using that sp by blast
qed

section \<open>Insertion through the levels\<close>

lemma routed_frame:
  "L \<noteq> [] \<Longrightarrow> fst (hd L) \<le> k \<Longrightarrow> \<forall>c \<in> set L. h' (snd c) = h (snd c) \<Longrightarrow>
   routed_keys h' L k = routed_keys h L k"
  using route_in_set [of L k] by (simp add: routed_keys_def page_cells_def)

lemma page_ctor_grow_ok:
  assumes "left \<noteq> 0" "right \<noteq> 0" "left \<noteq> right" "LONG_MIN \<le> s" "s < 2 ^ 63"
  shows "page_ok half (Suc l) LONG_MIN (2 ^ 63) 0 (page_ctor_grow left s right (Suc l))"
    "node_cells LONG_MIN (page_ctor_grow left s right (Suc l)) = [(LONG_MIN, left), (s, right)]"
proof -
  let ?p = "page_ctor_grow left s right (Suc l)"
  have rs: "records ?p = \<lparr>ekey = s, eptr = right\<rparr> # replicate 27 entry_ctor"
    by (simp add: page_ctor_grow_def cardinality_val set_ptr_def set_key_def slot_def entry_ctor_def
        numeral_eq_Suc)
  have sel: "last_index ?p = 0" "leftmost_ptr ?p = left" "level ?p = Suc l" "\<not> is_deleted ?p" "sibling_ptr ?p = 0"
    by (simp_all add: page_ctor_grow_def)
  have live: "live ?p = [(s, right)]" by (simp add: live_def rs sel(1) cell_of_def)
  have "page_inv ?p"
    using assms(2) by (simp add: page_inv_def rs sel(1) cardinality_val entry_ctor_def)
  moreover have "keys_from LONG_MIN (records ?p)"
    using assms(4) by (simp add: keys_from_def rs entry_ctor_def LONG_MIN_def LONG_MAX_def)
  ultimately show "page_ok half (Suc l) LONG_MIN (2 ^ 63) 0 ?p"
    using assms sel by (simp add: page_ok_def live csorted_def child_cells_def LONG_MIN_def)
  show "node_cells LONG_MIN ?p = [(LONG_MIN, left), (s, right)]"
    using assms(1) sel live by (simp add: node_cells_def)
qed

lemma store_room:
  "pages t a = Some p \<Longrightarrow> \<not> is_deleted p \<Longrightarrow> go_sibling (pages t) p k 0 = Some False \<Longrightarrow>
   count p < cardinality - 1 \<Longrightarrow>
   store (Suc n) t a k right 0 = Some (a, write_page t a (fst (insert_key p k right (count p) True)))"
  by simp

lemma store_full:
  assumes "pages t a = Some p" "\<not> is_deleted p" "go_sibling (pages t) p k 0 = Some False"
    "\<not> count p < cardinality - 1" "split_page p (next_page t) k right = (p', q, s, \<not> k < s)"
  shows "store (Suc n) t a k right 0 =
    (let ret = (if k < s then a else next_page t); t2 = linked t a p' q in
     if root t = a
     then Some (ret, setNewRoot (snd (new_page t2 (page_ctor_grow a s (next_page t) (level p + 1)))) (next_page t2))
     else do { t3 \<leftarrow> btree_insert_internal n t2 s (next_page t) (level p + 1); Some (ret, t3) })"
  using assms by (simp add: Let_def new_page_def write_page_def linked_def)

lemma level_step_grow:
  assumes sl: "split_linked base b l k right t [(LONG_MIN, a)] t2 s" and r: "root t = a"
  defines "t' \<equiv> setNewRoot (snd (new_page t2 (page_ctor_grow a s (next_page t) (Suc l)))) (next_page t2)"
  shows "level_step base b l k right t [(LONG_MIN, a)] [] t'
    (ins_cell (s, next_page t) [(LONG_MIN, a)]) [[(LONG_MIN, next_page t2)]]"
proof -
  let ?g = "page_ctor_grow a s (next_page t) (Suc l)" and ?L = "[(LONG_MIN, a), (s, next_page t)]"
  have L: "ins_cell (s, next_page t) [(LONG_MIN, a)] = ?L"
    using sl by (simp add: split_linked_def Let_def)
  have hok: "heap_ok base t2" and s: "LONG_MIN \<le> s" "s < 2 ^ 63"
    and ch: "chain_ok (pages t2) b l ?L (2 ^ 63) 0" and d: "distinct (map snd ?L)"
    using sl unfolding split_linked_def Let_def L by blast+
  have nz: "a \<noteq> 0" "next_page t \<noteq> 0" "a \<noteq> next_page t" using ch d by (auto simp: node_ok_def)
  note g = page_ctor_grow_ok [OF nz s, of l]
  note fresh = heap_ok_fresh [OF hok]
  have h': "pages t' = (pages t2)(next_page t2 \<mapsto> ?g)" "root t' = next_page t2" "height t' = Suc (height t2)"
    by (simp_all add: t'_def setNewRoot_def new_page_def)
  have fr: "\<forall>x p. pages t2 x = Some p \<longrightarrow> pages t' x = Some p" using fresh h'(1) by auto
  then have L_fr: "\<forall>c \<in> set ?L. pages t' (snd c) = pages t2 (snd c)"
    using chain_ok_page(1) [OF ch] by metis
  have "heap_ok base (snd (new_page t2 ?g))"
    by (rule heap_ok_new [OF hok page_ok_leaf [OF g(1)]])
  then have "heap_ok base t'" by (simp add: t'_def setNewRoot_def heap_ok_def)
  moreover have "ups (pages t') b l [?L, [(LONG_MIN, next_page t2)]] (root t')"
  proof -
    have "chain_ok (pages t') half (Suc l) [(LONG_MIN, next_page t2)] (2 ^ 63) 0"
      using g(1) fresh h'(1) by (simp add: node_ok_def)
    moreover have "content (pages t') [(LONG_MIN, next_page t2)] = ?L"
      using g(2) h'(1) by (simp add: page_cells_def)
    moreover have "chain_ok (pages t') b l ?L (2 ^ 63) 0"
      using ch chain_ok_frame [OF L_fr] by blast
    ultimately show ?thesis using d h'(2) by (simp del: chain_ok.simps content_simps)
  qed
  moreover have "content (pages t') ?L = content (pages t2) ?L" by (rule content_frame [OF L_fr])
  moreover have "routed_keys (pages t') ?L k' = routed_keys (pages t2) ?L k'" if "LONG_MIN \<le> k'" for k'
    by (rule routed_frame [OF _ _ L_fr]) (simp_all add: that)
  ultimately show ?thesis
    using sl h'(3) fr unfolding level_step_def split_linked_def Let_def L by auto
qed

lemma level_step_parent:
  assumes ups: "ups (pages t) b l (L # M # Ls) (root t)" and sl: "split_linked base b l k right t L t2 s"
    and stp: "level_step base half (Suc l) s (next_page t) t2 M Ls t' M' Ls'"
  shows "level_step base b l k right t L (M # Ls) t' (ins_cell (s, next_page t) L) (M' # Ls')"
proof -
  let ?L = "ins_cell (s, next_page t) L"
  have up1: "ups (pages t) half (Suc l) (M # Ls) (root t)" and cM: "content (pages t) M = L"
    using ups by auto
  have sl': "chain_ok (pages t2) b l ?L (2 ^ 63) 0" "distinct (map snd ?L)" "fst (hd ?L) = LONG_MIN"
    "\<forall>x y. pages t x = Some y \<and> level y \<noteq> l \<longrightarrow> pages t2 x = Some y"
    using sl unfolding split_linked_def Let_def by blast+
  have "\<forall>c \<in> set M. pages t2 (snd c) = pages t (snd c)"
    using ups_bottom(4) [OF up1] sl'(4) chain_ok_page(1) by (metis n_not_Suc_n)
  then have "content (pages t2) M = content (pages t) M" by (rule content_frame)
  then have cM': "content (pages t') M' = ?L" using stp cM by (simp add: level_step_def)
  have fr: "\<forall>x y. pages t2 x = Some y \<and> level y < Suc l \<longrightarrow> pages t' x = Some y"
    using stp by (simp add: level_step_def)
  then have L_fr: "\<forall>c \<in> set ?L. pages t' (snd c) = pages t2 (snd c)"
    using chain_ok_page(1) [OF sl'(1)] by (metis lessI)
  have "ups (pages t') b l (?L # M' # Ls') (root t')"
    using chain_ok_frame [where b = b and l = l, OF L_fr] sl' cM' stp by (simp add: level_step_def)
  moreover have "content (pages t') ?L = content (pages t2) ?L" by (rule content_frame [OF L_fr])
  moreover have "routed_keys (pages t') ?L k' = routed_keys (pages t2) ?L k'" if "LONG_MIN \<le> k'" for k'
    by (rule routed_frame [OF _ _ L_fr]) (simp_all add: that sl'(3))
  moreover have "pages t' x = Some y" if "pages t x = Some y" "level y < l" for x y
    using that sl'(4) fr by (metis less_SucI less_irrefl)
  ultimately show ?thesis
    using sl stp unfolding level_step_def split_linked_def Let_def by simp
qed

lemma split_linked_parent:
  assumes ups: "ups (pages t) b l (L # M # Ls) (root t)" and sl: "split_linked base b l k right t L t2 s"
    and hok: "heap_ok base t"
  shows "ups (pages t2) half (Suc l) (M # Ls) (root t2)" "right_ok (Suc l) s (next_page t) (content (pages t2) M)"
proof -
  have up1: "ups (pages t) half (Suc l) (M # Ls) (root t)" and cM: "content (pages t) M = L"
    using ups by auto
  have fr: "\<forall>x y. pages t x = Some y \<and> level y \<noteq> l \<longrightarrow> pages t2 x = Some y" "root t2 = root t"
    using sl unfolding split_linked_def Let_def by blast+
  show "ups (pages t2) half (Suc l) (M # Ls) (root t2)"
    unfolding fr(2) using fr(1) by (intro ups_frame [OF up1]) force
  have "\<forall>c \<in> set M. pages t2 (snd c) = pages t (snd c)"
    using ups_bottom(4) [OF up1] fr(1) chain_ok_page(1) by (metis n_not_Suc_n)
  then have "content (pages t2) M = content (pages t) M" by (rule content_frame)
  moreover have "next_page t \<notin> snd ` set L"
    using heap_ok_fresh [OF hok] chain_ok_page(1) [OF ups_bottom(4) [OF ups]]
    by (metis imageE option.distinct(1))
  ultimately show "right_ok (Suc l) s (next_page t) (content (pages t2) M)"
    using cM heap_ok_fresh [OF hok] by (simp add: right_ok_def)
qed

lemma insert_internal_step:
  assumes "ups (pages t) half (Suc l) (M # Ls) (root t)" "LONG_MIN \<le> s" "s < 2 ^ 63"
    "store n t (snd (route s M)) s right 0 = Some (ret, t')" "ret \<noteq> 0"
  shows "btree_insert_internal (Suc n) t s right (Suc l) = Some t'"
  using assms ups_root [OF assms(1)] find_level_route [OF assms(1-3)] by auto

text \<open>One call of \<^verbatim>\<open>store\<close> on the page a key is routed to: it inserts, or splits and hands the
  split key to a new root or to the level above.\<close>

lemma store_one_level:
  assumes hok: "heap_ok base t" and ups: "ups (pages t) b l (L # Ls) (root t)"
    and k: "LONG_MIN \<le> k" "k < 2 ^ 63" and right: "right_ok l k right (content (pages t) L)"
    and b: "b = half \<or> b = 0 \<and> distinct (map fst (content (pages t) L))"
  obtains (room) ret t' where "store (Suc n) t (snd (route k L)) k right 0 = Some (ret, t')" "ret \<noteq> 0"
      "level_step base b l k right t L Ls t' L Ls"
  | (full) ret t2 s where "ret \<noteq> 0" "split_linked base b l k right t L t2 s"
      "store (Suc n) t (snd (route k L)) k right 0 =
        (if Ls = []
         then Some (ret, setNewRoot (snd (new_page t2 (page_ctor_grow (root t) s (next_page t) (Suc l)))) (next_page t2))
         else do { t3 \<leftarrow> btree_insert_internal n t2 s (next_page t) (Suc l); Some (ret, t3) })"
proof -
  note up = ups_bottom [OF ups]
  obtain us f a vs p where L: "L = us @ (f, a) # vs" and r: "route k L = (f, a)"
    and fk: "f \<le> k" "k < hd_key vs (2 ^ 63)" and p: "pages t a = Some p" and a0: "a \<noteq> 0"
    and ok: "page_ok b l f (hd_key vs (2 ^ 63)) (hd_adr vs 0) p"
    and sib: "sib_ok (pages t) (hd_adr vs 0) (hd_key vs (2 ^ 63))"
    using chain_route [OF up(4,1)] up(2) k by metis
  note go = go_sibling_no [OF ok sib fk(2)]
  have lev: "level p = l" "\<not> is_deleted p" using ok by (auto simp: page_ok_def)
  show thesis
  proof (cases "count p < cardinality - 1")
    case True
    show ?thesis
      using room store_room [OF p lev(2) go True, of n right] a0 r
        level_step_room [OF hok ups L r fk p ok right True] by (metis snd_conv)
  next
    case False
    obtain p' q s where sp: "split_page p (next_page t) k right = (p', q, s, \<not> k < s)"
      and sl: "split_linked base b l k right t L (linked t a p' q) s"
      by (rule split_level [OF hok ups L r fk p ok right False b]) blast
    have rt: "root t = a \<longleftrightarrow> Ls = []" using ups_root [OF ups] p lev L ups by (cases Ls) (auto simp: append_eq_Cons_conv)
    show ?thesis
      using full [of "if k < s then a else next_page t", OF _ sl] a0 heap_ok_fresh [OF hok] r lev(1) rt
        store_full [OF p lev(2) go False sp, of n] by (simp add: Let_def split: if_splits)
  qed
qed

theorem store_level:
  assumes "heap_ok base t" "ups (pages t) b l (L # Ls) (root t)" "LONG_MIN \<le> k" "k < 2 ^ 63"
    "right_ok l k right (content (pages t) L)"
    "b = half \<or> b = 0 \<and> distinct (map fst (content (pages t) L))" "2 * length Ls + 1 \<le> n"
  shows "\<exists>ret t' L' Ls'. store n t (snd (route k L)) k right 0 = Some (ret, t') \<and> ret \<noteq> 0 \<and>
    level_step base b l k right t L Ls t' L' Ls'"
  using assms
proof (induction Ls arbitrary: t b l L k right n)
  case (Nil t b l L k right n)
  then obtain n' where n: "n = Suc n'" by (cases n) auto
  have L: "L = [(LONG_MIN, root t)]" using Nil.prems(2) by simp
  show ?case
  proof (rule store_one_level [OF Nil.prems(1-6), of n'], goal_cases)
    case (2 ret t2 s)
    then show ?case using level_step_grow [OF 2(2) [unfolded L] refl] n L by (auto simp del: store.simps)
  qed (use n in blast)
next
  case (Cons M Ls t b l L k right n)
  obtain n' where n: "n = Suc (Suc n')" "2 * length Ls + 1 \<le> n'"
    using Cons.prems(7) by (cases n; cases "n - 1") auto
  show ?case
  proof (rule store_one_level [OF Cons.prems(1-6), of "Suc n'"], goal_cases)
    case (2 ret t2 s)
    note up2 = split_linked_parent [OF Cons.prems(2) 2(2) Cons.prems(1)]
    have s: "LONG_MIN \<le> s" "s < 2 ^ 63" "heap_ok base t2" using 2(2) by (auto simp: split_linked_def Let_def)
    obtain ret' t' M' Ls' where st: "store n' t2 (snd (route s M)) s (next_page t) 0 = Some (ret', t')" "ret' \<noteq> 0"
      and stp: "level_step base half (Suc l) s (next_page t) t2 M Ls t' M' Ls'"
      using Cons.IH [OF s(3) up2(1) s(1,2) up2(2) _ n(2)] by auto
    have "btree_insert_internal (Suc n') t2 s (next_page t) (Suc l) = Some t'"
      by (rule insert_internal_step [OF up2(1) s(1,2) st])
    then show ?case
      using 2(1,3) level_step_parent [OF Cons.prems(2) 2(2) stp] n by (auto simp del: store.simps)
  qed (use n in blast)
qed

end
