(* ===== verification/BTree_Ops.thy ===== *)
theory BTree_Ops
  imports BTree_Correct Key_Index
begin

text \<open>
  The operations of the global tree on its set of keys: search, insert and delete return on every
  well-formed tree (with the fuel of \<open>tree_fuel\<close>), keep it well-formed, and act on \<open>key_set\<close> as a
  set does, with the two exceptions of the code: a key inserted twice is stored twice, and deleting
  a key that is not there returns only from the last leaf.
\<close>

section \<open>The leaf chain of a well-formed tree\<close>

lemma chain_down_Suc: "chain_down h (Suc n) L = content h (chain_down h n L)"
  by (induction n arbitrary: L) auto

lemma ups_chain_down: "ups h b l (L # Ls) r \<Longrightarrow> chain_down h (length Ls) [(LONG_MIN, r)] = L"
proof (induction Ls arbitrary: L l b)
  case (Cons M Ls)
  then have "ups h half (Suc l) (M # Ls) r" "content h M = L" by auto
  then show ?case using Cons.IH chain_down_Suc by (metis length_Cons)
qed simp

lemma ups_leaf_chain: "ups (pages t) b 0 (L # Ls) (root t) \<Longrightarrow> leaf_chain t = L"
  using ups_root [of "pages t" b 0 L Ls "root t"] ups_chain_down [of "pages t" b 0 L Ls "root t"]
  by (auto simp: leaf_chain_def)

lemma tree_okE:
  assumes "tree_ok base b t"
  obtains Ls where "heap_ok base t" "ups (pages t) b 0 (leaf_chain t # Ls) (root t)"
    "height t = Suc (length Ls)" "tree_fuel t = 2 * length Ls + 3"
proof -
  obtain L Ls where "heap_ok base t" "ups (pages t) b 0 (L # Ls) (root t)" "height t = Suc (length Ls)"
    using assms by (auto simp: tree_ok_def)
  moreover from this have "tree_fuel t = 2 * length Ls + 3"
    using ups_root [of "pages t" b 0 L Ls "root t"] by (auto simp: tree_fuel_def)
  ultimately show thesis using that ups_leaf_chain by metis
qed

lemma tree_okI:
  "heap_ok base t \<Longrightarrow> ups (pages t) b 0 (L # Ls) (root t) \<Longrightarrow> height t = Suc (length Ls) \<Longrightarrow> tree_ok base b t"
  by (auto simp: tree_ok_def)

section \<open>Insertion\<close>

definition uniq :: "tree_state \<Rightarrow> bool" where
  "uniq t \<longleftrightarrow> distinct (map fst (tree_cells t))"

lemma insert_ok:
  assumes ok: "tree_ok base b t" and k: "LONG_MIN \<le> k" "k < 2 ^ 63" "k \<noteq> 0"
    and b: "b = half \<or> b = 0 \<and> uniq t" and n: "tree_fuel t \<le> n"
  obtains t' where "btree_insert n t k k = Some t'" "tree_ok base b t'"
    "tree_cells t' = ins_cell (k, k) (tree_cells t)" "key_set t' = insert k (key_set t)"
proof -
  let ?L = "leaf_chain t"
  obtain Ls where hok: "heap_ok base t" and ups: "ups (pages t) b 0 (?L # Ls) (root t)"
    and h: "height t = Suc (length Ls)" and fuel: "tree_fuel t = 2 * length Ls + 3"
    using tree_okE [OF ok] by blast
  obtain n' where n': "n = Suc n'" "2 * length Ls + 1 \<le> n'" using n fuel by (cases n) auto
  have r: "right_ok 0 k k (content (pages t) ?L)" using k(3) by (simp add: right_ok_def)
  obtain ret t' L' Ls' where st: "store n' t (snd (route k ?L)) k k 0 = Some (ret, t')" "ret \<noteq> 0"
    and stp: "level_step base b 0 k k t ?L Ls t' L' Ls'"
    using store_level [OF hok ups k(1,2) r b [unfolded uniq_def tree_cells_def] n'(2)] by blast
  have st': "btree_insert n t k k = Some t'"
    using st find_leaf_route [OF hok ups k(1,2)] n' by simp
  have up': "ups (pages t') b 0 (L' # Ls') (root t')" using stp by (simp add: level_step_def)
  have L': "leaf_chain t' = L'" by (rule ups_leaf_chain [OF up'])
  have "tree_ok base b t'" using stp h by (intro tree_okI [OF _ up']) (auto simp: level_step_def)
  moreover have "tree_cells t' = ins_cell (k, k) (tree_cells t)"
    using stp by (simp add: level_step_def tree_cells_def L')
  moreover have "key_set t' = insert k (key_set t)"
    using stp k by (auto simp: level_step_def key_set_def L')
  ultimately show thesis using that st' by blast
qed

section \<open>The leaf a key is routed to\<close>

lemma tree_leaf:
  assumes ok: "tree_ok base b t" and k: "LONG_MIN \<le> k" "k < 2 ^ 63"
  obtains us f a vs p where "leaf_chain t = us @ (f, a) # vs" "route k (leaf_chain t) = (f, a)"
    "find_leaf (pages t) (root t) k = Some a" "pages t a = Some p" "a \<noteq> 0" "f \<le> k" "k < hd_key vs (2 ^ 63)"
    "page_ok b 0 f (hd_key vs (2 ^ 63)) (hd_adr vs 0) p"
    "k \<in> key_set t \<longleftrightarrow> k \<in> fst ` set (live p)" "sibling_ptr p \<noteq> 0 \<longleftrightarrow> vs \<noteq> []"
    "pages t k = None \<Longrightarrow> leaf_walk (pages t) a k =
       Some (if k \<notin> key_set t \<and> vs = [] then 0 else a, if k \<in> key_set t then k else 0)"
proof -
  let ?L = "leaf_chain t"
  obtain Ls where hok: "heap_ok base t" and ups: "ups (pages t) b 0 (?L # Ls) (root t)"
    using tree_okE [OF ok] by blast
  note up = ups_bottom [OF ups]
  obtain us f a vs p where L: "?L = us @ (f, a) # vs" and r: "route k ?L = (f, a)"
    and fk: "f \<le> k" "k < hd_key vs (2 ^ 63)" and p: "pages t a = Some p" and a0: "a \<noteq> 0"
    and pok: "page_ok b 0 f (hd_key vs (2 ^ 63)) (hd_adr vs 0) p"
    and sib: "sib_ok (pages t) (hd_adr vs 0) (hd_key vs (2 ^ 63))"
    using chain_route [OF up(4,1)] up(2) k by metis
  have lm: "leftmost_ptr p = 0" "sibling_ptr p = hd_adr vs 0" using pok by (auto simp: page_ok_def)
  have mem: "k \<in> key_set t \<longleftrightarrow> k \<in> fst ` set (live p)"
    using k r p lm by (simp add: key_set_def routed_keys_def page_cells_def node_cells_def)
  have vs: "vs \<noteq> [] \<Longrightarrow> hd_adr vs 0 \<noteq> 0 \<and> pages t (hd_adr vs 0) \<noteq> None"
    using up(4) L by (cases vs) (auto simp: chain_ok_append node_ok_def)
  have nz: "k \<in> key_set t \<Longrightarrow> k \<noteq> 0" using mem pok by (auto simp: page_ok_def leaf_cells_def)
  have "leaf_walk (pages t) a k =
      Some (if k \<notin> key_set t \<and> vs = [] then 0 else a, if k \<in> key_set t then k else 0)"
    if "pages t k = None"
    using that p linear_search_leaf [OF pok sib fk(2)] mem vs lm(2) nz
    by (subst leaf_walk.simps) (cases "vs = []"; auto)
  then show thesis
    using that [OF L r _ p a0 fk pok mem] find_leaf_route [OF hok ups k] r vs lm(2)
    by (cases "vs = []") auto
qed

lemma search_ok:
  assumes "tree_ok base b t" "LONG_MIN \<le> k" "k < 2 ^ 63" "pages t k = None"
  shows "btree_search t k = Some (if k \<in> key_set t then k else 0)"
  by (rule tree_leaf [OF assms(1-3)]) (simp add: btree_search_def assms(4))

section \<open>Deletion\<close>

lemma page_ok_remove:
  assumes ok: "page_ok b 0 f hi sib p"
  shows "page_ok b 0 f hi sib (fst (remove_key p k))" "live (fst (remove_key p k)) = del_cell k (live p)"
    "snd (remove_key p k) \<longleftrightarrow> k \<in> fst ` set (live p)"
proof -
  let ?p' = "fst (remove_key p k)"
  have inv: "page_inv p" using ok by (simp add: page_ok_def)
  have *: "live ?p' = del_cell k (live p) \<and> page_inv ?p' \<and> keys_from f (records ?p') \<and>
      (snd (remove_key p k) \<longleftrightarrow> k \<in> fst ` set (live p))"
  proof (cases "k \<in> fst ` set (live p)")
    case True
    then show ?thesis using remove_key_hit(1-3) [OF inv True] remove_key_hit(4) [OF inv True, of f] ok by (simp add: page_ok_def)
  next
    case False
    then show ?thesis
      using remove_key_miss [OF inv False] ok by (simp add: page_ok_def live_def page_inv_def)
  qed
  then show "live ?p' = del_cell k (live p)" "snd (remove_key p k) \<longleftrightarrow> k \<in> fst ` set (live p)" by auto
  have "\<forall>c \<in> set (del_cell k (live p)). fst c \<le> hi"
    using ok set_del_cell [of k "live p"] by (auto simp: page_ok_def)
  moreover have "length (filter (\<lambda>c. hi \<le> fst c) (del_cell k (live p))) \<le> b"
    using ok filter_del_cell_length [of "\<lambda>c. hi \<le> fst c" k "live p"] by (simp add: page_ok_def)
  ultimately show "page_ok b 0 f hi sib ?p'" using * ok by (simp add: page_ok_def)
qed

text \<open>The tree after \<^verbatim>\<open>remove\<close> on the leaf of a key.\<close>

text \<open>The keys routed to a page are those of its cells, before and after the page is replaced.\<close>

lemma routed_replaced:
  assumes L: "L = us @ (f, a) # vs" and d: "distinct (map snd L)" and hd: "L \<noteq> []" "fst (hd L) \<le> k'" and lm: "leftmost_ptr p' = 0"
  shows "routed_keys (h(a \<mapsto> p')) L k' = (if route k' L = (f, a) then fst ` set (live p') else routed_keys h L k')"
proof (cases "route k' L = (f, a)")
  case True
  then show ?thesis using lm by (simp add: routed_keys_def page_cells_def node_cells_def)
next
  case False
  have "route k' L \<in> set L" using route_in_set hd by metis
  then have "snd (route k' L) \<in> snd ` (set us \<union> set vs)" using False L by auto
  moreover have "a \<notin> snd ` (set us \<union> set vs)" using d L by auto
  ultimately have "snd (route k' L) \<noteq> a" by metis
  then show ?thesis using False by (simp add: routed_keys_def page_cells_def)
qed

lemma remove_ok:
  assumes ok: "tree_ok base b t" and k: "LONG_MIN \<le> k" "k < 2 ^ 63"
    and L: "leaf_chain t = us @ (f, a) # vs" "route k (leaf_chain t) = (f, a)"
    and p: "pages t a = Some p" "page_ok b 0 f (hd_key vs (2 ^ 63)) (hd_adr vs 0) p"
  defines "t' \<equiv> write_page t a (fst (remove_key p k))"
  shows "tree_ok base b t'" "leaf_chain t' = leaf_chain t" "\<And>x. pages t' x = None \<longleftrightarrow> pages t x = None"
    "tree_cells t' = content (pages t) us @ del_cell k (live p) @ content (pages t) vs"
    "key_set t' - {k} = key_set t - {k}" "k \<in> key_set t' \<longleftrightarrow> k \<in> fst ` set (del_cell k (live p))"
proof -
  let ?L = "leaf_chain t" and ?p' = "fst (remove_key p k)"
  obtain Ls where hok: "heap_ok base t" and ups: "ups (pages t) b 0 (?L # Ls) (root t)"
    and h: "height t = Suc (length Ls)" using tree_okE [OF ok] by blast
  note up = ups_bottom [OF ups] and rm = page_ok_remove [OF p(2), of k]
  note ch = chain_replace [OF up(4) [unfolded L(1)] up(3) [unfolded L(1)] rm(1)]
  have h': "pages t' = (pages t)(a \<mapsto> ?p')" "root t' = root t" "height t' = height t"
    by (simp_all add: t'_def write_page_def)
  have lev: "level p = 0" and lm: "leftmost_ptr p = 0" "leftmost_ptr ?p' = 0"
    using p(2) rm(1) by (auto simp: page_ok_def)
  have up': "ups (pages t') b 0 (?L # Ls) (root t')"
    unfolding h' using ch(1) p(1) lev by (intro ups_replace [OF ups]) (auto simp: L)
  show tok: "tree_ok base b t'"
    using heap_ok_write [OF hok p(1) rm(1)] h h' up' by (intro tree_okI) (auto simp: t'_def)
  show L': "leaf_chain t' = ?L" by (rule ups_leaf_chain [OF up'])
  show "\<And>x. pages t' x = None \<longleftrightarrow> pages t x = None" using p(1) h'(1) by auto
  show "tree_cells t' = content (pages t) us @ del_cell k (live p) @ content (pages t) vs"
    unfolding tree_cells_def L' using ch(2) L(1) h'(1) rm(2) lm by (simp add: node_cells_def)
  have routed: "k' \<in> routed_keys (pages t') ?L k' \<longleftrightarrow>
      (if route k' ?L = (f, a) then k' \<in> fst ` set (del_cell k (live p)) else k' \<in> routed_keys (pages t) ?L k')"
    if "LONG_MIN \<le> k'" for k'
    using routed_replaced [OF L(1) up(3,1) _ lm(2), of k' "pages t"] that h'(1) rm(2) up(2) by simp
  show "k \<in> key_set t' \<longleftrightarrow> k \<in> fst ` set (del_cell k (live p))"
    using routed [OF k(1)] k L(2) by (simp add: key_set_def L')
  have "k' \<in> fst ` set (del_cell k (live p)) \<longleftrightarrow> k' \<in> fst ` set (live p)" if "k' \<noteq> k" for k'
    using that del_cell_other [of _ "live p" k] set_del_cell [of k "live p"] by fastforce
  moreover have "routed_keys (pages t) ?L k' = fst ` set (live p)" if "route k' ?L = (f, a)" for k'
    using that p(1) lm by (simp add: routed_keys_def page_cells_def node_cells_def)
  ultimately have "k' \<in> routed_keys (pages t') ?L k' \<longleftrightarrow> k' \<in> routed_keys (pages t) ?L k'"
    if "k' \<noteq> k" "LONG_MIN \<le> k'" for k'
    using that routed [of k'] by auto
  then show "key_set t' - {k} = key_set t - {k}" unfolding key_set_def L' by auto
qed

lemma mset_del_cell: "k \<in> fst ` set xs \<Longrightarrow> \<exists>v. (k, v) \<in> set xs \<and> mset xs = add_mset (k, v) (mset (del_cell k xs))"
  by (induction xs) (auto simp: add_mset_commute)

lemma delete_hit:
  assumes ok: "tree_ok base b t" and mem: "k \<in> key_set t" and na: "pages t k = None"
  obtains t' where "btree_delete (Suc n) t k = Some t'" "tree_ok base b t'"
    "mset (tree_cells t) = add_mset (k, k) (mset (tree_cells t'))"
    "key_set t' - {k} = key_set t - {k}" "\<And>x. pages t' x = None \<longleftrightarrow> pages t x = None"
proof -
  have k: "LONG_MIN \<le> k" "k < 2 ^ 63" using mem by (auto simp: key_set_def)
  obtain us f a vs p where L: "leaf_chain t = us @ (f, a) # vs" "route k (leaf_chain t) = (f, a)"
    and fl: "find_leaf (pages t) (root t) k = Some a" and p: "pages t a = Some p" and a0: "a \<noteq> 0"
    and pok: "page_ok b 0 f (hd_key vs (2 ^ 63)) (hd_adr vs 0) p"
    and km: "k \<in> fst ` set (live p)" and lw: "leaf_walk (pages t) a k = Some (a, k)"
    by (rule tree_leaf [OF ok k]) (use mem na in simp)
  let ?t = "write_page t a (fst (remove_key p k))"
  note rm = remove_ok [OF ok k L p pok]
  have "btree_delete (Suc n) t k = Some ?t"
    using fl lw a0 p km page_ok_remove(3) [OF pok, of k] by (simp add: remove_page_def)
  moreover have "mset (tree_cells t) = add_mset (k, k) (mset (tree_cells ?t))"
  proof -
    obtain v where v: "(k, v) \<in> set (live p)" "mset (live p) = add_mset (k, v) (mset (del_cell k (live p)))"
      using mset_del_cell [OF km] by blast
    have "v = k" using v(1) pok by (auto simp: page_ok_def leaf_cells_def)
    moreover have "tree_cells t = content (pages t) us @ live p @ content (pages t) vs"
      using p pok L(1) by (simp add: tree_cells_def page_cells_def node_cells_def page_ok_def)
    ultimately show ?thesis using rm(4) v(2) by simp
  qed
  ultimately show thesis using that rm(1,3,5) by blast
qed

text \<open>Deleting an absent key: from the last leaf the code returns and leaves the tree alone, from
  any other leaf it retries forever.\<close>

lemma delete_miss_last:
  assumes ok: "tree_ok base b t" and k: "LONG_MIN \<le> k" "k < 2 ^ 63" and mem: "k \<notin> key_set t"
    and na: "pages t k = None" and last: "route k (leaf_chain t) = last (leaf_chain t)"
  shows "btree_delete (Suc n) t k = Some t"
proof (rule tree_leaf [OF ok k])
  fix us f a vs p
  assume L: "leaf_chain t = us @ (f, a) # vs" "route k (leaf_chain t) = (f, a)"
    and fl: "find_leaf (pages t) (root t) k = Some a"
    and lw: "pages t k = None \<Longrightarrow> leaf_walk (pages t) a k =
       Some (if k \<notin> key_set t \<and> vs = [] then 0 else a, if k \<in> key_set t then k else 0)"
  have "distinct (map snd (leaf_chain t))" using tree_okE [OF ok] ups_bottom(3) by metis
  then have "vs = []" using L last by (cases vs rule: rev_cases) auto
  then show ?thesis using fl lw mem na by simp
qed

lemma delete_miss_loops:
  assumes "tree_ok base b t" "LONG_MIN \<le> k" "k < 2 ^ 63" "k \<notin> key_set t" "pages t k = None"
    "route k (leaf_chain t) \<noteq> last (leaf_chain t)"
  shows "btree_delete n t k = None"
  using assms
proof (induction n arbitrary: t)
  case (Suc n)
  show ?case
  proof (rule tree_leaf [OF Suc.prems(1-3)])
    fix us f a vs p
    assume L: "leaf_chain t = us @ (f, a) # vs" "route k (leaf_chain t) = (f, a)"
      and fl: "find_leaf (pages t) (root t) k = Some a" and p: "pages t a = Some p" and a0: "a \<noteq> 0"
      and pok: "page_ok b 0 f (hd_key vs (2 ^ 63)) (hd_adr vs 0) p"
      and km: "k \<in> key_set t \<longleftrightarrow> k \<in> fst ` set (live p)"
      and lw: "pages t k = None \<Longrightarrow> leaf_walk (pages t) a k =
       Some (if k \<notin> key_set t \<and> vs = [] then 0 else a, if k \<in> key_set t then k else 0)"
    let ?t = "write_page t a (fst (remove_key p k))"
    note rm = remove_ok [OF Suc.prems(1-3) L p pok]
    have "vs \<noteq> []" using L Suc.prems(6) by auto
    then have "btree_delete (Suc n) t k = btree_delete n ?t k"
      using fl lw a0 p km page_ok_remove(3) [OF pok, of k] Suc.prems(4,5) by (simp add: remove_page_def)
    also have "... = None"
      using Suc.IH [OF rm(1) Suc.prems(2,3)] rm(2,3,6) Suc.prems(4-6) km by simp
    finally show ?thesis .
  qed
qed simp

section \<open>Trees without duplicates\<close>

text \<open>As long as no present key is inserted again, no key sits on both sides of a fence, and the
  keys a search reaches are exactly the keys stored.\<close>

lemma page_ok_zero: "page_ok 0 l f hi sib p \<Longrightarrow> c \<in> set (live p) \<Longrightarrow> fst c < hi"
  by (auto simp: page_ok_def filter_empty_conv not_le)

lemma key_set_cells:
  assumes ok: "tree_ok base 0 t" and k: "LONG_MIN \<le> k" "k < 2 ^ 63"
  shows "k \<in> key_set t \<longleftrightarrow> k \<in> fst ` set (tree_cells t)"
proof (rule tree_leaf [OF ok k])
  fix us f a vs p
  assume L: "leaf_chain t = us @ (f, a) # vs" "route k (leaf_chain t) = (f, a)" and p: "pages t a = Some p"
    and fk: "f \<le> k" "k < hd_key vs (2 ^ 63)"
    and pok: "page_ok 0 0 f (hd_key vs (2 ^ 63)) (hd_adr vs 0) p"
    and km: "k \<in> key_set t \<longleftrightarrow> k \<in> fst ` set (live p)"
  have ch: "chain_ok (pages t) 0 0 (us @ (f, a) # vs) (2 ^ 63) 0"
    using tree_okE [OF ok] ups_bottom(4) L(1) by metis
  then have us: "chain_ok (pages t) 0 0 us f a" and vs: "chain_ok (pages t) 0 0 vs (2 ^ 63) 0"
    by (auto simp: chain_ok_append)
  have "fst c < f" if "c \<in> set (content (pages t) us)" for c
    using us that
  proof (induction us)
    case (Cons d us)
    then obtain q where q: "pages t (snd d) = Some q" "page_ok 0 0 (fst d) (hd_key us f) (hd_adr us a) q"
      by (auto simp: node_ok_def)
    have "hd_key us f \<le> f" using Cons.prems(1) chain_ok_fences(3) by auto
    moreover have "leftmost_ptr q = 0" using q(2) by (simp add: page_ok_def)
    ultimately show ?case
      using Cons q page_ok_zero [OF q(2), of c] by (auto simp: page_cells_def node_cells_def)
  qed simp
  then have "k \<notin> fst ` set (content (pages t) us)" using fk(1) by force
  moreover have "k \<notin> fst ` set (content (pages t) vs)"
    using chain_ok_content(2) [OF vs] fk(2) by force
  moreover have "tree_cells t = content (pages t) us @ live p @ content (pages t) vs"
    using p pok L(1) by (simp add: tree_cells_def page_cells_def node_cells_def page_ok_def)
  ultimately show ?thesis using km by (simp add: image_Un)
qed

lemma key_set_range: "k \<in> key_set t \<Longrightarrow> LONG_MIN \<le> k \<and> k < 2 ^ 63"
  by (simp add: key_set_def)

lemma uniq_insert:
  assumes "tree_ok base 0 t" "uniq t" "LONG_MIN \<le> k" "k < 2 ^ 63" "k \<notin> key_set t"
    "tree_cells t' = ins_cell (k, k) (tree_cells t)"
  shows "uniq t'"
proof -
  have "k \<notin> fst ` set (tree_cells t)" using key_set_cells [OF assms(1,3,4)] assms(5) by blast
  moreover have "mset (map fst (tree_cells t')) = mset (k # map fst (tree_cells t))" using assms(6) by simp
  then have "distinct (map fst (tree_cells t')) = distinct (k # map fst (tree_cells t))"
    by (rule mset_eq_imp_distinct_iff)
  ultimately show ?thesis using assms(2) by (simp add: uniq_def)
qed

lemma uniq_delete:
  assumes "tree_ok base 0 t" "uniq t" "tree_ok base 0 t'"
    "mset (tree_cells t) = add_mset (k, k) (mset (tree_cells t'))" "LONG_MIN \<le> k" "k < 2 ^ 63"
  shows "uniq t'" "k \<notin> key_set t'"
proof -
  have "mset (map fst (tree_cells t)) = mset (k # map fst (tree_cells t'))" using assms(4) by simp
  then have "distinct (map fst (tree_cells t)) = distinct (k # map fst (tree_cells t'))"
    by (rule mset_eq_imp_distinct_iff)
  then have "k \<notin> fst ` set (tree_cells t')" "distinct (map fst (tree_cells t'))"
    using assms(2) by (auto simp: uniq_def)
  then show "uniq t'" "k \<notin> key_set t'" using key_set_cells [OF assms(3,5,6)] by (auto simp: uniq_def)
qed

section \<open>The constructor\<close>

lemma tree_ctor_ok:
  assumes "0 < base"
  shows "tree_ok base b (tree_ctor base)" "tree_cells (tree_ctor base) = []" "key_set (tree_ctor base) = {}"
proof -
  let ?t = "tree_ctor base"
  have sel: "root ?t = base" "height ?t = 1" "pages ?t = (\<lambda>_. None)(base \<mapsto> page_ctor 0)"
    "next_page ?t = base + int PAGESIZE"
    by (simp_all add: tree_ctor_def new_page_def)
  have "page_ok b 0 LONG_MIN (2 ^ 63) 0 (page_ctor 0)"
    using page_ctor_inv page_ctor_live page_ctor_keys [of LONG_MIN 0]
    by (simp add: page_ok_def leaf_cells_def LONG_MIN_def LONG_MAX_def)
  then have up: "ups (pages ?t) b 0 [[(LONG_MIN, root ?t)]] (root ?t)"
    using assms by (simp add: sel node_ok_def)
  have "heap_ok base ?t" using assms by (simp add: heap_ok_def sel PAGESIZE_def)
  then show "tree_ok base b ?t" by (rule tree_okI [OF _ up]) (simp add: sel)
  have L: "leaf_chain ?t = [(LONG_MIN, base)]" using ups_leaf_chain [OF up] sel by simp
  show "tree_cells ?t = []"
    by (simp add: tree_cells_def L sel page_cells_def node_cells_def page_ctor_live)
  show "key_set ?t = {}"
    by (auto simp: key_set_def routed_keys_def L route_def sel page_cells_def node_cells_def page_ctor_live)
qed

section \<open>The tree as an index\<close>

text \<open>Keys a client may store: a 64-bit integer other than 0 (the null bucket) that is below every
  page address, because buckets and page addresses share one representation.\<close>

definition storable :: "int \<Rightarrow> int \<Rightarrow> bool" where
  "storable base k \<longleftrightarrow> LONG_MIN \<le> k \<and> k < base \<and> k < 2 ^ 63 \<and> k \<noteq> 0"

definition tree_insert :: "tree_state \<Rightarrow> int \<Rightarrow> tree_state option" where
  "tree_insert t k = btree_insert (tree_fuel t) t k k"

definition tree_delete :: "tree_state \<Rightarrow> int \<Rightarrow> tree_state option" where
  "tree_delete t k = btree_delete (tree_fuel t) t k"

definition uniq_tree :: "int \<Rightarrow> tree_state \<Rightarrow> bool" where
  "uniq_tree base t \<longleftrightarrow> tree_ok base 0 t \<and> uniq t"

lemma storable_no_page: "tree_ok base b t \<Longrightarrow> storable base k \<Longrightarrow> pages t k = None"
  by (auto simp: tree_ok_def heap_ok_def storable_def) (metis not_None_eq not_less)

lemma storable_range: "storable base k \<Longrightarrow> LONG_MIN \<le> k \<and> k < 2 ^ 63 \<and> k \<noteq> 0"
  by (simp add: storable_def)

lemma tree_fuel_Suc: "tree_ok base b t \<Longrightarrow> \<exists>n. tree_fuel t = Suc n"
  using tree_okE by (metis add_Suc_right numeral_3_eq_3)

interpretation tix: open_index "tree_ok base half" key_set "storable base" "\<lambda>_ _. True"
  btree_search tree_insert tree_delete for base
proof
  fix t k
  assume t: "tree_ok base half t" and k: "storable base k"
  note k' = storable_range [OF k] and na = storable_no_page [OF t k]
  show "btree_search t k = Some (if k \<in> key_set t then k else 0)"
    using search_ok [OF t _ _ na] k' by blast
  show "\<exists>t'. tree_insert t k = Some t' \<and> tree_ok base half t' \<and> key_set t' = insert k (key_set t)"
    using insert_ok [OF t, of k "tree_fuel t"] k' unfolding tree_insert_def by blast
  assume mem: "k \<in> key_set t"
  obtain n where n: "tree_fuel t = Suc n" using tree_fuel_Suc [OF t] by blast
  show "\<exists>t'. tree_delete t k = Some t' \<and> tree_ok base half t' \<and> key_set t' - {k} = key_set t - {k}"
    by (rule delete_hit [OF t mem na, of n]) (auto simp: tree_delete_def n)
qed (auto simp: storable_def)

lemma uniq_tree_delete:
  assumes t: "uniq_tree base t" and k: "storable base k" and mem: "k \<in> key_set t"
  shows "\<exists>t'. tree_delete t k = Some t' \<and> uniq_tree base t' \<and> key_set t' = key_set t - {k}"
proof -
  have ok: "tree_ok base 0 t" "uniq t" using t by (auto simp: uniq_tree_def)
  note k' = storable_range [OF k]
  obtain n where n: "tree_fuel t = Suc n" using tree_fuel_Suc [OF ok(1)] by blast
  obtain t' where t': "btree_delete (Suc n) t k = Some t'" "tree_ok base 0 t'"
    "mset (tree_cells t) = add_mset (k, k) (mset (tree_cells t'))" "key_set t' - {k} = key_set t - {k}"
    by (rule delete_hit [OF ok(1) mem storable_no_page [OF ok(1) k], of n])
  have "uniq t'" "k \<notin> key_set t'" using uniq_delete [OF ok t'(2,3)] k' by auto
  then show ?thesis using t' n by (auto simp: tree_delete_def uniq_tree_def)
qed

text \<open>The invariant of duplicate-free trees is the stronger one.\<close>

lemma chain_ok_mono: "chain_ok h b l L hi sib \<Longrightarrow> b \<le> b' \<Longrightarrow> chain_ok h b' l L hi sib"
  by (induction L) (auto simp: node_ok_def page_ok_def intro: order_trans)

lemma uniq_tree_ok: "uniq_tree base t \<Longrightarrow> tree_ok base half t"
proof -
  assume "uniq_tree base t"
  then obtain L Ls where h: "heap_ok base t" "height t = Suc (length Ls)" and u: "ups (pages t) 0 0 (L # Ls) (root t)"
    by (auto simp: uniq_tree_def tree_ok_def)
  have "ups (pages t) half 0 (L # Ls) (root t)"
    using u chain_ok_mono [of "pages t" 0 0 L "2 ^ 63" 0 half] by (cases Ls) auto
  then show ?thesis using h by (auto simp: tree_ok_def)
qed

interpretation uix: exact_index "uniq_tree base" key_set "storable base" "\<lambda>t k. k \<notin> key_set t"
  btree_search tree_insert tree_delete for base
proof
  fix t k
  assume t: "uniq_tree base t" and k: "storable base k"
  have ok: "tree_ok base 0 t" "uniq t" using t by (auto simp: uniq_tree_def)
  note k' = storable_range [OF k] and na = storable_no_page [OF ok(1) k]
  show "btree_search t k = Some (if k \<in> key_set t then k else 0)"
    using search_ok [OF ok(1) _ _ na] k' by blast
  show "\<exists>t'. tree_insert t k = Some t' \<and> uniq_tree base t' \<and> key_set t' = insert k (key_set t)"
    if new: "k \<notin> key_set t"
  proof -
    obtain t' where t': "btree_insert (tree_fuel t) t k k = Some t'" "tree_ok base 0 t'"
      "tree_cells t' = ins_cell (k, k) (tree_cells t)" "key_set t' = insert k (key_set t)"
      using insert_ok [OF ok(1), of k "tree_fuel t"] k' ok(2) by blast
    then show ?thesis
      using uniq_insert [OF ok _ _ new t'(3)] k' by (auto simp: tree_insert_def uniq_tree_def)
  qed
  show "\<exists>t'. tree_delete t k = Some t' \<and> uniq_tree base t' \<and> key_set t' - {k} = key_set t - {k}"
    if "k \<in> key_set t"
    using uniq_tree_delete [OF t k that] by auto
  show "k \<notin> key_set t'" if "k \<in> key_set t" "tree_delete t k = Some t'" for t'
    using uniq_tree_delete [OF t k that(1)] that(2) by auto
qed (auto simp: storable_def)

section \<open>Properties of the tree\<close>

text \<open>C2: Inserting a storable key into any well-formed tree returns within the fuel given by the
  level of the root, keeps the tree well-formed, adds exactly one cell behind its equals in the
  ordered leaf contents, and makes exactly this key newly reachable, whatever splits and root
  growth the insertion causes.\<close>

theorem btree_insert_correct:
  assumes "tree_ok base half t" "storable base k" "tree_fuel t \<le> n"
  shows "\<exists>t'. btree_insert n t k k = Some t' \<and> tree_ok base half t' \<and>
    tree_cells t' = ins_cell (k, k) (tree_cells t) \<and> key_set t' = insert k (key_set t)"
proof -
  note k = storable_range [OF assms(2)]
  show ?thesis by (rule insert_ok [OF assms(1), of k n]) (use k assms(3) in auto)
qed

theorem btree_insert_correct_witness:
  "\<exists>t'. btree_insert 3 (tree_ctor 4096) 5 5 = Some t' \<and> tree_cells t' = [(5, 5)] \<and> key_set t' = {5}"
proof -
  have "tree_fuel (tree_ctor 4096) = 3" by (simp add: tree_fuel_def tree_ctor_def new_page_def)
  then show ?thesis
    using btree_insert_correct [of 4096 "tree_ctor 4096" 5 3] tree_ctor_ok [of 4096]
    by (auto simp: storable_def LONG_MIN_def)
qed

text \<open>C3: Searching a well-formed tree returns, and answers the key itself when it is reachable and
  the null bucket otherwise.\<close>

theorem btree_search_correct:
  assumes "tree_ok base half t" "storable base k"
  shows "btree_search t k = Some (if k \<in> key_set t then k else 0)"
  by (rule tix.search_law [OF assms])

theorem btree_search_correct_witness:
  "btree_search (tree_ctor 4096) 7 = Some 0"
  using btree_search_correct [of 4096 "tree_ctor 4096" 7] tree_ctor_ok [of 4096]
  by (simp add: storable_def LONG_MIN_def)

text \<open>C4: In a tree without duplicates, deleting a present key returns, keeps the tree well-formed
  and free of duplicates, and removes exactly this key.\<close>

theorem btree_delete_correct:
  assumes "uniq_tree base t" "storable base k" "k \<in> key_set t"
  shows "\<exists>t'. btree_delete (tree_fuel t) t k = Some t' \<and> uniq_tree base t' \<and> key_set t' = key_set t - {k}"
  using uniq_tree_delete [OF assms] by (simp add: tree_delete_def)

theorem btree_delete_correct_witness:
  "\<exists>t t'. tree_insert (tree_ctor 4096) 5 = Some t \<and> key_set t = {5} \<and>
     btree_delete (tree_fuel t) t 5 = Some t' \<and> key_set t' = {}"
proof -
  have s: "storable 4096 5" by (simp add: storable_def LONG_MIN_def)
  have c: "uniq_tree 4096 (tree_ctor 4096)" "key_set (tree_ctor 4096) = {}"
    using tree_ctor_ok [of 4096] by (auto simp: uniq_tree_def uniq_def)
  obtain t where t: "tree_insert (tree_ctor 4096) 5 = Some t" "uniq_tree 4096 t" "key_set t = {5}"
    using uix.ins_law [OF c(1) s] c(2) by auto
  then show ?thesis using btree_delete_correct [OF t(2) s] by auto
qed

text \<open>C36: Deleting a storable key that is not in the tree never returns when the leaf of the key
  has a right neighbour: \<^verbatim>\<open>remove\<close> answers false and \<^verbatim>\<open>btree_delete\<close> calls itself again on the
  same contents, for every amount of fuel.\<close>

theorem btree_delete_absent_diverges:
  assumes "tree_ok base half t" "storable base k" "k \<notin> key_set t"
    "route k (leaf_chain t) \<noteq> last (leaf_chain t)"
  shows "btree_delete n t k = None"
  using delete_miss_loops [OF assms(1) _ _ assms(3) storable_no_page [OF assms(1,2)] assms(4)]
    storable_range [OF assms(2)] by blast

text \<open>Inserting the given keys one after the other.\<close>

definition insert_ops :: "int list \<Rightarrow> future_buffered_op list" where
  "insert_ops ks = map (\<lambda>k. \<lparr>op_key = k, op_is_delete = False, op_sequence = 0, op_producer_id = 0\<rparr>) ks"

lemma two_leaves:
  "map_option (\<lambda>t. (length (leaf_chain t), route 1 (leaf_chain t) = last (leaf_chain t)))
     (index_replay btree_search tree_insert tree_delete (tree_ctor 4096) (insert_ops [2..29])) = Some (2, False)"
  by code_simp

theorem btree_delete_absent_diverges_witness:
  "\<exists>t. index_replay btree_search tree_insert tree_delete (tree_ctor 4096) (insert_ops [2..29]) = Some t \<and>
     (\<forall>n. btree_delete n t 1 = None)"
proof -
  note c = tree_ctor_ok [of 4096]
  have ks: "\<forall>op \<in> set (insert_ops [2..29]). storable 4096 (op_key op)" "1 \<notin> op_key ` set (insert_ops [2..29])"
    by (auto simp: insert_ops_def storable_def LONG_MIN_def)
  obtain t where t: "index_replay btree_search tree_insert tree_delete (tree_ctor 4096) (insert_ops [2..29]) = Some t"
    "tree_ok 4096 half t" "1 \<in> key_set t \<longleftrightarrow> 1 \<in> key_set (tree_ctor 4096)"
    using tix.replay_returns [OF c(1) ks(1)] ks(2) by (metis zero_less_numeral)
  have "route 1 (leaf_chain t) \<noteq> last (leaf_chain t)" using two_leaves t(1) by simp
  then have "btree_delete n t 1 = None" for n
    using btree_delete_absent_diverges [OF t(2), of 1 n] t(3) c(3) by (simp add: storable_def LONG_MIN_def)
  then show ?thesis using t(1) by blast
qed

text \<open>A key inserted while it is already stored is stored twice, so that the delete that
  follows removes one copy and leaves the leaf contents as they were before the second insert.\<close>

theorem duplicate_insert_survives_delete:
  assumes "tree_ok base half t" "storable base k" "k \<in> key_set t"
  shows "\<exists>t1 t2. tree_insert t k = Some t1 \<and> tree_delete t1 k = Some t2 \<and>
    mset (tree_cells t2) = mset (tree_cells t) \<and> tree_ok base half t2"
proof -
  note k = storable_range [OF assms(2)]
  obtain t1 where t1: "tree_insert t k = Some t1" "tree_ok base half t1"
    "tree_cells t1 = ins_cell (k, k) (tree_cells t)" "key_set t1 = insert k (key_set t)"
    by (rule insert_ok [OF assms(1), of k "tree_fuel t"]) (use k in \<open>auto simp: tree_insert_def\<close>)
  obtain n where n: "tree_fuel t1 = Suc n" using tree_fuel_Suc [OF t1(2)] by blast
  have mem: "k \<in> key_set t1" using t1(4) by simp
  obtain t2 where t2: "btree_delete (Suc n) t1 k = Some t2" "tree_ok base half t2"
    "mset (tree_cells t1) = add_mset (k, k) (mset (tree_cells t2))"
    by (rule delete_hit [OF t1(2) mem storable_no_page [OF t1(2) assms(2)], of n])
  then show ?thesis using t1 n by (auto simp: tree_delete_def)
qed

theorem duplicate_insert_survives_delete_witness:
  "\<exists>t t1 t2. tree_insert (tree_ctor 4096) 5 = Some t \<and> tree_insert t 5 = Some t1 \<and>
     tree_delete t1 5 = Some t2 \<and> mset (tree_cells t2) = {#(5, 5)#}"
proof -
  have s: "storable 4096 5" by (simp add: storable_def LONG_MIN_def)
  note c = tree_ctor_ok [of 4096]
  obtain t where t: "btree_insert (tree_fuel (tree_ctor 4096)) (tree_ctor 4096) 5 5 = Some t"
    "tree_ok 4096 half t" "tree_cells t = ins_cell (5, 5) (tree_cells (tree_ctor 4096))"
    "key_set t = insert 5 (key_set (tree_ctor 4096))"
    by (rule insert_ok [of 4096 half "tree_ctor 4096" 5 "tree_fuel (tree_ctor 4096)"])
      (use c in \<open>auto simp: LONG_MIN_def\<close>)
  then show ?thesis
    using duplicate_insert_survives_delete [OF t(2) s] c(2) by (auto simp: tree_insert_def)
qed

end
