(* ===== verification/Futures.thy ===== *)
theory Futures
  imports PTFO Hash_Table Lookup_Directory BTree_Ops
begin

text \<open>
  The buffering layer of \<^verbatim>\<open>btree\<close> (\<^verbatim>\<open>core/btree.h\<close>): the global tree together with, for each
  producer, its chain of buffered operations, its hashtable and its lookup directory; buffering an
  operation in all three; and the searches over the buffered operations of all producers, by walking
  the chains, by the directories, and by the chains behind the hashtables.
\<close>

section \<open>Model\<close>

record btree =
  bt_tree :: tree_state
  bt_ptfos :: "ptfo list"
  bt_hash :: "HashMapTable list"
  bt_dirs :: "directory list"
  bt_eval_threads :: nat
  bt_is_Done :: bool

definition n_threads :: "btree \<Rightarrow> nat" where
  "n_threads bt = length (bt_ptfos bt)"

text \<open>The constructor of the DRAM build.\<close>

definition btree_ctor :: "int \<Rightarrow> int \<Rightarrow> int \<Rightarrow> int \<Rightarrow> btree" where
  "btree_ctor base num_threads num_eval_threads hash_capacity =
     (let n = (if num_threads > 0 then nat num_threads else 1);
          cap = (if hash_capacity > 0 then hash_capacity else 1)
      in \<lparr>bt_tree = tree_ctor base, bt_ptfos = replicate n ptfo_ctor,
          bt_hash = replicate n (hash_init HashMapTable_ctor cap),
          bt_dirs = replicate n (replicate (nat cap) lookup_slot_ctor),
          bt_eval_threads = (if num_eval_threads > 0 then nat num_eval_threads else 1),
          bt_is_Done = False\<rparr>)"

definition future_insert :: "btree \<Rightarrow> entry_key_t \<Rightarrow> int \<Rightarrow> bool \<Rightarrow> 64 word \<Rightarrow> btree option" where
  "future_insert bt key tid isDone seq =
     (if tid < 0 \<or> tid \<ge> int (n_threads bt) then None
      else do {
        p \<leftarrow> chain_insert (bt_ptfos bt ! nat tid) key isDone seq;
        h \<leftarrow> Insert (bt_hash bt ! nat tid) key tid;
        dirs \<leftarrow> record_lookup (bt_dirs bt) key tid isDone seq;
        Some (bt\<lparr>bt_ptfos := (bt_ptfos bt)[nat tid := p], bt_hash := (bt_hash bt)[nat tid := h],
                 bt_dirs := dirs\<rparr>) })"

definition entry_state :: "bool \<Rightarrow> future_entry_state" where
  "entry_state del = (if del then FUTURE_TOMBSTONE else FUTURE_PRESENT)"

text \<open>\<^verbatim>\<open>future_state\<close>: the chain of one producer, newest node first, each node from its last
  entry down, with an early return.\<close>

partial_function (option) state_walk :: "fstore \<Rightarrow> entry_key_t \<Rightarrow> future_ref \<Rightarrow> future_entry_state option" where
  "state_walk h key current =
     (case current of
        FNull \<Rightarrow> Some FUTURE_ABSENT
      | FHead \<Rightarrow> None
      | FNode a \<Rightarrow>
          do { n \<leftarrow> h a;
               (case find (\<lambda>i. keys n ! i = key) (rev [0..<nat (entry_count n)]) of
                  Some i \<Rightarrow> Some (entry_state (is_delete n ! i))
                | None \<Rightarrow> state_walk h key (nnext n)) })"

declare state_walk.simps [code]

definition future_state :: "btree \<Rightarrow> entry_key_t \<Rightarrow> int \<Rightarrow> future_entry_state option" where
  "future_state bt key tid =
     (if tid < 0 \<or> tid \<ge> int (n_threads bt) then Some FUTURE_ABSENT
      else (let p = bt_ptfos bt ! nat tid in state_walk (fnodes p) key (nnext (local_fut p))))"

fun state_any :: "btree \<Rightarrow> entry_key_t \<Rightarrow> nat list \<Rightarrow> future_entry_state option" where
  "state_any bt key [] = Some FUTURE_ABSENT"
| "state_any bt key (tid # tids) =
     do { st \<leftarrow> future_state bt key (int tid);
          if st \<noteq> FUTURE_ABSENT then Some st else state_any bt key tids }"

definition future_state_any :: "btree \<Rightarrow> entry_key_t \<Rightarrow> future_entry_state option" where
  "future_state_any bt key = state_any bt key [0..<n_threads bt]"

text \<open>The variables \<^verbatim>\<open>latest_state\<close>, \<^verbatim>\<open>best_sequence\<close> and \<^verbatim>\<open>best_owner\<close> of the searches over all
  producers, and their update.\<close>

type_synonym latest = "future_entry_state \<times> 64 word \<times> int"

definition latest_none :: latest where
  "latest_none = (FUTURE_ABSENT, 0, -1)"

definition latest_update :: "future_entry_state \<Rightarrow> 64 word \<Rightarrow> int \<Rightarrow> latest \<Rightarrow> latest" where
  "latest_update st seq own acc =
     (case acc of (latest_state, best_seq, best_owner) \<Rightarrow>
        if latest_state = FUTURE_ABSENT \<or> seq > best_seq then (st, seq, own) else acc)"

definition scan_node :: "entry_key_t \<Rightarrow> int \<Rightarrow> future_Node \<Rightarrow> latest \<Rightarrow> latest" where
  "scan_node key tid n acc =
     fold (\<lambda>i acc. if keys n ! i \<noteq> key then acc
                   else latest_update (entry_state (is_delete n ! i)) (node_sequence n ! i) tid acc)
       [0..<nat (entry_count n)] acc"

fun for_tids :: "(nat \<Rightarrow> 'a \<Rightarrow> 'a option) \<Rightarrow> nat list \<Rightarrow> 'a \<Rightarrow> 'a option" where
  "for_tids f [] acc = Some acc"
| "for_tids f (tid # tids) acc = do { acc' \<leftarrow> f tid acc; for_tids f tids acc' }"

definition scan_chain :: "btree \<Rightarrow> entry_key_t \<Rightarrow> nat \<Rightarrow> latest \<Rightarrow> latest option" where
  "scan_chain bt key tid acc =
     walk (fnodes (bt_ptfos bt ! tid)) (scan_node key (int tid)) (nnext (local_fut (bt_ptfos bt ! tid))) acc"

definition future_latest_state :: "btree \<Rightarrow> entry_key_t \<Rightarrow> latest option" where
  "future_latest_state bt key = for_tids (scan_chain bt key) [0..<n_threads bt] latest_none"

text \<open>The hashtable in front: producers that never buffered the key are skipped.\<close>

definition future_hash_directed_state_via_ptfo :: "btree \<Rightarrow> entry_key_t \<Rightarrow> latest option" where
  "future_hash_directed_state_via_ptfo bt key =
     for_tids (\<lambda>tid acc. do { v \<leftarrow> SearchKey (bt_hash bt ! tid) key;
                              if v = -1 then Some acc else scan_chain bt key tid acc })
       [0..<n_threads bt] latest_none"

text \<open>The searches over the lookup directories.\<close>

definition scan_dir :: "btree \<Rightarrow> entry_key_t \<Rightarrow> nat \<Rightarrow> latest \<Rightarrow> latest option" where
  "scan_dir bt key tid acc =
     do { (index, dirs) \<leftarrow> future_lookup_index (bt_dirs bt) key (int tid) False;
          Some (if index = length (dirs ! tid) then acc
                else (let s = dirs ! tid ! index in latest_update (state s) (sequence s) (owner s) acc)) }"

definition future_lookup_state :: "btree \<Rightarrow> entry_key_t \<Rightarrow> latest option" where
  "future_lookup_state bt key = for_tids (scan_dir bt key) [0..<n_threads bt] latest_none"

definition future_hash_directed_state :: "btree \<Rightarrow> entry_key_t \<Rightarrow> latest option" where
  "future_hash_directed_state bt key =
     for_tids (\<lambda>tid acc. do { v \<leftarrow> SearchKey (bt_hash bt ! tid) key;
                              if v = -1 then Some acc else scan_dir bt key tid acc })
       [0..<n_threads bt] latest_none"

text \<open>The owner searches keep only the best sequence and its owner; the chain variant has a
  separate \<^verbatim>\<open>found\<close> flag.\<close>

definition owner_update :: "64 word \<Rightarrow> int \<Rightarrow> int \<times> 64 word \<Rightarrow> int \<times> 64 word" where
  "owner_update seq own acc =
     (case acc of (best_owner, best_seq) \<Rightarrow>
        if best_owner = -1 \<or> seq > best_seq then (own, seq) else acc)"

definition owner_dir :: "btree \<Rightarrow> entry_key_t \<Rightarrow> nat \<Rightarrow> int \<times> 64 word \<Rightarrow> (int \<times> 64 word) option" where
  "owner_dir bt key tid acc =
     do { (index, dirs) \<leftarrow> future_lookup_index (bt_dirs bt) key (int tid) False;
          Some (if index = length (dirs ! tid) then acc
                else (let s = dirs ! tid ! index in owner_update (sequence s) (owner s) acc)) }"

definition future_lookup_owner :: "btree \<Rightarrow> entry_key_t \<Rightarrow> int option" where
  "future_lookup_owner bt key =
     map_option fst (for_tids (owner_dir bt key) [0..<n_threads bt] (-1, 0))"

definition future_hash_directed_owner :: "btree \<Rightarrow> entry_key_t \<Rightarrow> int option" where
  "future_hash_directed_owner bt key =
     map_option fst
       (for_tids (\<lambda>tid acc. do { v \<leftarrow> SearchKey (bt_hash bt ! tid) key;
                                 if v = -1 then Some acc else owner_dir bt key tid acc })
         [0..<n_threads bt] (-1, 0))"

definition owner_node :: "entry_key_t \<Rightarrow> int \<Rightarrow> future_Node \<Rightarrow> bool \<times> int \<times> 64 word \<Rightarrow> bool \<times> int \<times> 64 word" where
  "owner_node key tid n acc =
     fold (\<lambda>i acc. if keys n ! i \<noteq> key then acc
                   else (case acc of (found, best_owner, best_seq) \<Rightarrow>
                           if \<not> found \<or> node_sequence n ! i > best_seq
                           then (True, tid, node_sequence n ! i) else acc))
       [0..<nat (entry_count n)] acc"

definition future_hash_directed_owner_via_ptfo :: "btree \<Rightarrow> entry_key_t \<Rightarrow> int option" where
  "future_hash_directed_owner_via_ptfo bt key =
     map_option (\<lambda>(found, best_owner, best_seq). best_owner)
       (for_tids (\<lambda>tid acc. do { v \<leftarrow> SearchKey (bt_hash bt ! tid) key;
            if v = -1 then Some acc
            else walk (fnodes (bt_ptfos bt ! tid)) (owner_node key (int tid))
                   (nnext (local_fut (bt_ptfos bt ! tid))) acc })
         [0..<n_threads bt] (False, -1, 0))"

section \<open>The pending operations of a producer\<close>

definition pending :: "int \<Rightarrow> ptfo \<Rightarrow> future_buffered_op list" where
  "pending tid p =
     (case walk (fnodes p) (\<lambda>n acc. node_ops tid n @ acc) (nnext (local_fut p)) [] of
        None \<Rightarrow> [] | Some os \<Rightarrow> os)"

definition ptfo_wf :: "ptfo \<Rightarrow> bool" where
  "ptfo_wf p \<longleftrightarrow> (\<exists>as. ptfo_ok p as)"

lemma pending_ops_of: "ptfo_ok p as \<Longrightarrow> pending tid p = ops_of tid (fnodes p) as"
proof -
  assume ok: "ptfo_ok p as"
  have "fold (\<lambda>a acc. node_ops tid (the (h a)) @ acc) as acc = ops_of tid h as @ acc" for h acc
    by (induction as arbitrary: acc) auto
  then show ?thesis by (simp add: pending_def walk_chain [OF ptfo_frame(1) [OF ok]])
qed

lemma ptfo_ctor_wf: "ptfo_wf ptfo_ctor" "pending tid ptfo_ctor = []"
  using ptfo_ctor_ok pending_ops_of [OF ptfo_ctor_ok] by (auto simp: ptfo_wf_def)

lemma chain_insert_wf:
  assumes "ptfo_wf p"
  obtains p' where "chain_insert p key del seq = Some p'" "ptfo_wf p'"
    "\<And>tid. pending tid p' = pending tid p @ [buffered key del seq tid]"
proof -
  obtain as where ok: "ptfo_ok p as" using assms by (auto simp: ptfo_wf_def)
  obtain p' as' where "chain_insert p key del seq = Some p'" "ptfo_ok p' as'"
    "\<And>tid. ops_of tid (fnodes p') as' = ops_of tid (fnodes p) as @ [buffered key del seq tid]"
    using chain_insert_ok [OF ok] by blast
  then show thesis using that pending_ops_of [OF ok] pending_ops_of [of p' as'] by (auto simp: ptfo_wf_def)
qed

lemma clear_thread_wf:
  assumes "ptfo_wf p"
  obtains p' where "future_clear_thread p = Some p'" "ptfo_wf p'" "\<And>tid. pending tid p' = []"
proof -
  obtain as where ok: "ptfo_ok p as" using assms by (auto simp: ptfo_wf_def)
  obtain p' where "future_clear_thread p = Some p'" "ptfo_ok p' []"
    using clear_thread_ok [OF ok] by blast
  then show thesis using that pending_ops_of [of p' "[]"] by (auto simp: ptfo_wf_def)
qed

lemma collect_ops_wf:
  "ptfo_wf p \<Longrightarrow> \<exists>l. future_collect_ops tid p os = Some (os @ l) \<and> mset l = mset (pending tid p)"
  using collect_ops_mset pending_ops_of by (metis ptfo_wf_def)

lemma pending_producer: "ptfo_wf p \<Longrightarrow> op \<in> set (pending tid p) \<Longrightarrow> op_producer_id op = tid"
  using pending_ops_of [of p _ tid] by (auto simp: ptfo_wf_def ops_of_def node_ops_def op_at_def)

section \<open>The newest operation of a key\<close>

text \<open>Folding over operations in any order keeps the one with the largest sequence number.\<close>

definition newest_step :: "int \<Rightarrow> future_buffered_op \<Rightarrow> future_buffered_op option \<Rightarrow> future_buffered_op option" where
  "newest_step key op acc =
     (if op_key op = key \<and> (case acc of None \<Rightarrow> True | Some b \<Rightarrow> op_sequence b < op_sequence op)
      then Some op else acc)"

definition newest :: "int \<Rightarrow> future_buffered_op list \<Rightarrow> future_buffered_op option" where
  "newest key os = fold (newest_step key) os None"

lemma newest_fold_max:
  "fold (newest_step key) os acc = Some op \<Longrightarrow>
     (acc = Some op \<or> op \<in> set os \<and> op_key op = key) \<and>
     (\<forall>o' \<in> set os. op_key o' = key \<longrightarrow> op_sequence o' \<le> op_sequence op) \<and>
     (\<forall>b. acc = Some b \<longrightarrow> op_sequence b \<le> op_sequence op)"
proof (induction os arbitrary: acc)
  case (Cons x os)
  have "fold (newest_step key) os (newest_step key x acc) = Some op" using Cons.prems by simp
  from Cons.IH [OF this] show ?case
    by (cases acc; auto simp: newest_step_def split: if_splits)
qed simp

lemma newest_fold_None:
  "fold (newest_step key) os acc = None \<longleftrightarrow> acc = None \<and> (\<forall>op \<in> set os. op_key op \<noteq> key)"
proof (induction os arbitrary: acc)
  case (Cons x os)
  then show ?case by (cases acc) (auto simp: newest_step_def)
qed simp

lemma newest_max:
  "newest key os = Some op \<Longrightarrow> op \<in> set os \<and> op_key op = key \<and>
     (\<forall>o' \<in> set os. op_key o' = key \<longrightarrow> op_sequence o' \<le> op_sequence op)"
  using newest_fold_max [of key os None op] by (simp add: newest_def)

lemma newest_None: "newest key os = None \<longleftrightarrow> (\<forall>op \<in> set os. op_key op \<noteq> key)"
  by (simp add: newest_def newest_fold_None)

text \<open>With pairwise different sequence numbers the newest operation does not depend on the order.\<close>

lemma newest_set:
  assumes "set os = set os'" "inj_on op_sequence (set os)"
  shows "newest key os = newest key os'"
proof (cases "newest key os")
  case None
  then show ?thesis using assms(1) newest_None by metis
next
  case (Some op)
  note m = newest_max [OF Some]
  obtain op' where op': "newest key os' = Some op'"
    using m newest_None assms(1) by (metis not_None_eq)
  note m' = newest_max [OF op']
  have "op_sequence op' \<le> op_sequence op" "op_sequence op \<le> op_sequence op'" using m m' assms(1) by blast+
  then have "op_sequence op = op_sequence op'" by (rule order_antisym [rotated])
  then have "op = op'" using assms m m' by (metis inj_onD)
  then show ?thesis using Some op' by simp
qed

lemma newest_snoc: "newest key (os @ [op]) = newest_step key op (newest key os)"
  by (simp add: newest_def)

lemma newest_last:
  assumes "sorted_wrt (\<lambda>a b. op_sequence a < op_sequence b) os"
  shows "newest key os = last_op key os"
  using assms
proof (induction os rule: rev_induct)
  case (snoc op os)
  then have "newest key os = last_op key os" by (simp add: sorted_wrt_append)
  moreover have "\<forall>o' \<in> set os. op_sequence o' < op_sequence op" using snoc.prems by (simp add: sorted_wrt_append)
  ultimately show ?case
    using newest_max [of key os] by (auto simp: newest_snoc last_op_snoc newest_step_def split: option.splits)
qed (simp add: newest_def)

section \<open>The searches\<close>

definition latest_of :: "future_buffered_op option \<Rightarrow> latest" where
  "latest_of o' = (case o' of None \<Rightarrow> latest_none
     | Some op \<Rightarrow> (entry_state (op_is_delete op), op_sequence op, op_producer_id op))"

lemma entry_state_present [simp]: "entry_state d \<noteq> FUTURE_ABSENT" "FUTURE_ABSENT \<noteq> entry_state d"
  by (simp_all add: entry_state_def)

lemma latest_update_of:
  "op_key op = key \<Longrightarrow>
   latest_update (entry_state (op_is_delete op)) (op_sequence op) (op_producer_id op) (latest_of acc) =
     latest_of (newest_step key op acc)"
  by (cases acc) (auto simp: latest_update_def latest_of_def latest_none_def newest_step_def)

lemma scan_node_of:
  "scan_node key tid n (latest_of acc) = latest_of (fold (newest_step key) (node_ops tid n) acc)"
proof -
  have "fold (\<lambda>i acc. if keys n ! i \<noteq> key then acc
           else latest_update (entry_state (is_delete n ! i)) (node_sequence n ! i) tid acc) is (latest_of acc)
      = latest_of (fold (newest_step key) (map (op_at tid n) is) acc)" for "is"
  proof (induction "is" arbitrary: acc)
    case (Cons i "is")
    have "(if keys n ! i \<noteq> key then latest_of acc
        else latest_update (entry_state (is_delete n ! i)) (node_sequence n ! i) tid (latest_of acc))
      = latest_of (newest_step key (op_at tid n i) acc)"
      using latest_update_of [of "op_at tid n i" key acc] by (auto simp: op_at_def newest_step_def)
    then show ?case using Cons.IH by simp
  qed simp
  then show ?thesis by (simp add: scan_node_def node_ops_def)
qed

text \<open>The operations of one chain in the order the searches meet them.\<close>

definition chain_order :: "int \<Rightarrow> ptfo \<Rightarrow> future_buffered_op list" where
  "chain_order tid p = (case future_collect_ops tid p [] of None \<Rightarrow> [] | Some os \<Rightarrow> os)"

lemma chain_order_mset: "ptfo_wf p \<Longrightarrow> mset (chain_order tid p) = mset (pending tid p)"
  using collect_ops_wf [of p tid "[]"] by (auto simp: chain_order_def)

lemma scan_chain_of:
  assumes "ptfo_wf (bt_ptfos bt ! tid)"
  shows "scan_chain bt key tid (latest_of acc) =
    Some (latest_of (fold (newest_step key) (chain_order (int tid) (bt_ptfos bt ! tid)) acc))"
proof -
  let ?p = "bt_ptfos bt ! tid"
  obtain as where ok: "ptfo_ok ?p as" using assms by (auto simp: ptfo_wf_def)
  have "fold (\<lambda>a. scan_node key (int tid) (the (h a))) as (latest_of acc) =
      latest_of (fold (newest_step key) (concat (map (\<lambda>a. node_ops (int tid) (the (h a))) as)) acc)" for h
    by (induction as arbitrary: acc) (simp_all add: scan_node_of)
  then show ?thesis
    by (simp add: scan_chain_def walk_chain [OF ptfo_frame(1) [OF ok]] chain_order_def collect_ops_ok [OF ok])
qed

text \<open>A well-formed buffering layer.\<close>

definition fut_ok :: "btree \<Rightarrow> bool" where
  "fut_ok bt \<longleftrightarrow> length (bt_hash bt) = n_threads bt \<and> length (bt_dirs bt) = n_threads bt \<and>
     (\<forall>tid < n_threads bt. ptfo_wf (bt_ptfos bt ! tid) \<and> table_ok (bt_hash bt ! tid) \<and> dir_ok (bt_dirs bt ! tid))"

definition producer_ops :: "btree \<Rightarrow> nat \<Rightarrow> future_buffered_op list" where
  "producer_ops bt tid = pending (int tid) (bt_ptfos bt ! tid)"

definition all_pending :: "btree \<Rightarrow> future_buffered_op list" where
  "all_pending bt = concat (map (producer_ops bt) [0..<n_threads bt])"

text \<open>Every key buffered by a producer is in its hashtable.\<close>

definition hash_covers :: "btree \<Rightarrow> bool" where
  "hash_covers bt \<longleftrightarrow> (\<forall>tid < n_threads bt. \<forall>op \<in> set (producer_ops bt tid).
     table_get (bt_hash bt ! tid) (op_key op) = Some (int tid))"

lemma for_tids_newest:
  assumes "\<And>tid acc. tid \<in> set tids \<Longrightarrow>
    f tid (latest_of acc) = Some (latest_of (fold (newest_step key) (os tid) acc))"
  shows "for_tids f tids (latest_of acc) = Some (latest_of (fold (newest_step key) (concat (map os tids)) acc))"
  using assms by (induction tids arbitrary: acc) auto

lemma concat_chain_order:
  assumes "fut_ok bt"
  shows "mset (concat (map (\<lambda>tid. chain_order (int tid) (bt_ptfos bt ! tid)) [0..<n_threads bt])) =
    mset (all_pending bt)"
proof -
  have "mset (concat (map (\<lambda>tid. chain_order (int tid) (bt_ptfos bt ! tid)) tids)) =
      mset (concat (map (producer_ops bt) tids))" if "set tids \<subseteq> {0..<n_threads bt}" for tids
    using that assms chain_order_mset by (induction tids) (auto simp: fut_ok_def producer_ops_def)
  then show ?thesis by (simp add: all_pending_def)
qed

lemma newest_chain_order:
  assumes "fut_ok bt" "inj_on op_sequence (set (all_pending bt))"
  shows "newest key (concat (map (\<lambda>tid. chain_order (int tid) (bt_ptfos bt ! tid)) [0..<n_threads bt])) =
    newest key (all_pending bt)"
  using concat_chain_order [OF assms(1)] assms(2) by (metis newest_set set_mset_mset)

lemma latest_none_of: "latest_none = latest_of None"
  by (simp add: latest_of_def)

lemma future_latest_state_newest:
  assumes "fut_ok bt" "inj_on op_sequence (set (all_pending bt))"
  shows "future_latest_state bt key = Some (latest_of (newest key (all_pending bt)))"
  unfolding future_latest_state_def latest_none_of
  using assms(1) newest_chain_order [OF assms, of key]
  by (subst for_tids_newest [where os = "\<lambda>tid. chain_order (int tid) (bt_ptfos bt ! tid)"])
    (auto simp: scan_chain_of fut_ok_def newest_def)

lemma via_ptfo_newest:
  assumes ok: "fut_ok bt" and inj: "inj_on op_sequence (set (all_pending bt))" and hc: "hash_covers bt"
  shows "future_hash_directed_state_via_ptfo bt key = Some (latest_of (newest key (all_pending bt)))"
proof -
  have "do { v \<leftarrow> SearchKey (bt_hash bt ! tid) key;
        if v = -1 then Some (latest_of acc) else scan_chain bt key tid (latest_of acc) } =
      Some (latest_of (fold (newest_step key) (chain_order (int tid) (bt_ptfos bt ! tid)) acc))"
    if tid: "tid < n_threads bt" for tid acc
  proof -
    have wf: "ptfo_wf (bt_ptfos bt ! tid)" "table_ok (bt_hash bt ! tid)" using ok tid by (auto simp: fut_ok_def)
    show ?thesis
    proof (cases "SearchKey (bt_hash bt ! tid) key = Some (-1)")
      case True
      have "table_get (bt_hash bt ! tid) key \<noteq> Some (int tid)"
        using True SearchKey_get [OF wf(2), of key] by auto
      then have "\<forall>op \<in> set (pending (int tid) (bt_ptfos bt ! tid)). op_key op \<noteq> key"
        using hc tid by (auto simp: hash_covers_def producer_ops_def)
      then have "\<forall>op \<in> set (chain_order (int tid) (bt_ptfos bt ! tid)). op_key op \<noteq> key"
        using chain_order_mset [OF wf(1)] by (metis set_mset_mset)
      then have "fold (newest_step key) (chain_order (int tid) (bt_ptfos bt ! tid)) acc = acc"
        by (intro fold_invariant [where P = "\<lambda>x. x = acc" and Q = "\<lambda>op. op_key op \<noteq> key"])
          (auto simp: newest_step_def)
      then show ?thesis using True by simp
    next
      case False
      then show ?thesis using SearchKey_get [OF wf(2), of key] scan_chain_of [OF wf(1)] by auto
    qed
  qed
  then show ?thesis
    unfolding future_hash_directed_state_via_ptfo_def latest_none_of
    using newest_chain_order [OF ok inj, of key]
    by (subst for_tids_newest [where os = "\<lambda>tid. chain_order (int tid) (bt_ptfos bt ! tid)" and key = key])
      (auto simp: newest_def)
qed

section \<open>Searching one chain\<close>

lemma last_op_append:
  "last_op k (xs @ ys) = (case last_op k ys of None \<Rightarrow> last_op k xs | Some op \<Rightarrow> Some op)"
proof (induction ys rule: rev_induct)
  case (snoc y ys)
  then show ?case using last_op_snoc [of k "xs @ ys" y] last_op_snoc [of k ys y] by simp
qed simp

lemma last_op_node:
  "last_op key (node_ops tid n) =
     map_option (op_at tid n) (find (\<lambda>i. keys n ! i = key) (rev [0..<nat (entry_count n)]))"
proof -
  have "last_op key (map (op_at tid n) [0..<m]) =
      map_option (op_at tid n) (find (\<lambda>i. keys n ! i = key) (rev [0..<m]))" for m
    by (induction m) (auto simp: last_op_snoc op_at_def)
  then show ?thesis by (simp add: node_ops_def)
qed

lemma state_walk_last:
  "chain h r as \<Longrightarrow> state_walk h key r =
     Some (case last_op key (ops_of tid h as) of None \<Rightarrow> FUTURE_ABSENT | Some op \<Rightarrow> entry_state (op_is_delete op))"
proof (induction as arbitrary: r)
  case Nil
  then show ?case by (simp add: state_walk.simps)
next
  case (Cons a as)
  then obtain n where n: "r = FNode a" "h a = Some n" "chain h (nnext n) as" by auto
  show ?case
  proof (cases "find (\<lambda>i. keys n ! i = key) (rev [0..<nat (entry_count n)])")
    case None
    have "state_walk h key r = state_walk h key (nnext n)"
      by (subst state_walk.simps) (simp add: n None)
    then show ?thesis using Cons.IH [OF n(3)] n(2) None last_op_node [of key tid n] by (simp add: last_op_append)
  next
    case (Some i)
    then show ?thesis using n last_op_node [of key tid n]
      by (subst state_walk.simps) (simp add: last_op_append op_at_def)
  qed
qed

lemma future_state_last:
  assumes "fut_ok bt" "tid < n_threads bt"
  shows "future_state bt key (int tid) = Some (case last_op key (producer_ops bt tid) of
     None \<Rightarrow> FUTURE_ABSENT | Some op \<Rightarrow> entry_state (op_is_delete op))"
proof -
  obtain as where ok: "ptfo_ok (bt_ptfos bt ! tid) as" using assms by (auto simp: fut_ok_def ptfo_wf_def)
  show ?thesis
    using assms(2) state_walk_last [OF ptfo_frame(1) [OF ok], of key "int tid"] pending_ops_of [OF ok, of "int tid"]
    by (simp add: future_state_def Let_def producer_ops_def)
qed

section \<open>Buffering an operation\<close>

definition dir_slot :: "future_buffered_op \<Rightarrow> future_lookup_slot" where
  "dir_slot op = \<lparr>occupied = True, slot_key = op_key op, owner = op_producer_id op,
     state = entry_state (op_is_delete op), sequence = op_sequence op\<rparr>"

text \<open>The directory of each producer records the last pending operation of every key.\<close>

definition dir_covers :: "btree \<Rightarrow> bool" where
  "dir_covers bt \<longleftrightarrow> (\<forall>tid < n_threads bt. \<forall>k.
     dir_get (bt_dirs bt ! tid) k = map_option dir_slot (last_op k (producer_ops bt tid)))"

definition hash_room :: "btree \<Rightarrow> nat \<Rightarrow> int \<Rightarrow> bool" where
  "hash_room bt tid k \<longleftrightarrow> \<not> table_full (bt_hash bt ! tid) \<or> table_get (bt_hash bt ! tid) k \<noteq> None"

definition dir_room :: "btree \<Rightarrow> nat \<Rightarrow> int \<Rightarrow> bool" where
  "dir_room bt tid k \<longleftrightarrow> \<not> dir_full (bt_dirs bt ! tid) \<or> dir_get (bt_dirs bt ! tid) k \<noteq> None"

text \<open>The tables of the producer that buffers an operation cover it when they have room for its key.\<close>

lemma hash_covers_insert:
  assumes hc: "hash_covers bt" and tid: "tid < n_threads bt" "length (bt_hash bt) = n_threads bt"
    and bt': "n_threads bt' = n_threads bt" "bt_hash bt' = (bt_hash bt)[tid := h]"
    and ops: "\<And>j. j < n_threads bt \<Longrightarrow> producer_ops bt' j = (if j = tid then producer_ops bt tid @ [op] else producer_ops bt j)"
    and h: "\<And>k. table_get h k = (if k = op_key op then Some (int tid) else table_get (bt_hash bt ! tid) k)"
  shows "hash_covers bt'"
  unfolding hash_covers_def bt'
proof (intro allI impI ballI)
  fix j o' assume j: "j < n_threads bt" and o': "o' \<in> set (producer_ops bt' j)"
  show "table_get ((bt_hash bt)[tid := h] ! j) (op_key o') = Some (int j)"
    using o' ops [OF j] hc h j tid by (cases "j = tid") (auto simp: hash_covers_def)
qed

lemma dir_covers_insert:
  assumes dc: "dir_covers bt" and tid: "tid < n_threads bt" "length (bt_dirs bt) = n_threads bt"
    and bt': "n_threads bt' = n_threads bt" "bt_dirs bt' = (bt_dirs bt)[tid := d]"
    and ops: "\<And>j. j < n_threads bt \<Longrightarrow> producer_ops bt' j = (if j = tid then producer_ops bt tid @ [op] else producer_ops bt j)"
    and d: "\<And>k. dir_get d k = (if k = op_key op then Some (dir_slot op) else dir_get (bt_dirs bt ! tid) k)"
  shows "dir_covers bt'"
  unfolding dir_covers_def bt'
proof (intro allI impI)
  fix j k assume j: "j < n_threads bt"
  show "dir_get ((bt_dirs bt)[tid := d] ! j) k = map_option dir_slot (last_op k (producer_ops bt' j))"
    using ops [OF j] d dc j tid by (cases "j = tid") (auto simp: dir_covers_def last_op_snoc)
qed

lemma future_insert_ok:
  assumes ok: "fut_ok bt" and tid: "tid < n_threads bt"
  obtains bt' where "future_insert bt key (int tid) del seq = Some bt'" "fut_ok bt'"
    "bt_tree bt' = bt_tree bt" "n_threads bt' = n_threads bt"
    "\<And>j. j < n_threads bt \<Longrightarrow> producer_ops bt' j =
       (if j = tid then producer_ops bt tid @ [buffered key del seq (int tid)] else producer_ops bt j)"
    "hash_covers bt \<Longrightarrow> hash_room bt tid key \<Longrightarrow> hash_covers bt'"
    "dir_covers bt \<Longrightarrow> dir_room bt tid key \<Longrightarrow> dir_covers bt'"
proof -
  have wf: "ptfo_wf (bt_ptfos bt ! tid)" "table_ok (bt_hash bt ! tid)" "dir_ok (bt_dirs bt ! tid)"
    and len: "length (bt_hash bt) = n_threads bt" "length (bt_dirs bt) = n_threads bt"
    "length (bt_ptfos bt) = n_threads bt"
    using ok tid by (auto simp: fut_ok_def n_threads_def)
  obtain p where p: "chain_insert (bt_ptfos bt ! tid) key del seq = Some p" "ptfo_wf p"
    "\<And>t. pending t p = pending t (bt_ptfos bt ! tid) @ [buffered key del seq t]"
    using chain_insert_wf [OF wf(1)] by blast
  obtain h where h: "Insert (bt_hash bt ! tid) key (int tid) = Some h" "table_ok h" "table_get h key = Some (int tid)"
    "\<And>k'. k' \<noteq> key \<Longrightarrow> hash_room bt tid key \<Longrightarrow> table_get h k' = table_get (bt_hash bt ! tid) k'"
    using Insert_get [OF wf(2), of key "int tid"] unfolding hash_room_def by metis
  have tid': "tid < length (bt_dirs bt)" using tid len(2) by simp
  obtain d where d: "record_lookup (bt_dirs bt) key (int tid) del seq = Some ((bt_dirs bt)[tid := d])" "dir_ok d"
    "\<And>k. dir_room bt tid key \<Longrightarrow> dir_get d k = (if k = key then Some (dir_slot (buffered key del seq (int tid)))
       else dir_get (bt_dirs bt ! tid) k)"
    by (rule record_lookup_get [OF tid' wf(3), of key del seq])
      (simp add: dir_room_def dir_slot_def entry_state_def)
  let ?bt = "bt\<lparr>bt_ptfos := (bt_ptfos bt)[tid := p], bt_hash := (bt_hash bt)[tid := h],
      bt_dirs := (bt_dirs bt)[tid := d]\<rparr>"
  have n: "n_threads ?bt = n_threads bt" by (simp add: n_threads_def)
  have ops: "producer_ops ?bt j =
       (if j = tid then producer_ops bt tid @ [buffered key del seq (int tid)] else producer_ops bt j)"
    if "j < n_threads bt" for j
    using that p(3) len(3) tid by (simp add: producer_ops_def nth_list_update)
  show thesis
  proof (rule that [of ?bt])
    show "future_insert bt key (int tid) del seq = Some ?bt"
      using tid p(1) h(1) d(1) by (simp add: future_insert_def)
    show "fut_ok ?bt" using ok p(2) h(2) d(2) len n tid by (simp add: fut_ok_def nth_list_update)
    show "hash_covers ?bt" if "hash_covers bt" "hash_room bt tid key"
      by (rule hash_covers_insert [OF that(1) tid len(1) n _ ops, of h]) (use h(3,4) that(2) in auto)
    show "dir_covers ?bt" if "dir_covers bt" "dir_room bt tid key"
      by (rule dir_covers_insert [OF that(1) tid len(2) n _ ops, of d]) (use d(3) that(2) in auto)
  qed (use n ops in auto)
qed

section \<open>Searching the directories\<close>

definition increasing :: "future_buffered_op list \<Rightarrow> bool" where
  "increasing os \<longleftrightarrow> sorted_wrt (\<lambda>a b. op_sequence a < op_sequence b) os"

lemma last_op_in: "last_op k os = Some op \<Longrightarrow> op \<in> set os \<and> op_key op = k"
proof -
  assume "last_op k os = Some op"
  then obtain r where "filter (\<lambda>op. op_key op = k) (rev os) = op # r"
    by (auto simp: last_op_def split: list.splits)
  then have "op \<in> set (filter (\<lambda>op. op_key op = k) (rev os))" by (metis list.set_intros(1))
  then show ?thesis by simp
qed

lemma newest_fold_last:
  assumes "increasing os"
  shows "fold (newest_step key) os acc =
    (case last_op key os of None \<Rightarrow> acc | Some op \<Rightarrow> newest_step key op acc)"
  using assms
proof (induction os rule: rev_induct)
  case (snoc op os)
  then have IH: "fold (newest_step key) os acc =
      (case last_op key os of None \<Rightarrow> acc | Some op \<Rightarrow> newest_step key op acc)"
    and lt: "\<forall>o' \<in> set os. op_sequence o' < op_sequence op"
    by (auto simp: increasing_def sorted_wrt_append)
  show ?case
  proof (cases "op_key op = key")
    case True
    have "newest_step key op (newest_step key o' acc) = newest_step key op acc" if "last_op key os = Some o'" for o'
      using last_op_in [OF that] lt True by (cases acc) (auto simp: newest_step_def)
    then show ?thesis using IH True by (cases "last_op key os") (simp_all add: last_op_snoc)
  next
    case False
    then have "newest_step key op x = x" for x by (simp add: newest_step_def)
    then show ?thesis using IH False by (simp add: last_op_snoc)
  qed
qed simp

lemma scan_dir_of:
  assumes ok: "fut_ok bt" and tid: "tid < n_threads bt" and dc: "dir_covers bt"
    and inc: "increasing (producer_ops bt tid)"
  shows "scan_dir bt key tid (latest_of acc) =
    Some (latest_of (fold (newest_step key) (producer_ops bt tid) acc))"
proof -
  have d: "tid < length (bt_dirs bt)" "dir_ok (bt_dirs bt ! tid)" using ok tid by (auto simp: fut_ok_def)
  obtain i where i: "future_lookup_index (bt_dirs bt) key (int tid) False = Some (i, bt_dirs bt)"
    "case dir_get (bt_dirs bt ! tid) key of None \<Rightarrow> i = length (bt_dirs bt ! tid)
     | Some s \<Rightarrow> i < length (bt_dirs bt ! tid) \<and> bt_dirs bt ! tid ! i = s"
    by (rule future_lookup_index_get [OF d, of key])
  have g: "dir_get (bt_dirs bt ! tid) key = map_option dir_slot (last_op key (producer_ops bt tid))"
    using dc tid by (simp add: dir_covers_def)
  show ?thesis
  proof (cases "last_op key (producer_ops bt tid)")
    case None
    then show ?thesis using i g newest_fold_last [OF inc, of key acc] by (simp add: scan_dir_def)
  next
    case (Some op)
    then have k: "op_key op = key" by (simp add: last_op_in)
    show ?thesis
      using i g Some newest_fold_last [OF inc, of key acc] latest_update_of [OF k, of acc]
      by (simp add: scan_dir_def dir_slot_def)
  qed
qed

lemma future_lookup_state_newest:
  assumes "fut_ok bt" "dir_covers bt" "\<forall>tid < n_threads bt. increasing (producer_ops bt tid)"
  shows "future_lookup_state bt key = Some (latest_of (newest key (all_pending bt)))"
  unfolding future_lookup_state_def latest_none_of
  using assms scan_dir_of
  by (subst for_tids_newest [where os = "producer_ops bt"]) (auto simp: newest_def all_pending_def)

section \<open>Property of the chains\<close>

text \<open>C27: Buffering an operation appends it to the chain of its producer, whether it fits into the
  newest node or a node is added: the chain stays well-linked, the pending operations grow by exactly
  this one at the end, and collecting the chain returns each pending operation once.\<close>

theorem chain_insert_collect:
  assumes "ptfo_wf p"
  shows "\<exists>p' l. chain_insert p key del seq = Some p' \<and> ptfo_wf p' \<and>
    pending tid p' = pending tid p @ [buffered key del seq tid] \<and>
    future_collect_ops tid p' [] = Some l \<and> mset l = mset (pending tid p')"
proof (rule chain_insert_wf [OF assms, of key del seq])
  fix p'
  assume p': "chain_insert p key del seq = Some p'" "ptfo_wf p'"
    "\<And>tid. pending tid p' = pending tid p @ [buffered key del seq tid]"
  then show ?thesis using collect_ops_wf [OF p'(2), of tid "[]"] by auto
qed

theorem chain_insert_collect_witness:
  "\<exists>p'. chain_insert ptfo_ctor 5 False 2 = Some p' \<and> pending 0 p' = [buffered 5 False 2 0]"
  using chain_insert_collect [OF ptfo_ctor_wf(1), of 5 False 2 0] ptfo_ctor_wf(2) by auto

end
