(* ===== verification/Replay.thy ===== *)
theory Replay
  imports Futures "HOL-Library.Product_Lexorder"
begin

text \<open>
  Replaying buffered operations into the global tree (\<^verbatim>\<open>src/f3tree.cpp\<close>, the anonymous namespace,
  and \<^verbatim>\<open>btree::future_drain_thread_from_tail\<close>): the three evaluation modes and the functions they
  are made of.  All of them run with the locks of the drained producers held, so the functions here
  are sequential.
\<close>

section \<open>Model\<close>

text \<open>\<^verbatim>\<open>PTFOThreadState\<close>, the accounting of the wrapper for one producer.\<close>

record PTFOThreadState =
  node_count :: nat
  thr_entry_count :: nat
  home_node :: nat

record ReplayStats =
  applied_ops :: nat
  replayed_nodes :: nat

definition apply_buffered_op :: "tree_state \<Rightarrow> future_buffered_op \<Rightarrow> tree_state option" where
  "apply_buffered_op t op =
     (if op_is_delete op
      then do { r \<leftarrow> btree_search t (op_key op);
                if r \<noteq> 0 then tree_delete t (op_key op) else Some t }
      else tree_insert t (op_key op))"

fun replay_ops :: "tree_state \<Rightarrow> future_buffered_op list \<Rightarrow> tree_state option" where
  "replay_ops t [] = Some t"
| "replay_ops t (op # os) = do { t' \<leftarrow> apply_buffered_op t op; replay_ops t' os }"

text \<open>\<^verbatim>\<open>future_drain_thread_from_tail\<close>: apply the tail node, move the tail towards the head, free the
  node, until the dummy head is reached.\<close>

partial_function (option) drain_loop :: "tree_state \<Rightarrow> ptfo \<Rightarrow> int \<Rightarrow> (tree_state \<times> ptfo \<times> int) option" where
  "drain_loop t p applied =
     (case nnext (local_fut_tail p) of
        FNull \<Rightarrow> Some (t, p, applied)
      | FHead \<Rightarrow> None
      | FNode a \<Rightarrow>
          do { n \<leftarrow> fnodes p a;
               t' \<leftarrow> replay_ops t (node_ops 0 n);
               let next_tail = (if nprev n = FHead then FNull else nprev n);
                   hd = local_fut p;
                   hd' = (if entry_count hd > 0 then hd\<lparr>entry_count := entry_count hd - 1\<rparr> else hd)
               in drain_loop t' (p\<lparr>local_fut_tail := (local_fut_tail p)\<lparr>nnext := next_tail\<rparr>,
                                   local_fut := hd', fnodes := (fnodes p)(a := None)\<rparr>)
                    (applied + int (length (node_ops 0 n))) })"

declare drain_loop.simps [code]

definition future_drain_thread_from_tail :: "btree \<Rightarrow> int \<Rightarrow> (int \<times> btree) option" where
  "future_drain_thread_from_tail bt tid =
     (if tid < 0 \<or> tid \<ge> int (n_threads bt) then Some (0, bt)
      else do { (t, p, applied) \<leftarrow> drain_loop (bt_tree bt) (bt_ptfos bt ! nat tid) 0;
                let p' = p\<lparr>local_fut := (local_fut p)\<lparr>nnext := FNull, entry_count := 0, is_done := True\<rparr>\<rparr>
                in Some (applied, bt\<lparr>bt_tree := t, bt_ptfos := (bt_ptfos bt)[nat tid := p']\<rparr>) })"

text \<open>The order in which the mutexes of the producers are taken.\<close>

definition acquire_ptfo_locks :: "int list \<Rightarrow> int list" where
  "acquire_ptfo_locks producer_ids = filter (\<lambda>pid. 0 \<le> pid) (sort producer_ids)"

text \<open>The test at the head of every loop over producers: in range and not empty.\<close>

definition active :: "PTFOThreadState list \<Rightarrow> int \<Rightarrow> bool" where
  "active ptfo_threads producer \<longleftrightarrow>
     \<not> (producer < 0 \<or> producer \<ge> int (length ptfo_threads) \<or>
        thr_entry_count (ptfo_threads ! nat producer) = 0)"

fun clear_ptfo_threads_for_producers :: "btree \<Rightarrow> PTFOThreadState list \<Rightarrow> int list \<Rightarrow> btree option" where
  "clear_ptfo_threads_for_producers bt ptfo_threads [] = Some bt"
| "clear_ptfo_threads_for_producers bt ptfo_threads (producer # pids) =
     (if \<not> active ptfo_threads producer then clear_ptfo_threads_for_producers bt ptfo_threads pids
      else if producer \<ge> int (n_threads bt) then clear_ptfo_threads_for_producers bt ptfo_threads pids
      else do { p \<leftarrow> future_clear_thread (bt_ptfos bt ! nat producer);
                clear_ptfo_threads_for_producers (bt\<lparr>bt_ptfos := (bt_ptfos bt)[nat producer := p]\<rparr>)
                  ptfo_threads pids })"

record future_lookup_entry =
  le_key :: entry_key_t
  le_owner :: int
  le_state :: future_entry_state
  le_sequence :: "64 word"

definition lookup_entry :: "future_lookup_slot \<Rightarrow> future_lookup_entry" where
  "lookup_entry s = \<lparr>le_key = slot_key s, le_owner = owner s, le_state = state s, le_sequence = sequence s\<rparr>"

definition future_collect_lookup_entries :: "btree \<Rightarrow> future_lookup_entry list" where
  "future_collect_lookup_entries bt =
     concat (map (\<lambda>dir. map lookup_entry (filter (\<lambda>s. occupied s \<and> state s \<noteq> FUTURE_ABSENT) dir)) (bt_dirs bt))"

fun is_latest_buffered_op :: "future_buffered_op \<Rightarrow> future_lookup_entry list \<Rightarrow> bool" where
  "is_latest_buffered_op op [] = False"
| "is_latest_buffered_op op (e # es) =
     (if le_key e \<noteq> op_key op then is_latest_buffered_op op es
      else le_sequence e = op_sequence op \<and>
           le_state e = (if op_is_delete op then FUTURE_TOMBSTONE else FUTURE_PRESENT))"

text \<open>Keep the last entry of every run of equal keys.\<close>

fun dedup_latest :: "future_lookup_entry list \<Rightarrow> future_lookup_entry list \<Rightarrow> future_lookup_entry list" where
  "dedup_latest latest [] = latest"
| "dedup_latest latest (e # es) =
     dedup_latest (if latest = [] \<or> le_key (last latest) \<noteq> le_key e then latest @ [e]
                   else butlast latest @ [e]) es"

definition collect_latest_lookup_entries :: "btree \<Rightarrow> future_lookup_entry list" where
  "collect_latest_lookup_entries bt =
     dedup_latest [] (sort_key (\<lambda>e. (le_key e, le_sequence e)) (future_collect_lookup_entries bt))"

text \<open>The three evaluation modes.\<close>

fun collect_ops_of :: "btree \<Rightarrow> PTFOThreadState list \<Rightarrow> int list \<Rightarrow> future_buffered_op list \<Rightarrow> future_buffered_op list option" where
  "collect_ops_of bt ptfo_threads [] os = Some os"
| "collect_ops_of bt ptfo_threads (producer # pids) os =
     (if \<not> active ptfo_threads producer \<or> producer \<ge> int (n_threads bt) then collect_ops_of bt ptfo_threads pids os
      else do { os' \<leftarrow> future_collect_ops producer (bt_ptfos bt ! nat producer) os;
                collect_ops_of bt ptfo_threads pids os' })"

definition apply_key_ordered_ptfo_replay ::
  "btree \<Rightarrow> PTFOThreadState list \<Rightarrow> int list \<Rightarrow> (ReplayStats \<times> btree) option" where
  "apply_key_ordered_ptfo_replay bt ptfo_threads producer_ids =
     do { os \<leftarrow> collect_ops_of bt ptfo_threads producer_ids [];
          let sorted_ops = sort_key (\<lambda>op. (op_sequence op, op_producer_id op)) os
          in do { t \<leftarrow> replay_ops (bt_tree bt) sorted_ops;
                  bt' \<leftarrow> clear_ptfo_threads_for_producers (bt\<lparr>bt_tree := t\<rparr>) ptfo_threads producer_ids;
                  Some (\<lparr>applied_ops = length sorted_ops, replayed_nodes = 0\<rparr>, bt') } }"

text \<open>The assignment of producers to evaluator slots by contiguous ranges.\<close>

definition partition_slots :: "int list \<Rightarrow> nat \<Rightarrow> int list list" where
  "partition_slots producer_ids evaluator_slots =
     (let n = length producer_ids;
          chunk = (if n > 0 then (n + evaluator_slots - 1) div evaluator_slots else 1)
      in fold (\<lambda>i slots. let s = i div chunk; sl = (if s \<ge> evaluator_slots then evaluator_slots - 1 else s)
                         in slots[sl := slots ! sl @ [producer_ids ! i]])
           [0..<n] (replicate evaluator_slots []))"

fun drain_producers :: "btree \<Rightarrow> PTFOThreadState list \<Rightarrow> int list \<Rightarrow> nat \<Rightarrow> (nat \<times> btree) option" where
  "drain_producers bt ptfo_threads [] applied = Some (applied, bt)"
| "drain_producers bt ptfo_threads (producer # pids) applied =
     (if \<not> active ptfo_threads producer then drain_producers bt ptfo_threads pids applied
      else do { (a, bt') \<leftarrow> future_drain_thread_from_tail bt producer;
                drain_producers bt' ptfo_threads pids (applied + nat a) })"

fun drain_slots :: "btree \<Rightarrow> PTFOThreadState list \<Rightarrow> int list list \<Rightarrow> nat \<Rightarrow> (nat \<times> btree) option" where
  "drain_slots bt ptfo_threads [] applied = Some (applied, bt)"
| "drain_slots bt ptfo_threads (grp # slots) applied =
     do { (applied', bt') \<leftarrow> drain_producers bt ptfo_threads grp applied;
          drain_slots bt' ptfo_threads slots applied' }"

definition apply_key_partitioned_ptfo_replay ::
  "btree \<Rightarrow> PTFOThreadState list \<Rightarrow> int list \<Rightarrow> nat \<Rightarrow> (ReplayStats \<times> btree) option" where
  "apply_key_partitioned_ptfo_replay bt ptfo_threads producer_ids evaluator_slots =
     (let slots = (if evaluator_slots = 0 then 1 else evaluator_slots)
      in do { (applied, bt') \<leftarrow> drain_slots bt ptfo_threads (partition_slots producer_ids slots) 0;
              Some (\<lparr>applied_ops = applied, replayed_nodes = 0\<rparr>, bt') })"

fun collect_nodes_of ::
  "btree \<Rightarrow> PTFOThreadState list \<Rightarrow> int list \<Rightarrow> future_buffered_node list \<Rightarrow> future_buffered_node list option" where
  "collect_nodes_of bt ptfo_threads [] nodes = Some nodes"
| "collect_nodes_of bt ptfo_threads (producer # pids) nodes =
     (if \<not> active ptfo_threads producer \<or> producer \<ge> int (n_threads bt) then collect_nodes_of bt ptfo_threads pids nodes
      else do { nodes' \<leftarrow> future_collect_nodes producer (bt_ptfos bt ! nat producer) nodes;
                collect_nodes_of bt ptfo_threads pids nodes' })"

definition apply_node_ordered_ptfo_replay ::
  "btree \<Rightarrow> PTFOThreadState list \<Rightarrow> int list \<Rightarrow> (ReplayStats \<times> btree) option" where
  "apply_node_ordered_ptfo_replay bt ptfo_threads producer_ids =
     (let latest_entries = collect_latest_lookup_entries bt
      in do { nodes \<leftarrow> collect_nodes_of bt ptfo_threads producer_ids [];
              let sorted_nodes = sort_key (\<lambda>n. (first_sequence n, bnode_producer_id n)) nodes;
                  chosen = filter (\<lambda>op. is_latest_buffered_op op latest_entries) (concat (map ops sorted_nodes))
              in do { t \<leftarrow> replay_ops (bt_tree bt) chosen;
                      bt' \<leftarrow> clear_ptfo_threads_for_producers (bt\<lparr>bt_tree := t\<rparr>) ptfo_threads producer_ids;
                      Some (\<lparr>applied_ops = length chosen, replayed_nodes = length sorted_nodes\<rparr>, bt') } })"

section \<open>Replaying a list of operations\<close>

lemma replay_ops_index: "replay_ops t os = index_replay btree_search tree_insert tree_delete t os"
  by (induction os arbitrary: t) (simp_all add: apply_buffered_op_def index_apply_def)

lemma replay_ops_append: "replay_ops t (os @ os') = Option.bind (replay_ops t os) (\<lambda>t'. replay_ops t' os')"
  by (induction os arbitrary: t) (auto split: Option.bind_split)

lemma replay_node_ops: "replay_ops t (node_ops tid n) = replay_ops t (node_ops tid' n)"
proof -
  have "replay_ops t (map (op_at tid n) is) = replay_ops t (map (op_at tid' n) is)" for t "is"
  proof (induction "is" arbitrary: t)
    case (Cons i "is")
    have "apply_buffered_op t (op_at tid n i) = apply_buffered_op t (op_at tid' n i)"
      unfolding apply_buffered_op_def op_at_def future_buffered_op.simps by (rule refl)
    then show ?case using Cons by simp
  qed simp
  then show ?thesis by (simp add: node_ops_def)
qed

lemma replay_ops_returns:
  assumes "tree_ok base half t" "\<forall>op \<in> set os. storable base (op_key op)"
  obtains t' where "replay_ops t os = Some t'" "tree_ok base half t'"
    "\<And>k. k \<notin> op_key ` set os \<Longrightarrow> k \<in> key_set t' \<longleftrightarrow> k \<in> key_set t"
    "\<And>k op. last_op k os = Some op \<Longrightarrow> \<not> op_is_delete op \<Longrightarrow> k \<in> key_set t'"
proof (rule tix.replay_returns [OF assms])
  fix t'
  assume *: "index_replay btree_search tree_insert tree_delete t os = Some t'" "tree_ok base half t'"
    "\<And>k. k \<notin> op_key ` set os \<Longrightarrow> (k \<in> key_set t') = (k \<in> key_set t)"
    "\<And>k op. last_op k os = Some op \<Longrightarrow> \<not> op_is_delete op \<Longrightarrow> k \<in> key_set t'"
  show thesis by (rule that [of t']) (use * in \<open>auto simp: replay_ops_index\<close>)
qed

lemma replay_ops_exact:
  assumes "uniq_tree base t" "\<forall>op \<in> set os. storable base (op_key op)" "fresh_inserts os (key_set t)"
  obtains t' where "replay_ops t os = Some t'" "uniq_tree base t'" "key_set t' = ops_effect os (key_set t)"
  unfolding replay_ops_index using uix.replay_exact [OF assms] by blast

section \<open>Draining one chain from its tail\<close>

lemma back_links_snoc:
  "back_links h r (as @ [a]) \<longleftrightarrow>
     back_links h r as \<and> (\<exists>n. h a = Some n \<and> nprev n = (if as = [] then r else FNode (last as)))"
  by (induction as arbitrary: r) auto

lemma drain_loop_ok:
  assumes "back_links (fnodes p) FHead as" "distinct as" "\<forall>a \<in> set as. fnodes p a \<noteq> None"
    "nnext (local_fut_tail p) = (if as = [] then FNull else FNode (last as))"
    "replay_ops t (ops_of tid (fnodes p) as) = Some t'"
  shows "\<exists>p'. drain_loop t p ap = Some (t', p', ap + int (length (ops_of tid (fnodes p) as))) \<and>
    nnext (local_fut_tail p') = FNull \<and> next_fnode p' = next_fnode p \<and>
    (\<forall>a. fnodes p' a \<noteq> None \<longrightarrow> fnodes p a \<noteq> None)"
  using assms
proof (induction as arbitrary: p t ap rule: rev_induct)
  case Nil
  then show ?case by (subst drain_loop.simps) auto
next
  case (snoc a as)
  obtain n where n: "fnodes p a = Some n" "nprev n = (if as = [] then FHead else FNode (last as))"
    using snoc.prems(1) by (auto simp: back_links_snoc)
  obtain t1 where t1: "replay_ops t (node_ops 0 n) = Some t1" "replay_ops t1 (ops_of tid (fnodes p) as) = Some t'"
    using snoc.prems(5) n(1) replay_node_ops [of t tid n 0] by (auto simp: replay_ops_append bind_eq_Some_conv)
  let ?hd = "if entry_count (local_fut p) > 0 then (local_fut p)\<lparr>entry_count := entry_count (local_fut p) - 1\<rparr> else local_fut p"
  let ?p = "p\<lparr>local_fut_tail := (local_fut_tail p)\<lparr>nnext := if as = [] then FNull else FNode (last as)\<rparr>,
      local_fut := ?hd, fnodes := (fnodes p)(a := None)\<rparr>"
  have step: "drain_loop t p ap = drain_loop t1 ?p (ap + int (length (node_ops 0 n)))"
    using snoc.prems(4) n t1(1) by (subst drain_loop.simps) (simp add: Let_def)
  have fr: "\<forall>x \<in> set as. fnodes ?p x = fnodes p x" using snoc.prems(2) by auto
  have bl: "back_links (fnodes ?p) FHead as"
    by (rule back_links_frame [OF _ fr]) (use snoc.prems(1) in \<open>simp add: back_links_snoc\<close>)
  have ops: "ops_of tid (fnodes ?p) as = ops_of tid (fnodes p) as" by (rule ops_of_frame [OF fr])
  have dist: "distinct as" and ex: "\<forall>x \<in> set as. fnodes ?p x \<noteq> None"
    and tl: "nnext (local_fut_tail ?p) = (if as = [] then FNull else FNode (last as))"
    using snoc.prems(2,3) by auto
  obtain p' where p': "drain_loop t1 ?p (ap + int (length (node_ops 0 n))) =
      Some (t', p', ap + int (length (node_ops 0 n)) + int (length (ops_of tid (fnodes ?p) as)))"
    "nnext (local_fut_tail p') = FNull" "next_fnode p' = next_fnode ?p" "\<forall>x. fnodes p' x \<noteq> None \<longrightarrow> fnodes ?p x \<noteq> None"
    using snoc.IH [OF bl dist ex tl t1(2) [folded ops]] by blast
  have "length (node_ops tid n) = length (node_ops 0 n)" by (simp add: node_ops_def)
  then show ?case
    using step p' ops n(1) by (auto split: if_splits)
qed

lemma drain_thread_ok:
  assumes ok: "fut_ok bt" and tid: "tid < n_threads bt" and r: "replay_ops (bt_tree bt) (producer_ops bt tid) = Some t'"
  obtains p' where "future_drain_thread_from_tail bt (int tid) =
      Some (int (length (producer_ops bt tid)), bt\<lparr>bt_tree := t', bt_ptfos := (bt_ptfos bt)[tid := p']\<rparr>)"
    "ptfo_wf p'" "\<And>j. pending j p' = []"
proof -
  let ?p = "bt_ptfos bt ! tid"
  obtain as where as: "ptfo_ok ?p as" using ok tid by (auto simp: fut_ok_def ptfo_wf_def)
  note f = ptfo_frame [OF as] and po = pending_ops_of [OF as, of "int tid"]
  have ex: "\<forall>a \<in> set as. fnodes ?p a \<noteq> None" using f(5) by auto
  obtain p1 where p1: "drain_loop (bt_tree bt) ?p 0 = Some (t', p1, int (length (producer_ops bt tid)))"
    "nnext (local_fut_tail p1) = FNull" "next_fnode p1 = next_fnode ?p" "\<forall>a. fnodes p1 a \<noteq> None \<longrightarrow> fnodes ?p a \<noteq> None"
    using drain_loop_ok [OF f(2,3) ex f(4), of "bt_tree bt" "int tid" t' 0] r po by (auto simp: producer_ops_def)
  let ?p' = "p1\<lparr>local_fut := (local_fut p1)\<lparr>nnext := FNull, entry_count := 0, is_done := True\<rparr>\<rparr>"
  have "ptfo_ok ?p' []" using p1(2-4) f(6) by (simp add: ptfo_ok_def)
  then have "ptfo_wf ?p'" "\<And>j. pending j ?p' = []" using pending_ops_of [of ?p' "[]"] by (auto simp: ptfo_wf_def)
  moreover have "future_drain_thread_from_tail bt (int tid) =
      Some (int (length (producer_ops bt tid)), bt\<lparr>bt_tree := t', bt_ptfos := (bt_ptfos bt)[tid := ?p']\<rparr>)"
    using tid p1(1) by (simp add: future_drain_thread_from_tail_def Let_def)
  ultimately show thesis using that by blast
qed

section \<open>Clearing and collecting\<close>

text \<open>The accounting of the wrapper agrees with the chains.\<close>

definition accounted :: "btree \<Rightarrow> PTFOThreadState list \<Rightarrow> bool" where
  "accounted bt threads \<longleftrightarrow> length threads = n_threads bt \<and>
     (\<forall>tid < n_threads bt. thr_entry_count (threads ! tid) = length (producer_ops bt tid))"

definition valid_pids :: "btree \<Rightarrow> int list \<Rightarrow> bool" where
  "valid_pids bt pids \<longleftrightarrow> distinct pids \<and> (\<forall>pid \<in> set pids. 0 \<le> pid \<and> pid < int (n_threads bt))"

definition selected :: "btree \<Rightarrow> int list \<Rightarrow> future_buffered_op list" where
  "selected bt pids = concat (map (\<lambda>pid. producer_ops bt (nat pid)) pids)"

text \<open>The chains of the given producers are empty, everything else in the buffering layer is as
  before.\<close>

definition cleared :: "btree \<Rightarrow> btree \<Rightarrow> int list \<Rightarrow> bool" where
  "cleared bt bt' pids \<longleftrightarrow> fut_ok bt' \<and> n_threads bt' = n_threads bt \<and> bt_hash bt' = bt_hash bt \<and>
     bt_dirs bt' = bt_dirs bt \<and> bt_is_Done bt' = bt_is_Done bt \<and> bt_eval_threads bt' = bt_eval_threads bt \<and>
     (\<forall>j < n_threads bt. producer_ops bt' j = (if int j \<in> set pids then [] else producer_ops bt j))"

lemma active_iff:
  "accounted bt threads \<Longrightarrow> 0 \<le> pid \<Longrightarrow> pid < int (n_threads bt) \<Longrightarrow>
   active threads pid \<longleftrightarrow> producer_ops bt (nat pid) \<noteq> []"
  by (auto simp: active_def accounted_def)

lemma fut_ok_set_ptfo:
  assumes "fut_ok bt" "tid < n_threads bt" "ptfo_wf p" "\<And>j. pending j p = []"
  shows "cleared bt (bt\<lparr>bt_ptfos := (bt_ptfos bt)[tid := p]\<rparr>) [int tid]"
proof -
  have "length (bt_ptfos bt) = n_threads bt" by (simp add: n_threads_def)
  then show ?thesis
    using assms by (auto simp: cleared_def fut_ok_def n_threads_def producer_ops_def nth_list_update)
qed

lemma cleared_trans: "cleared bt bt1 ps \<Longrightarrow> cleared bt1 bt2 qs \<Longrightarrow> cleared bt bt2 (ps @ qs)"
  by (auto simp: cleared_def)

lemma cleared_refl: "fut_ok bt \<Longrightarrow> cleared bt bt []"
  by (simp add: cleared_def)

lemma fut_ok_tree [simp]: "fut_ok (bt\<lparr>bt_tree := t\<rparr>) = fut_ok bt"
  "n_threads (bt\<lparr>bt_tree := t\<rparr>) = n_threads bt" "producer_ops (bt\<lparr>bt_tree := t\<rparr>) j = producer_ops bt j"
  by (simp_all add: fut_ok_def n_threads_def producer_ops_def)

text \<open>Skipping a producer without pending operations is the same as clearing it.\<close>

lemma cleared_skip: "fut_ok bt \<Longrightarrow> producer_ops bt (nat pid) = [] \<Longrightarrow> 0 \<le> pid \<Longrightarrow> cleared bt bt [pid]"
  by (auto simp: cleared_def)

text \<open>A loop over producers sees the accounting of the state it started in.\<close>

definition accounted_for :: "btree \<Rightarrow> PTFOThreadState list \<Rightarrow> int list \<Rightarrow> bool" where
  "accounted_for bt threads pids \<longleftrightarrow> length threads = n_threads bt \<and> distinct pids \<and>
     (\<forall>pid \<in> set pids. 0 \<le> pid \<and> pid < int (n_threads bt) \<and> (producer_ops bt (nat pid) \<noteq> [] \<longrightarrow> active threads pid))"

lemma accounted_forI: "accounted bt threads \<Longrightarrow> valid_pids bt pids \<Longrightarrow> accounted_for bt threads pids"
  using active_iff by (auto simp: accounted_for_def valid_pids_def accounted_def)

lemma accounted_for_valid: "accounted_for bt threads pids \<Longrightarrow> valid_pids bt pids"
  by (simp add: accounted_for_def valid_pids_def)

lemma accounted_for_step:
  assumes "accounted_for bt threads (pid # pids)" "cleared bt bt' [pid]"
  shows "accounted_for bt' threads pids"
proof -
  have "producer_ops bt' (nat q) = producer_ops bt (nat q)" if "q \<in> set pids" for q
  proof -
    have "0 \<le> q" "q < int (n_threads bt)" "q \<noteq> pid" using assms(1) that by (auto simp: accounted_for_def)
    then have "nat q < n_threads bt" "int (nat q) \<notin> set [pid]" by auto
    then show ?thesis using assms(2) unfolding cleared_def by (metis (full_types))
  qed
  then show ?thesis using assms by (simp add: accounted_for_def cleared_def)
qed

lemma clear_threads_ok:
  assumes "fut_ok bt" "accounted_for bt threads pids"
  shows "\<exists>bt'. clear_ptfo_threads_for_producers bt threads pids = Some bt' \<and> cleared bt bt' pids \<and>
    bt_tree bt' = bt_tree bt"
  using assms
proof (induction pids arbitrary: bt)
  case Nil
  then show ?case by (simp add: cleared_refl)
next
  case (Cons pid pids)
  have pid: "0 \<le> pid" "pid < int (n_threads bt)" "producer_ops bt (nat pid) \<noteq> [] \<longrightarrow> active threads pid"
    using Cons.prems(2) by (auto simp: accounted_for_def)
  obtain bt1 where bt1: "clear_ptfo_threads_for_producers bt threads (pid # pids) =
      clear_ptfo_threads_for_producers bt1 threads pids" "cleared bt bt1 [pid]" "bt_tree bt1 = bt_tree bt"
  proof (cases "active threads pid")
    case True
    have wf: "ptfo_wf (bt_ptfos bt ! nat pid)" using Cons.prems(1) pid by (auto simp: fut_ok_def)
    obtain p where p: "future_clear_thread (bt_ptfos bt ! nat pid) = Some p" "ptfo_wf p" "\<And>j. pending j p = []"
      using clear_thread_wf [OF wf] by blast
    have "cleared bt (bt\<lparr>bt_ptfos := (bt_ptfos bt)[nat pid := p]\<rparr>) [pid]"
      using fut_ok_set_ptfo [OF Cons.prems(1) _ p(2,3), of "nat pid"] pid by simp
    then show ?thesis using that True p(1) pid by simp
  next
    case False
    then show ?thesis using that [of bt] pid cleared_skip [OF Cons.prems(1)] by simp
  qed
  obtain bt2 where "clear_ptfo_threads_for_producers bt1 threads pids = Some bt2" "cleared bt1 bt2 pids"
    "bt_tree bt2 = bt_tree bt1"
    using Cons.IH [of bt1] bt1(2) accounted_for_step [OF Cons.prems(2)] by (auto simp: cleared_def)
  then show ?case using bt1 cleared_trans [of bt bt1 "[pid]" bt2 pids] by auto
qed

lemma collect_ops_of_ok:
  assumes "fut_ok bt" "accounted_for bt threads pids"
  shows "\<exists>l. collect_ops_of bt threads pids os = Some (os @ l) \<and> mset l = mset (selected bt pids)"
  using assms
proof (induction pids arbitrary: os)
  case Nil
  then show ?case by (simp add: selected_def)
next
  case (Cons pid pids)
  have pid: "0 \<le> pid" "pid < int (n_threads bt)" "producer_ops bt (nat pid) \<noteq> [] \<longrightarrow> active threads pid"
    and rest: "accounted_for bt threads pids"
    using Cons.prems(2) by (auto simp: accounted_for_def)
  show ?case
  proof (cases "active threads pid")
    case True
    have wf: "ptfo_wf (bt_ptfos bt ! nat pid)" using Cons.prems(1) pid by (auto simp: fut_ok_def)
    obtain l where l: "future_collect_ops pid (bt_ptfos bt ! nat pid) os = Some (os @ l)"
      "mset l = mset (producer_ops bt (nat pid))"
      using collect_ops_wf [OF wf, of pid os] pid(1) by (auto simp: producer_ops_def)
    obtain l' where "collect_ops_of bt threads pids (os @ l) = Some ((os @ l) @ l')" "mset l' = mset (selected bt pids)"
      using Cons.IH [OF Cons.prems(1) rest] by blast
    then show ?thesis using l True pid by (auto simp: selected_def)
  next
    case False
    then show ?thesis using Cons.IH [OF Cons.prems(1) rest] pid by (simp add: selected_def)
  qed
qed

section \<open>The deterministic mode\<close>

lemma increasing_sorted:
  assumes "inj_on op_sequence (set os)" "distinct os"
  shows "increasing (sort_key (\<lambda>op. (op_sequence op, op_producer_id op)) os)"
proof -
  let ?s = "sort_key (\<lambda>op. (op_sequence op, op_producer_id op)) os"
  have srt: "sorted_wrt (\<lambda>a b. (op_sequence a, op_producer_id a) \<le> (op_sequence b, op_producer_id b)) ?s"
    using sorted_sort_key [of "\<lambda>op. (op_sequence op, op_producer_id op)" os] by (simp add: sorted_map)
  have le: "op_sequence (?s ! i) \<le> op_sequence (?s ! j)" if ij: "i < j" "j < length ?s" for i j
  proof -
    have "(op_sequence (?s ! i), op_producer_id (?s ! i)) \<le> (op_sequence (?s ! j), op_producer_id (?s ! j))"
      by (rule sorted_wrt_nth_less [OF srt ij])
    then show ?thesis by (simp only: less_eq_prod_def fst_conv snd_conv) (elim disjE conjE; simp only: less_imp_le)
  qed
  have "op_sequence (?s ! i) < op_sequence (?s ! j)" if ij: "i < j" "j < length ?s" for i j
  proof -
    have "distinct ?s" using assms(2) by simp
    then have "?s ! i \<noteq> ?s ! j" using ij by (simp add: nth_eq_iff_index_eq)
    moreover have "?s ! i \<in> set os" "?s ! j \<in> set os"
      using nth_mem [of i ?s] nth_mem [of j ?s] ij by auto
    ultimately have "op_sequence (?s ! i) \<noteq> op_sequence (?s ! j)" using assms(1) by (metis inj_onD)
    then show ?thesis using le [OF ij] by simp
  qed
  then show ?thesis by (simp add: increasing_def sorted_wrt_iff_nth_less)
qed

section \<open>Locking order\<close>

lemma sorted_wrt_split: "sorted_wrt P (us @ x # vs @ y # ws) \<Longrightarrow> P x y"
  by (simp add: sorted_wrt_append)



end
