(* ===== verification/Replay_Correct.thy ===== *)
theory Replay_Correct
  imports Replay
begin

text \<open>
  What the three replay modes do to the tree and the chains.  All of them replay a list made of the
  operations of the selected producers and leave their chains empty; they differ in the list: sorted
  by sequence number, producer after producer, or filtered to the operations the lookup directories
  name as the latest of their key.
\<close>

section \<open>Draining a set of producers\<close>

definition drained :: "btree \<Rightarrow> btree \<Rightarrow> int list \<Rightarrow> future_buffered_op list \<Rightarrow> bool" where
  "drained bt bt' pids os \<longleftrightarrow> replay_ops (bt_tree bt) os = Some (bt_tree bt') \<and> cleared bt bt' pids"

lemma cleared_tree [simp]: "cleared (bt\<lparr>bt_tree := t\<rparr>) bt' pids = cleared bt bt' pids"
  by (simp add: cleared_def)

lemma cleared_tree' [simp]: "cleared bt (bt'\<lparr>bt_tree := t\<rparr>) pids = cleared bt bt' pids"
  by (simp add: cleared_def)

lemma accounted_for_tree [simp]: "accounted_for (bt\<lparr>bt_tree := t\<rparr>) threads pids = accounted_for bt threads pids"
  by (simp add: accounted_for_def)

lemma selected_in_pending:
  assumes "\<forall>pid \<in> set pids. 0 \<le> pid \<and> pid < int (n_threads bt)"
  shows "set (selected bt pids) \<subseteq> set (all_pending bt)"
  using assms by (auto simp: selected_def all_pending_def) (metis atLeastLessThan_iff nat_less_iff zero_le)

lemma clear_after_replay:
  assumes "fut_ok bt" "accounted_for bt threads pids" "replay_ops (bt_tree bt) os = Some t"
  obtains bt' where "clear_ptfo_threads_for_producers (bt\<lparr>bt_tree := t\<rparr>) threads pids = Some bt'"
    "drained bt bt' pids os"
  using clear_threads_ok [of "bt\<lparr>bt_tree := t\<rparr>" threads pids] assms by (auto simp: drained_def)

text \<open>The keys of a tree of well-formed pages into which storable operations are replayed.\<close>

definition replayable :: "int \<Rightarrow> btree \<Rightarrow> future_buffered_op list \<Rightarrow> bool" where
  "replayable base bt os \<longleftrightarrow> tree_ok base half (bt_tree bt) \<and> (\<forall>op \<in> set os. storable base (op_key op))"

lemma replayable_returns:
  assumes "replayable base bt os" "set os' \<subseteq> set os"
  obtains t where "replay_ops (bt_tree bt) os' = Some t"
proof -
  have t: "tree_ok base half (bt_tree bt)" using assms(1) by (auto simp: replayable_def)
  have "\<forall>op \<in> set os'. storable base (op_key op)" using assms by (auto simp: replayable_def)
  then show thesis by (rule replay_ops_returns [OF t]) (rule that)
qed

section \<open>The deterministic mode\<close>

lemma key_ordered_ok:
  assumes ok: "fut_ok bt" "accounted_for bt threads pids" and r: "replayable base bt (selected bt pids)"
    and d: "distinct (map op_sequence (selected bt pids))"
  obtains st bt' os where "apply_key_ordered_ptfo_replay bt threads pids = Some (st, bt')"
    "drained bt bt' pids os" "mset os = mset (selected bt pids)" "increasing os"
    "applied_ops st = length (selected bt pids)"
proof -
  obtain l where l: "collect_ops_of bt threads pids [] = Some l" "mset l = mset (selected bt pids)"
    using collect_ops_of_ok [OF ok, of "[]"] by auto
  let ?os = "sort_key (\<lambda>op. (op_sequence op, op_producer_id op)) l"
  have "mset ?os = mset (selected bt pids)" using l(2) by simp
  moreover from this have "set ?os \<subseteq> set (selected bt pids)" by (metis set_mset_mset subset_refl)
  then obtain t where t: "replay_ops (bt_tree bt) ?os = Some t" using replayable_returns [OF r] by blast
  moreover obtain bt' where bt': "clear_ptfo_threads_for_producers (bt\<lparr>bt_tree := t\<rparr>) threads pids = Some bt'"
    "drained bt bt' pids ?os"
    using clear_after_replay [OF ok t] by blast
  moreover have "distinct (map op_sequence l)"
    using d l(2) by (metis mset_eq_imp_distinct_iff mset_map)
  then have "increasing ?os" by (intro increasing_sorted) (auto simp: distinct_map)
  moreover have "length ?os = length (selected bt pids)" using l(2) by (metis length_sort size_mset)
  ultimately show thesis using that l(1) t by (simp add: apply_key_ordered_ptfo_replay_def Let_def)
qed

lemma key_ordered_last:
  assumes "mset os = mset sel" "increasing os" "distinct (map op_sequence sel)"
  shows "last_op k os = newest k sel"
proof -
  have "set os = set sel" using assms(1) by (metis set_mset_mset)
  moreover have "newest k os = last_op k os" using newest_last assms(2) by (simp add: increasing_def)
  ultimately show ?thesis using newest_set [of os sel k] assms(3) by (simp add: distinct_map)
qed

section \<open>The key-partitioned mode\<close>

text \<open>Slot assignment by contiguous ranges keeps the order of the producers.\<close>

lemma concat_update_last:
  assumes "i < length xs" "\<And>j. i < j \<Longrightarrow> j < length xs \<Longrightarrow> xs ! j = []"
  shows "concat (xs[i := v]) = concat (take i xs) @ v"
proof -
  have "concat (drop (Suc i) xs) = []" using assms(2) by (auto simp: in_set_conv_nth)
  then show ?thesis using assms(1) by (simp add: upd_conv_take_nth_drop)
qed

definition assign_slots :: "(nat \<Rightarrow> nat) \<Rightarrow> 'a list \<Rightarrow> nat \<Rightarrow> nat \<Rightarrow> 'a list list" where
  "assign_slots f xs s n = fold (\<lambda>i slots. slots[f i := slots ! f i @ [xs ! i]]) [0..<n] (replicate s [])"

lemma assign_slots_concat:
  assumes "\<And>i j. i \<le> j \<Longrightarrow> f i \<le> f j" "\<And>i. f i < s" "n \<le> length xs"
  shows "length (assign_slots f xs s n) = s \<and> concat (assign_slots f xs s n) = take n xs \<and>
    (\<forall>j < s. (\<forall>i < n. f i < j) \<longrightarrow> assign_slots f xs s n ! j = [])"
  using assms(3)
proof (induction n)
  case 0
  then show ?case by (simp add: assign_slots_def)
next
  case (Suc n)
  let ?sl = "assign_slots f xs s n"
  have step: "assign_slots f xs s (Suc n) = ?sl[f n := ?sl ! f n @ [xs ! n]]" by (simp add: assign_slots_def)
  have IH: "length ?sl = s" "concat ?sl = take n xs" "\<forall>j < s. (\<forall>i < n. f i < j) \<longrightarrow> ?sl ! j = []"
    using Suc by auto
  have fn: "f n < length ?sl" using IH(1) assms(2) by simp
  have empty: "?sl ! j = []" if j: "f n < j" "j < length ?sl" for j
  proof -
    have "f i < j" if "i < n" for i using assms(1) [of i n] that j(1) by simp
    then show ?thesis using IH(1,3) j(2) by simp
  qed
  note up = concat_update_last [OF fn empty]
  have "concat (take (f n) ?sl) @ ?sl ! f n = take n xs"
    using up [of "?sl ! f n"] IH(2) by simp
  then have "concat (assign_slots f xs s (Suc n)) = take (Suc n) xs"
    using Suc.prems by (simp add: step up take_Suc_conv_app_nth)
  moreover have "length (assign_slots f xs s (Suc n)) = s" using IH(1) by (simp add: step)
  moreover have "assign_slots f xs s (Suc n) ! j = []" if j: "j < s" "\<forall>i < Suc n. f i < j" for j
  proof -
    have "f n \<noteq> j" "\<forall>i < n. f i < j" using j(2) by auto
    then show ?thesis using IH(3) j(1) by (simp add: step)
  qed
  ultimately show ?case by blast
qed

lemma partition_slots_concat:
  assumes "0 < s"
  shows "concat (partition_slots pids s) = pids" "length (partition_slots pids s) = s"
proof -
  define c where "c = (if length pids > 0 then (length pids + s - 1) div s else 1)"
  define f where "f i = (if i div c \<ge> s then s - 1 else i div c)" for i
  have eq: "partition_slots pids s = assign_slots f pids s (length pids)"
    by (simp only: partition_slots_def assign_slots_def Let_def f_def c_def)
  have mono: "f i \<le> f j" if "i \<le> j" for i j
    using div_le_mono [OF that, of c] assms by (auto simp: f_def)
  have bnd: "f i < s" for i using assms by (simp add: f_def)
  note pf = assign_slots_concat [of f s "length pids" pids, OF mono bnd order_refl]
  show "concat (partition_slots pids s) = pids" "length (partition_slots pids s) = s"
    using pf unfolding eq by (simp_all only: take_all_iff order_refl)
qed

lemma drain_slots_concat: "drain_slots bt threads slots ap = drain_producers bt threads (concat slots) ap"
proof -
  have app: "drain_producers bt threads (ps @ qs) ap =
      Option.bind (drain_producers bt threads ps ap) (\<lambda>(ap', bt'). drain_producers bt' threads qs ap')" for ps qs bt ap
    by (induction ps arbitrary: bt ap) (auto split: Option.bind_split)
  show ?thesis by (induction slots arbitrary: bt ap) (auto simp: app split: Option.bind_split)
qed

text \<open>One step of the loop: the chain of an active producer is replayed and cleared, any other one is empty.\<close>

lemma drain_producer_step:
  assumes ok: "fut_ok bt" and pid: "0 \<le> pid" "pid < int (n_threads bt)" "producer_ops bt (nat pid) \<noteq> [] \<longrightarrow> active threads pid"
    and t1: "replay_ops (bt_tree bt) (producer_ops bt (nat pid)) = Some t1"
  obtains bt1 where "drain_producers bt threads (pid # pids) ap =
      drain_producers bt1 threads pids (ap + length (producer_ops bt (nat pid)))"
    "cleared bt bt1 [pid]" "bt_tree bt1 = t1"
proof (cases "active threads pid")
  case True
  obtain p where p: "future_drain_thread_from_tail bt (int (nat pid)) =
      Some (int (length (producer_ops bt (nat pid))), bt\<lparr>bt_tree := t1, bt_ptfos := (bt_ptfos bt)[nat pid := p]\<rparr>)"
    "ptfo_wf p" "\<And>j. pending j p = []"
    by (rule drain_thread_ok [OF ok _ t1]) (use pid in auto)
  have c: "cleared bt (bt\<lparr>bt_ptfos := (bt_ptfos bt)[nat pid := p]\<rparr>) [pid]"
    using fut_ok_set_ptfo [OF ok _ p(2,3), of "nat pid"] pid by simp
  have up: "bt\<lparr>bt_tree := t1, bt_ptfos := (bt_ptfos bt)[nat pid := p]\<rparr> =
      bt\<lparr>bt_ptfos := (bt_ptfos bt)[nat pid := p]\<rparr>\<lparr>bt_tree := t1\<rparr>" by simp
  show ?thesis
    by (rule that [of "bt\<lparr>bt_ptfos := (bt_ptfos bt)[nat pid := p]\<rparr>\<lparr>bt_tree := t1\<rparr>"])
      (use True p(1) pid c in \<open>auto simp: up\<close>)
next
  case False
  then have "producer_ops bt (nat pid) = []" using pid(3) by simp
  then show ?thesis using that [of bt] False t1 pid cleared_skip [OF ok] by simp
qed

lemma selected_cleared:
  assumes "cleared bt bt1 [pid]" "pid \<notin> set pids" "\<forall>q \<in> set pids. 0 \<le> q \<and> q < int (n_threads bt)"
  shows "selected bt1 pids = selected bt pids"
  unfolding selected_def
proof (intro arg_cong [of _ _ concat] map_cong refl)
  fix q assume "q \<in> set pids"
  then have "nat q < n_threads bt" "int (nat q) \<notin> set [pid]" using assms(2,3) by (auto simp: nat_less_iff)
  then show "producer_ops bt1 (nat q) = producer_ops bt (nat q)" using assms(1) by (simp add: cleared_def)
qed

lemma drain_producers_ok:
  assumes "fut_ok bt" "accounted_for bt threads pids" "replay_ops (bt_tree bt) (selected bt pids) = Some t"
  shows "\<exists>bt'. drain_producers bt threads pids ap = Some (ap + length (selected bt pids), bt') \<and>
    drained bt bt' pids (selected bt pids)"
  using assms
proof (induction pids arbitrary: bt ap)
  case Nil
  then show ?case by (simp add: selected_def drained_def cleared_refl)
next
  case (Cons pid pids)
  have pid: "0 \<le> pid" "pid < int (n_threads bt)" "producer_ops bt (nat pid) \<noteq> [] \<longrightarrow> active threads pid"
    and new: "pid \<notin> set pids" and rng: "\<forall>q \<in> set pids. 0 \<le> q \<and> q < int (n_threads bt)"
    using Cons.prems(2) by (auto simp: accounted_for_def)
  have sel: "selected bt (pid # pids) = producer_ops bt (nat pid) @ selected bt pids" by (simp add: selected_def)
  obtain t1 where t1: "replay_ops (bt_tree bt) (producer_ops bt (nat pid)) = Some t1"
    "replay_ops t1 (selected bt pids) = Some t"
    using Cons.prems(3) by (auto simp: sel replay_ops_append bind_eq_Some_conv)
  obtain bt1 where bt1: "drain_producers bt threads (pid # pids) ap =
      drain_producers bt1 threads pids (ap + length (producer_ops bt (nat pid)))"
    "cleared bt bt1 [pid]" "bt_tree bt1 = t1"
    by (rule drain_producer_step [OF Cons.prems(1) pid t1(1)])
  note same = selected_cleared [OF bt1(2) new rng]
  obtain bt2 where "drain_producers bt1 threads pids (ap + length (producer_ops bt (nat pid))) =
      Some (ap + length (producer_ops bt (nat pid)) + length (selected bt pids), bt2)"
    "drained bt1 bt2 pids (selected bt pids)"
    using Cons.IH [of bt1] bt1(2,3) t1(2) accounted_for_step [OF Cons.prems(2) bt1(2)] same
    by (auto simp: cleared_def)
  then show ?case
    using bt1 t1(1) cleared_trans [of bt bt1 "[pid]" bt2 pids]
    by (auto simp: sel drained_def replay_ops_append)
qed

lemma key_partitioned_ok:
  assumes ok: "fut_ok bt" "accounted_for bt threads pids" and r: "replayable base bt (selected bt pids)"
  obtains st bt' where "apply_key_partitioned_ptfo_replay bt threads pids slots = Some (st, bt')"
    "drained bt bt' pids (selected bt pids)" "applied_ops st = length (selected bt pids)"
proof -
  obtain t where t: "replay_ops (bt_tree bt) (selected bt pids) = Some t"
    using replayable_returns [OF r order_refl] by blast
  obtain bt' where "drain_producers bt threads pids 0 = Some (length (selected bt pids), bt')"
    "drained bt bt' pids (selected bt pids)"
    using drain_producers_ok [OF ok t, of 0] by auto
  moreover have "concat (partition_slots pids (if slots = 0 then 1 else slots)) = pids"
    by (rule partition_slots_concat) simp
  ultimately have "apply_key_partitioned_ptfo_replay bt threads pids slots =
      Some (\<lparr>applied_ops = length (selected bt pids), replayed_nodes = 0\<rparr>, bt')"
    by (simp add: apply_key_partitioned_ptfo_replay_def Let_def drain_slots_concat)
  then show thesis using that \<open>drained bt bt' pids (selected bt pids)\<close> by simp
qed

text \<open>With disjoint keys the order of the producers does not matter: the last operation of a key in the
  concatenated chains is its newest one.\<close>

definition disjoint_keys :: "btree \<Rightarrow> bool" where
  "disjoint_keys bt \<longleftrightarrow> (\<forall>i < n_threads bt. \<forall>j < n_threads bt. i \<noteq> j \<longrightarrow>
     op_key ` set (producer_ops bt i) \<inter> op_key ` set (producer_ops bt j) = {})"

lemma last_op_filter: "last_op k (filter (\<lambda>op. op_key op = k) os) = last_op k os"
  by (induction os rule: rev_induct) (simp_all add: last_op_snoc)

lemma newest_filter: "newest k (filter (\<lambda>op. op_key op = k) os) = newest k os"
  by (induction os rule: rev_induct) (simp_all add: newest_snoc newest_step_def)

lemma disjoint_increasing:
  assumes "disjoint_keys bt" "\<forall>tid < n_threads bt. increasing (producer_ops bt tid)"
  shows "increasing (filter (\<lambda>op. op_key op = k) (all_pending bt))"
proof -
  let ?P = "\<lambda>op. op_key op = k"
  have "increasing (filter ?P (concat (map (producer_ops bt) tids)))"
    if "set tids \<subseteq> {0..<n_threads bt}" "distinct tids" for tids
    using that
  proof (induction tids)
    case (Cons tid tids)
    have inc: "increasing (filter ?P (producer_ops bt tid))"
      using assms(2) Cons.prems(1) by (auto simp: increasing_def intro: sorted_wrt_filter)
    have False if x: "x \<in> set (producer_ops bt tid)" "op_key x = k" and y: "y \<in> set (producer_ops bt j)" "op_key y = k" "j \<in> set tids"
      for x y j
    proof -
      have j: "tid < n_threads bt" "j < n_threads bt" "tid \<noteq> j" using Cons.prems y(3) by auto
      then have "op_key ` set (producer_ops bt tid) \<inter> op_key ` set (producer_ops bt j) = {}"
        using assms(1) by (simp add: disjoint_keys_def)
      then show False using x y by blast
    qed
    then show ?case using inc Cons by (auto simp: increasing_def sorted_wrt_append)
  qed (simp add: increasing_def)
  then show ?thesis by (simp add: all_pending_def)
qed

lemma disjoint_last:
  assumes "disjoint_keys bt" "\<forall>tid < n_threads bt. increasing (producer_ops bt tid)"
  shows "last_op k (all_pending bt) = newest k (all_pending bt)"
proof -
  let ?P = "\<lambda>op. op_key op = k"
  have "newest k (filter ?P (all_pending bt)) = last_op k (filter ?P (all_pending bt))"
    using newest_last disjoint_increasing [OF assms] by (simp add: increasing_def)
  then show ?thesis by (simp add: newest_filter last_op_filter)
qed

section \<open>The node-ordered mode\<close>

lemma mset_concat_map: "mset (concat (map f xs)) = sum_mset (image_mset (\<lambda>x. mset (f x)) (mset xs))"
  by (induction xs) simp_all

lemma collect_nodes_wf:
  assumes "ptfo_wf p"
  shows "\<exists>ns. future_collect_nodes tid p nodes = Some (nodes @ ns) \<and> mset (concat (map ops ns)) = mset (pending tid p)"
proof -
  obtain as where ok: "ptfo_ok p as" using assms by (auto simp: ptfo_wf_def)
  define g where "g = (\<lambda>a. buffered_node tid (the (fnodes p a)))"
  have "fold (\<lambda>a nodes. let b = g a in if ops b \<noteq> [] then nodes @ [b] else nodes) as nodes =
      nodes @ filter (\<lambda>b. ops b \<noteq> []) (map g as)"
    by (induction as arbitrary: nodes) (auto simp: Let_def)
  moreover have "concat (map ops (filter (\<lambda>b. ops b \<noteq> []) (map g as))) =
      concat (map (\<lambda>a. node_ops tid (the (fnodes p a))) as)"
    by (induction as) (auto simp: g_def buffered_node_def Let_def)
  moreover have "mset (concat (map (\<lambda>a. node_ops tid (the (fnodes p a))) as)) = mset (pending tid p)"
    by (auto simp: pending_ops_of [OF ok] ops_of_def mset_concat rev_map [symmetric])
  ultimately show ?thesis
    by (simp add: future_collect_nodes_def walk_chain [OF ptfo_frame(1) [OF ok]] g_def)
qed

lemma collect_nodes_of_ok:
  assumes "fut_ok bt" "accounted_for bt threads pids"
  shows "\<exists>ns. collect_nodes_of bt threads pids nodes = Some (nodes @ ns) \<and>
    mset (concat (map ops ns)) = mset (selected bt pids)"
  using assms
proof (induction pids arbitrary: nodes)
  case Nil
  then show ?case by (simp add: selected_def)
next
  case (Cons pid pids)
  have pid: "0 \<le> pid" "pid < int (n_threads bt)" "producer_ops bt (nat pid) \<noteq> [] \<longrightarrow> active threads pid"
    and rest: "accounted_for bt threads pids"
    using Cons.prems(2) by (auto simp: accounted_for_def)
  show ?case
  proof (cases "active threads pid")
    case True
    have wf: "ptfo_wf (bt_ptfos bt ! nat pid)" using Cons.prems(1) pid by (auto simp: fut_ok_def)
    obtain ns where ns: "future_collect_nodes pid (bt_ptfos bt ! nat pid) nodes = Some (nodes @ ns)"
      "mset (concat (map ops ns)) = mset (producer_ops bt (nat pid))"
      using collect_nodes_wf [OF wf, of pid nodes] pid(1) by (auto simp: producer_ops_def)
    obtain ns' where "collect_nodes_of bt threads pids (nodes @ ns) = Some ((nodes @ ns) @ ns')"
      "mset (concat (map ops ns')) = mset (selected bt pids)"
      using Cons.IH [OF Cons.prems(1) rest] by blast
    then show ?thesis using ns True pid by (auto simp: selected_def)
  next
    case False
    then show ?thesis using Cons.IH [OF Cons.prems(1) rest] pid by (simp add: selected_def)
  qed
qed

text \<open>The deduplicated entries: one per key, the one with the largest sequence number.\<close>

definition dedup_step :: "future_lookup_entry \<Rightarrow> future_lookup_entry list \<Rightarrow> future_lookup_entry list" where
  "dedup_step e latest = (if latest = [] \<or> le_key (last latest) \<noteq> le_key e then latest @ [e] else butlast latest @ [e])"

lemma dedup_fold: "dedup_latest latest es = fold dedup_step es latest"
  by (induction es arbitrary: latest) (simp_all add: dedup_step_def)

definition latest_entries :: "future_lookup_entry list \<Rightarrow> future_lookup_entry list \<Rightarrow> bool" where
  "latest_entries es L \<longleftrightarrow> set L \<subseteq> set es \<and> le_key ` set L = le_key ` set es \<and> distinct (map le_key L) \<and>
     (\<forall>e \<in> set L. \<forall>e' \<in> set es. le_key e' = le_key e \<longrightarrow> le_sequence e' \<le> le_sequence e)"

lemma dedup_latest_ok:
  assumes "sorted_wrt (\<lambda>a b. le_key a < le_key b \<or> le_key a = le_key b \<and> le_sequence a \<le> le_sequence b) es"
  shows "latest_entries es (dedup_latest [] es) \<and>
    (es \<noteq> [] \<longrightarrow> dedup_latest [] es \<noteq> [] \<and> last (dedup_latest [] es) = last es)"
  using assms
proof (induction es rule: rev_induct)
  case Nil
  then show ?case by (simp add: latest_entries_def)
next
  case (snoc e es)
  define L where "L = dedup_latest [] es"
  have st: "dedup_latest [] (es @ [e]) = dedup_step e L" by (simp add: dedup_fold L_def)
  have le: "\<forall>e' \<in> set es. le_key e' < le_key e \<or> le_key e' = le_key e \<and> le_sequence e' \<le> le_sequence e"
    and IH: "latest_entries es L" "es \<noteq> [] \<longrightarrow> L \<noteq> [] \<and> last L = last es"
    using snoc by (auto simp: sorted_wrt_append L_def)
  note li = IH(1) [unfolded latest_entries_def]
  show ?case
  proof (cases "L = [] \<or> le_key (last L) \<noteq> le_key e")
    case True
    have "le_key e \<notin> le_key ` set es"
    proof
      assume "le_key e \<in> le_key ` set es"
      then obtain e' where e': "e' \<in> set es" "le_key e' = le_key e" by auto
      then have ne: "es \<noteq> []" "last L = last es" "L \<noteq> []" using IH(2) by auto
      have "le_key e' \<le> le_key (last es)"
        using e'(1) snoc.prems ne(1)
        by (cases es rule: rev_cases) (auto simp: sorted_wrt_append)
      moreover have "le_key (last es) \<le> le_key e" using le ne(1) by (metis last_in_set order.strict_implies_order order_refl)
      ultimately show False using True ne e'(2) by auto
    qed
    then show ?thesis using True li le by (auto simp: st dedup_step_def latest_entries_def)
  next
    case False
    then obtain l L' where L: "L = L' @ [l]" by (metis rev_exhaust)
    have "le_key l = le_key e" using False L by simp
    then show ?thesis using li le L False by (auto simp: st dedup_step_def latest_entries_def)
  qed
qed

lemma collect_latest_ok: "latest_entries (future_collect_lookup_entries bt) (collect_latest_lookup_entries bt)"
proof -
  let ?es = "sort_key (\<lambda>e. (le_key e, le_sequence e)) (future_collect_lookup_entries bt)"
  have "sorted_wrt (\<lambda>a b. (le_key a, le_sequence a) \<le> (le_key b, le_sequence b)) ?es"
    using sorted_sort_key [of "\<lambda>e. (le_key e, le_sequence e)" "future_collect_lookup_entries bt"] by (simp add: sorted_map)
  then have "sorted_wrt (\<lambda>a b. le_key a < le_key b \<or> le_key a = le_key b \<and> le_sequence a \<le> le_sequence b) ?es"
    by (rule sorted_wrt_mono_rel [rotated]) (auto simp: less_eq_prod_def)
  from dedup_latest_ok [OF this] show ?thesis
    by (simp add: latest_entries_def collect_latest_lookup_entries_def)
qed

lemma is_latest_iff:
  "distinct (map le_key L) \<Longrightarrow> is_latest_buffered_op op L \<longleftrightarrow>
     (\<exists>e \<in> set L. le_key e = op_key op \<and> le_sequence e = op_sequence op \<and> le_state e = entry_state (op_is_delete op))"
  by (induction L) (auto simp: entry_state_def image_iff)

lemma collect_entries_iff:
  assumes "fut_ok bt" "dir_covers bt"
  shows "e \<in> set (future_collect_lookup_entries bt) \<longleftrightarrow>
    (\<exists>tid < n_threads bt. \<exists>op. last_op (op_key op) (producer_ops bt tid) = Some op \<and> e = lookup_entry (dir_slot op))"
proof -
  have len: "length (bt_dirs bt) = n_threads bt" using assms(1) by (simp add: fut_ok_def)
  have slot: "s \<in> set (bt_dirs bt ! tid) \<and> occupied s \<and> state s \<noteq> FUTURE_ABSENT \<longleftrightarrow>
      (\<exists>op. last_op (op_key op) (producer_ops bt tid) = Some op \<and> s = dir_slot op)" if tid: "tid < n_threads bt" for tid s
  proof -
    have g: "dir_get (bt_dirs bt ! tid) k = Some s \<longleftrightarrow> s \<in> set (bt_dirs bt ! tid) \<and> occupied s \<and> slot_key s = k" for k
      using assms(1) tid by (intro dir_get_iff) (simp add: fut_ok_def)
    have "dir_get (bt_dirs bt ! tid) k = Some s \<longleftrightarrow>
        (\<exists>op. last_op k (producer_ops bt tid) = Some op \<and> s = dir_slot op)" for k
      using assms(2) tid by (auto simp: dir_covers_def)
    then have "(\<exists>op. last_op k (producer_ops bt tid) = Some op \<and> s = dir_slot op) \<longleftrightarrow>
        s \<in> set (bt_dirs bt ! tid) \<and> occupied s \<and> slot_key s = k" for k using g by blast
    note i = this [of "slot_key s"]
    show ?thesis
    proof
      assume "s \<in> set (bt_dirs bt ! tid) \<and> occupied s \<and> state s \<noteq> FUTURE_ABSENT"
      then obtain op where "last_op (slot_key s) (producer_ops bt tid) = Some op" "s = dir_slot op" using i by blast
      then show "\<exists>op. last_op (op_key op) (producer_ops bt tid) = Some op \<and> s = dir_slot op"
        by (auto simp: dir_slot_def)
    next
      assume "\<exists>op. last_op (op_key op) (producer_ops bt tid) = Some op \<and> s = dir_slot op"
      then obtain op where op: "last_op (op_key op) (producer_ops bt tid) = Some op" "s = dir_slot op" by blast
      then have "slot_key s = op_key op" "state s \<noteq> FUTURE_ABSENT" by (auto simp: dir_slot_def)
      then show "s \<in> set (bt_dirs bt ! tid) \<and> occupied s \<and> state s \<noteq> FUTURE_ABSENT" using i op by auto
    qed
  qed
  have dirs: "set (bt_dirs bt) = (\<lambda>tid. bt_dirs bt ! tid) ` {..<n_threads bt}"
    using len by (auto simp: set_conv_nth)
  have "e \<in> set (future_collect_lookup_entries bt) \<longleftrightarrow>
      (\<exists>tid < n_threads bt. \<exists>s. (s \<in> set (bt_dirs bt ! tid) \<and> occupied s \<and> state s \<noteq> FUTURE_ABSENT) \<and> e = lookup_entry s)"
    by (auto simp: future_collect_lookup_entries_def dirs)
  also have "\<dots> \<longleftrightarrow> (\<exists>tid < n_threads bt. \<exists>s. (\<exists>op. last_op (op_key op) (producer_ops bt tid) = Some op \<and> s = dir_slot op) \<and>
      e = lookup_entry s)"
    using slot by (simp cong: conj_cong)
  finally show ?thesis by blast
qed

lemma increasing_last:
  assumes "increasing os" "op \<in> set os"
  obtains op' where "last_op (op_key op) os = Some op'" "op_sequence op \<le> op_sequence op'"
proof -
  have n: "newest (op_key op) os = last_op (op_key op) os"
    by (rule newest_last) (use assms(1) in \<open>simp add: increasing_def\<close>)
  then obtain op' where op': "last_op (op_key op) os = Some op'"
    using newest_None [of "op_key op" os] assms(2) by (cases "last_op (op_key op) os") auto
  then have "op_sequence op \<le> op_sequence op'" using newest_max [of "op_key op" os op'] n assms(2) by auto
  then show thesis using that op' by blast
qed

text \<open>With pairwise different sequence numbers the newest operation is the one no other exceeds.\<close>

lemma newestI:
  assumes "inj_on op_sequence (set os)" "op \<in> set os" "\<And>o'. o' \<in> set os \<Longrightarrow> op_key o' = op_key op \<Longrightarrow> op_sequence o' \<le> op_sequence op"
  shows "newest (op_key op) os = Some op"
proof -
  obtain b where b: "newest (op_key op) os = Some b"
    using newest_None [of "op_key op" os] assms(2) by (cases "newest (op_key op) os") auto
  note m = newest_max [OF b]
  have "op_sequence b = op_sequence op" by (rule order_antisym) (use m assms(2,3) in auto)
  then show ?thesis using b m assms(1,2) by (metis inj_onD)
qed

text \<open>An entry of the directories is that of a pending operation, and each pending operation has an entry of its key
  that is not older.\<close>

lemma collected_entry_pending:
  assumes "fut_ok bt" "dir_covers bt" "e \<in> set (future_collect_lookup_entries bt)"
  shows "\<exists>o' \<in> set (all_pending bt). e = lookup_entry (dir_slot o')"
proof -
  obtain tid o' where "tid < n_threads bt" "last_op (op_key o') (producer_ops bt tid) = Some o'" "e = lookup_entry (dir_slot o')"
    using collect_entries_iff [OF assms(1,2), of e] assms(3) by blast
  then show ?thesis using last_op_in [of "op_key o'" "producer_ops bt tid" o'] by (auto simp: all_pending_def)
qed

lemma pending_has_entry:
  assumes ok: "fut_ok bt" "dir_covers bt" and inc: "\<forall>tid < n_threads bt. increasing (producer_ops bt tid)"
    and o': "o' \<in> set (all_pending bt)"
  shows "\<exists>e \<in> set (future_collect_lookup_entries bt). le_key e = op_key o' \<and> op_sequence o' \<le> le_sequence e"
proof -
  obtain tid where tid: "tid < n_threads bt" "o' \<in> set (producer_ops bt tid)" using o' by (auto simp: all_pending_def)
  have "increasing (producer_ops bt tid)" using inc tid(1) by simp
  then obtain b where b: "last_op (op_key o') (producer_ops bt tid) = Some b" "op_sequence o' \<le> op_sequence b"
    by (rule increasing_last [OF _ tid(2)])
  have "op_key b = op_key o'" using last_op_in [OF b(1)] by simp
  moreover have "lookup_entry (dir_slot b) \<in> set (future_collect_lookup_entries bt)"
    using collect_entries_iff [OF ok, of "lookup_entry (dir_slot b)"] tid(1) b(1) calculation by metis
  ultimately show ?thesis using b(2) by (intro bexI [of _ "lookup_entry (dir_slot b)"]) (auto simp: lookup_entry_def dir_slot_def)
qed

lemma is_latest_newest:
  assumes ok: "fut_ok bt" "dir_covers bt" and inc: "\<forall>tid < n_threads bt. increasing (producer_ops bt tid)"
    and inj: "inj_on op_sequence (set (all_pending bt))" and op: "op \<in> set (all_pending bt)"
  shows "is_latest_buffered_op op (collect_latest_lookup_entries bt) \<longleftrightarrow>
    newest (op_key op) (all_pending bt) = Some op"
proof -
  let ?E = "future_collect_lookup_entries bt" and ?L = "collect_latest_lookup_entries bt"
  have li: "set ?L \<subseteq> set ?E" "le_key ` set ?L = le_key ` set ?E" "distinct (map le_key ?L)"
    "\<forall>e \<in> set ?L. \<forall>e' \<in> set ?E. le_key e' = le_key e \<longrightarrow> le_sequence e' \<le> le_sequence e"
    using collect_latest_ok [of bt] by (simp_all add: latest_entries_def)
  note src = collected_entry_pending [OF ok] and top = pending_has_entry [OF ok inc]
  show ?thesis
  proof
    assume "is_latest_buffered_op op ?L"
    then obtain e where e: "e \<in> set ?L" "le_key e = op_key op" "le_sequence e = op_sequence op"
      using is_latest_iff [OF li(3)] by blast
    show "newest (op_key op) (all_pending bt) = Some op"
    proof (rule newestI [OF inj op])
      fix o' assume o': "o' \<in> set (all_pending bt)" "op_key o' = op_key op"
      obtain e' where "e' \<in> set ?E" "le_key e' = op_key op" "op_sequence o' \<le> le_sequence e'"
        using top [OF o'(1)] o'(2) by auto
      moreover from this have "le_sequence e' \<le> le_sequence e" using li(4) e(1,2) by simp
      ultimately show "op_sequence o' \<le> op_sequence op" using e(3) by simp
    qed
  next
    assume n: "newest (op_key op) (all_pending bt) = Some op"
    obtain e0 where e0: "e0 \<in> set ?E" "le_key e0 = op_key op" "op_sequence op \<le> le_sequence e0" using top [OF op] by auto
    have "op_key op \<in> le_key ` set ?L" unfolding li(2) by (rule image_eqI [of _ le_key e0]) (use e0 in simp_all)
    then obtain e where e: "e \<in> set ?L" "le_key e = op_key op" by auto
    have "le_sequence e0 \<le> le_sequence e" using li(4) e e0(1,2) by simp
    then have le: "op_sequence op \<le> le_sequence e" using e0(3) by simp
    obtain b where b: "b \<in> set (all_pending bt)" "e = lookup_entry (dir_slot b)" using src e(1) li(1) by blast
    then have "op_key b = op_key op" "op_sequence b = le_sequence e" using e(2) by (auto simp: lookup_entry_def dir_slot_def)
    moreover from this have "op_sequence b \<le> op_sequence op" using newest_max [OF n] b(1) by blast
    ultimately have "op_sequence b = op_sequence op" using le by simp
    then have "b = op" using inj b(1) op by (metis inj_onD)
    then have "le_sequence e = op_sequence op" "le_state e = entry_state (op_is_delete op)"
      using b(2) by (auto simp: lookup_entry_def dir_slot_def)
    then show "is_latest_buffered_op op ?L" using is_latest_iff [OF li(3)] e by blast
  qed
qed

lemma last_op_None: "last_op k os = None \<longleftrightarrow> (\<forall>op \<in> set os. op_key op \<noteq> k)"
  by (induction os rule: rev_induct) (auto simp: last_op_snoc)

lemma last_op_unique:
  assumes "op \<in> set os" "op_key op = k" "\<And>o'. o' \<in> set os \<Longrightarrow> op_key o' = k \<Longrightarrow> o' = op"
  shows "last_op k os = Some op"
proof (cases "last_op k os")
  case None
  then show ?thesis using last_op_None [of k os] assms(1,2) by simp
next
  case (Some o')
  then show ?thesis using last_op_in [OF Some] assms(3) by simp
qed

text \<open>The operations of the drained producers that are the newest of their key over all producers.\<close>

definition winners :: "btree \<Rightarrow> int list \<Rightarrow> future_buffered_op set" where
  "winners bt pids = {op \<in> set (selected bt pids). newest (op_key op) (all_pending bt) = Some op}"

lemma node_ordered_returns:
  assumes ok: "fut_ok bt" "accounted_for bt threads pids" and r: "replayable base bt (selected bt pids)"
  obtains st bt' os l where "apply_node_ordered_ptfo_replay bt threads pids = Some (st, bt')"
    "drained bt bt' pids os" "mset l = mset (selected bt pids)"
    "os = filter (\<lambda>op. is_latest_buffered_op op (collect_latest_lookup_entries bt)) l"
    "applied_ops st = length os"
proof -
  obtain ns where ns: "collect_nodes_of bt threads pids [] = Some ns" "mset (concat (map ops ns)) = mset (selected bt pids)"
    using collect_nodes_of_ok [OF ok, of "[]"] by auto
  let ?ns = "sort_key (\<lambda>n. (first_sequence n, bnode_producer_id n)) ns"
  let ?os = "filter (\<lambda>op. is_latest_buffered_op op (collect_latest_lookup_entries bt)) (concat (map ops ?ns))"
  have m: "mset (concat (map ops ?ns)) = mset (selected bt pids)"
    using ns(2) by (simp add: mset_concat_map)
  then have "set ?os \<subseteq> set (selected bt pids)" by (metis filter_is_subset set_mset_mset)
  then obtain t where t: "replay_ops (bt_tree bt) ?os = Some t" using replayable_returns [OF r] by blast
  obtain bt' where bt': "clear_ptfo_threads_for_producers (bt\<lparr>bt_tree := t\<rparr>) threads pids = Some bt'"
    "drained bt bt' pids ?os"
    using clear_after_replay [OF ok t] by blast
  have "apply_node_ordered_ptfo_replay bt threads pids = Some (\<lparr>applied_ops = length ?os, replayed_nodes = length ?ns\<rparr>, bt')"
    using ns(1) t bt'(1) by (simp add: apply_node_ordered_ptfo_replay_def Let_def)
  then show thesis using that bt'(2) m by simp
qed

lemma latest_winners:
  assumes ok: "fut_ok bt" "\<forall>pid \<in> set pids. 0 \<le> pid \<and> pid < int (n_threads bt)" and m: "mset l = mset (selected bt pids)"
    and dc: "dir_covers bt" and inc: "\<forall>tid < n_threads bt. increasing (producer_ops bt tid)"
    and inj: "distinct (map op_sequence (all_pending bt))"
  shows "set (filter (\<lambda>op. is_latest_buffered_op op (collect_latest_lookup_entries bt)) l) = winners bt pids"
proof -
  have sub: "set (selected bt pids) \<subseteq> set (all_pending bt)" by (rule selected_in_pending [OF ok(2)])
  have "inj_on op_sequence (set (all_pending bt))" using inj by (simp add: distinct_map)
  moreover have "set l = set (selected bt pids)" using m by (metis set_mset_mset)
  ultimately show ?thesis
    unfolding set_filter winners_def using is_latest_newest [OF ok(1) dc inc] sub by blast
qed

lemma winners_distinct: "set os \<subseteq> winners bt pids \<Longrightarrow> distinct os \<Longrightarrow> distinct (map op_key os)"
  by (simp add: distinct_map inj_on_def winners_def subset_iff) (metis (no_types, lifting) option.inject)

lemma winners_last:
  assumes "set os = winners bt pids"
  shows "last_op k os = (case newest k (all_pending bt) of None \<Rightarrow> None
    | Some op \<Rightarrow> if op \<in> set (selected bt pids) then Some op else None)"
proof (cases "\<exists>op \<in> set os. op_key op = k")
  case True
  then obtain op where op: "op \<in> set os" "op_key op = k" by blast
  then have n: "newest k (all_pending bt) = Some op" "op \<in> set (selected bt pids)"
    using assms by (auto simp: winners_def)
  have "last_op k os = Some op"
    by (rule last_op_unique [OF op]) (use assms n(1) in \<open>auto simp: winners_def\<close>)
  then show ?thesis using n by simp
next
  case False
  then have "last_op k os = None" using last_op_None by blast
  moreover have "op \<notin> set (selected bt pids)" if "newest k (all_pending bt) = Some op" for op
    using False assms that newest_max [OF that] by (auto simp: winners_def)
  ultimately show ?thesis by (auto split: option.splits)
qed

text \<open>Inserts of different keys are fresh when none of the keys is in the tree.\<close>

lemma fresh_distinct:
  "distinct (map op_key os) \<Longrightarrow> (\<forall>op \<in> set os. op_is_delete op \<or> op_key op \<notin> K) \<Longrightarrow> fresh_inserts os K"
proof (induction os arbitrary: K)
  case (Cons op os)
  have "\<forall>o' \<in> set os. op_is_delete o' \<or> op_key o' \<notin> op_effect op K"
    using Cons.prems by (auto simp: op_effect_def image_iff)
  then show ?case using Cons by simp
qed simp

section \<open>The keys a client sees\<close>

text \<open>A key with a pending operation is present when the newest one is an insert, any other key
  when the tree holds it.\<close>

definition view :: "btree \<Rightarrow> int set" where
  "view bt = {k. case newest k (all_pending bt) of None \<Rightarrow> k \<in> key_set (bt_tree bt) | Some op \<Rightarrow> \<not> op_is_delete op}"

lemma drained_view:
  assumes d: "replay_ops (bt_tree bt) os = Some (bt_tree bt')" and u: "uniq_tree base (bt_tree bt)"
    and s: "\<forall>op \<in> set os. storable base (op_key op)" and f: "fresh_inserts os (key_set (bt_tree bt))"
    and keep: "\<And>k op. newest k (all_pending bt') = Some op \<Longrightarrow> newest k (all_pending bt) = Some op"
    and app: "\<And>k. newest k (all_pending bt') = None \<Longrightarrow> last_op k os = newest k (all_pending bt)"
  shows "view bt' = view bt" "uniq_tree base (bt_tree bt')"
proof -
  obtain t' where t': "replay_ops (bt_tree bt) os = Some t'" "uniq_tree base t'" "key_set t' = ops_effect os (key_set (bt_tree bt))"
    using replay_ops_exact [OF u s f] by blast
  then have eq: "t' = bt_tree bt'" using d by simp
  then show "uniq_tree base (bt_tree bt')" using t'(2) by simp
  show "view bt' = view bt"
  proof (rule set_eqI)
    fix k
    show "k \<in> view bt' \<longleftrightarrow> k \<in> view bt"
    proof (cases "newest k (all_pending bt')")
      case None
      then show ?thesis
        using app [OF None] t'(3) ops_effect_last [of k os "key_set (bt_tree bt)"] by (simp add: view_def eq)
    next
      case (Some op)
      then show ?thesis using keep [OF Some] by (simp add: view_def)
    qed
  qed
qed

text \<open>Draining every pending operation.\<close>

lemma full_drain_view:
  assumes "replay_ops (bt_tree bt) os = Some (bt_tree bt')" "uniq_tree base (bt_tree bt)"
    "\<forall>op \<in> set os. storable base (op_key op)" "fresh_inserts os (key_set (bt_tree bt))" "all_pending bt' = []"
    "\<And>k. last_op k os = newest k (all_pending bt)"
  shows "view bt' = view bt" "uniq_tree base (bt_tree bt')" "view bt' = key_set (bt_tree bt')"
proof -
  have n: "newest k (all_pending bt') = None" for k using assms(5) by (simp add: newest_None)
  show "view bt' = view bt" "uniq_tree base (bt_tree bt')"
    by (rule drained_view [OF assms(1-4)]; use n assms(6) in simp)+
  show "view bt' = key_set (bt_tree bt')" by (simp add: view_def n)
qed

end
