(* ===== verification/Numa.thy ===== *)
theory Numa
  imports Replay
begin

text \<open>
  Placement of threads (\<^verbatim>\<open>src/f3tree.cpp\<close>, the anonymous namespace): reading the NUMA topology
  from the files under \<^verbatim>\<open>/sys/devices/system/node\<close>, mapping CPUs to nodes, and assigning producers
  and nodes to evaluator workers.  The contents of the directory and the results of the system calls
  are arguments.
\<close>

section \<open>Model\<close>

text \<open>\<^verbatim>\<open>std::getline(ss, token, ',')\<close> in a loop; a trailing separator yields no further token.\<close>

fun split_on :: "char \<Rightarrow> string \<Rightarrow> string \<Rightarrow> string list" where
  "split_on d acc [] = (if acc = [] then [] else [rev acc])"
| "split_on d acc (c # cs) = (if c = d then rev acc # split_on d [] cs else split_on d (c # acc) cs)"

text \<open>\<^verbatim>\<open>std::atoi\<close>: white space, a sign, digits up to the first other character.\<close>

definition is_space :: "char \<Rightarrow> bool" where
  "is_space c \<longleftrightarrow> c \<in> {CHR '' '', CHR 0x09, CHR 0x0A, CHR 0x0B, CHR 0x0C, CHR 0x0D}"

definition is_digit :: "char \<Rightarrow> bool" where
  "is_digit c \<longleftrightarrow> 48 \<le> (of_char c :: nat) \<and> (of_char c :: nat) \<le> 57"

definition digit_value :: "char \<Rightarrow> int" where
  "digit_value c = int (of_char c) - 48"

fun digits_value :: "int \<Rightarrow> string \<Rightarrow> int" where
  "digits_value v [] = v"
| "digits_value v (c # cs) = (if is_digit c then digits_value (10 * v + digit_value c) cs else v)"

definition atoi :: "string \<Rightarrow> int" where
  "atoi s = (case dropWhile is_space s of
       [] \<Rightarrow> 0
     | c # cs \<Rightarrow> if c = CHR ''-'' then - digits_value 0 cs
                 else if c = CHR ''+'' then digits_value 0 cs else digits_value 0 (c # cs))"

text \<open>One comma-separated token: a number, or a range split at the first dash.\<close>

definition parse_token :: "string \<Rightarrow> int list" where
  "parse_token token =
     (if token = [] then []
      else if CHR ''-'' \<notin> set token then [atoi token]
      else (let start = atoi (takeWhile (\<lambda>c. c \<noteq> CHR ''-'') token);
                stop = atoi (tl (dropWhile (\<lambda>c. c \<noteq> CHR ''-'') token))
            in if stop < start then [] else [start..stop]))"

definition parse_cpu_list :: "string \<Rightarrow> int list" where
  "parse_cpu_list cpulist = concat (map parse_token (split_on (CHR '','') [] cpulist))"

definition starts_with_node_prefix :: "string \<Rightarrow> bool" where
  "starts_with_node_prefix name \<longleftrightarrow> take 4 name = ''node''"

record NumaTopology =
  node_cpus :: "int list list"

definition available :: "NumaTopology \<Rightarrow> bool" where
  "available topology \<longleftrightarrow> node_cpus topology \<noteq> []"

text \<open>The directory as a list of names with the first line of their \<^verbatim>\<open>cpulist\<close> file, where it can
  be opened; \<^verbatim>\<open>None\<close> for a directory that cannot be opened.\<close>

definition detect_numa_topology :: "(string \<times> string option) list option \<Rightarrow> NumaTopology" where
  "detect_numa_topology dir =
     (case dir of
        None \<Rightarrow> \<lparr>node_cpus = []\<rparr>
      | Some entries \<Rightarrow>
          (let indexed_nodes = concat (map (\<lambda>(d_name, cpulist_file).
                 if \<not> starts_with_node_prefix d_name then []
                 else (case cpulist_file of
                         None \<Rightarrow> []
                       | Some cpulist \<Rightarrow> (let cpus = parse_cpu_list cpulist
                                         in if cpus = [] then [] else [(atoi (drop 4 d_name), cpus)]))) entries)
           in \<lparr>node_cpus = map snd (sort_key fst indexed_nodes)\<rparr>))"

definition max_cpu :: "NumaTopology \<Rightarrow> int" where
  "max_cpu topology = fold (\<lambda>cpu m. if cpu > m then cpu else m) (concat (node_cpus topology)) (-1)"

definition map_node_cpus :: "int \<Rightarrow> nat \<Rightarrow> int list \<Rightarrow> int list \<Rightarrow> int list" where
  "map_node_cpus mx node cpus cpu_to_node =
     fold (\<lambda>cpu m. if cpu \<ge> 0 \<and> cpu \<le> mx then m[nat cpu := int node] else m) cpus cpu_to_node"

definition build_cpu_to_node_map :: "NumaTopology \<Rightarrow> int list" where
  "build_cpu_to_node_map topology =
     (let mx = max_cpu topology in
      if mx < 0 then []
      else fold (\<lambda>node. map_node_cpus mx node (node_cpus topology ! node))
             [0..<length (node_cpus topology)] (replicate (nat mx + 1) (-1)))"

definition current_thread_numa_node :: "int \<Rightarrow> int list \<Rightarrow> int" where
  "current_thread_numa_node cpu cpu_to_node =
     (if cpu < 0 \<or> cpu \<ge> int (length cpu_to_node) then -1 else cpu_to_node ! nat cpu)"

text \<open>Binding the calling thread; \<^verbatim>\<open>setaffinity\<close> is the outcome of \<^verbatim>\<open>pthread_setaffinity_np\<close> on the
  CPU set it is given.\<close>

definition CPU_SETSIZE :: int where
  "CPU_SETSIZE = 1024"

definition bind_current_thread_to_cpus :: "(int list \<Rightarrow> bool) \<Rightarrow> int list \<Rightarrow> bool" where
  "bind_current_thread_to_cpus setaffinity cpus =
     (if cpus = [] then False
      else (let set = filter (\<lambda>cpu. \<not> (cpu < 0 \<or> cpu \<ge> CPU_SETSIZE)) cpus
            in if set = [] then False else setaffinity set))"

definition bind_current_thread_to_node :: "(int list \<Rightarrow> bool) \<Rightarrow> NumaTopology \<Rightarrow> nat \<Rightarrow> bool" where
  "bind_current_thread_to_node setaffinity topology node_index =
     (if \<not> available topology then False
      else bind_current_thread_to_cpus setaffinity
             (node_cpus topology ! (node_index mod length (node_cpus topology))))"

datatype PlacementPolicy = kDefault | kBindEvaluatorsByNode | kBindEvaluatorsAndProducersByNode | kHardNumaBind

definition evaluator_binding_enabled :: "PlacementPolicy \<Rightarrow> bool" where
  "evaluator_binding_enabled policy \<longleftrightarrow>
     policy = kBindEvaluatorsByNode \<or> policy = kBindEvaluatorsAndProducersByNode \<or> policy = kHardNumaBind"

definition producer_binding_enabled :: "PlacementPolicy \<Rightarrow> bool" where
  "producer_binding_enabled policy \<longleftrightarrow> policy = kBindEvaluatorsAndProducersByNode \<or> policy = kHardNumaBind"

definition hard_numa_bind_enabled :: "PlacementPolicy \<Rightarrow> bool" where
  "hard_numa_bind_enabled policy \<longleftrightarrow> policy = kHardNumaBind"

text \<open>\<^verbatim>\<open>set_mempolicy\<close> is the outcome of the system call on the node mask and its size.\<close>

definition set_thread_mempolicy_bind :: "(64 word \<Rightarrow> nat \<Rightarrow> bool) \<Rightarrow> nat \<Rightarrow> bool" where
  "set_thread_mempolicy_bind set_mempolicy node_index =
     (if node_index \<ge> 64 then False else set_mempolicy (push_bit node_index 1) 65)"

definition collect_producers_for_nodes :: "PTFOThreadState list \<Rightarrow> nat list \<Rightarrow> int list" where
  "collect_producers_for_nodes ptfo_threads node_ids =
     map int (filter (\<lambda>producer. thr_entry_count (ptfo_threads ! producer) \<noteq> 0 \<and>
                                 home_node (ptfo_threads ! producer) \<in> set node_ids)
                [0..<length ptfo_threads])"

definition producers_for_evaluator :: "nat \<Rightarrow> nat \<Rightarrow> nat \<Rightarrow> int list" where
  "producers_for_evaluator worker_id worker_count total_producers =
     (if worker_count = 0 \<or> total_producers = 0 then []
      else (let chunk = total_producers div worker_count;
                start = worker_id * chunk;
                stop = (if worker_id + 1 = worker_count then total_producers else start + chunk)
            in map int [start..<stop]))"

definition nodes_for_worker :: "nat \<Rightarrow> nat \<Rightarrow> nat \<Rightarrow> nat list" where
  "nodes_for_worker worker_id worker_count total_nodes =
     (if worker_count = 0 \<or> total_nodes = 0 then []
      else filter (\<lambda>node. node mod worker_count = worker_id) [0..<total_nodes])"

definition cpus_for_nodes :: "NumaTopology \<Rightarrow> nat list \<Rightarrow> int list" where
  "cpus_for_nodes topology node_ids =
     concat (map (\<lambda>n. if n \<ge> length (node_cpus topology) then [] else node_cpus topology ! n) node_ids)"

section \<open>The static assignment of producers and nodes\<close>

text \<open>The slices of the evaluator workers cover every producer exactly once, in order.\<close>

lemma producers_partition:
  assumes "0 < w"
  shows "concat (map (\<lambda>i. producers_for_evaluator i w n) [0..<w]) = map int [0..<n]"
proof (cases "n = 0")
  case False
  let ?c = "n div w"
  have le: "i * ?c \<le> n" if "i \<le> w" for i
    using mult_le_mono1 [OF that, of ?c] times_div_less_eq_dividend [of w n] by (metis mult.commute order_trans)
  have "concat (map (\<lambda>i. producers_for_evaluator i w n) [0..<i]) = map int [0..<i * ?c]" if "i < w" for i
    using that
  proof (induction i)
    case (Suc i)
    have "producers_for_evaluator i w n = map int [i * ?c..<Suc i * ?c]"
      using Suc.prems False by (simp add: producers_for_evaluator_def Let_def add.commute)
    moreover have "[0..<i * ?c] @ [i * ?c..<Suc i * ?c] = [0..<Suc i * ?c]"
      by (metis add.commute le_add1 mult_Suc upt_add_eq_append zero_le)
    ultimately show ?case using Suc by (simp only: upt_Suc_append zero_le map_append concat_append)
        (simp del: upt_Suc flip: map_append)
  qed simp
  note pre = this
  obtain v where v: "w = Suc v" using assms by (cases w) auto
  have "concat (map (\<lambda>i. producers_for_evaluator i w n) [0..<w]) =
      concat (map (\<lambda>i. producers_for_evaluator i w n) [0..<v]) @ producers_for_evaluator v w n"
    using v by simp
  also have "\<dots> = map int ([0..<v * ?c] @ [v * ?c..<n])"
    using pre [of v] False v by (simp add: producers_for_evaluator_def Let_def)
  also have "[0..<v * ?c] @ [v * ?c..<n] = [0..<n]"
    using le [of v] v by (metis le_SucI le_add_diff_inverse order_refl upt_add_eq_append zero_le)
  finally show ?thesis .
qed (simp add: producers_for_evaluator_def)

lemma nodes_partition:
  assumes "0 < w" "node < n"
  shows "\<exists>!i. i < w \<and> node \<in> set (nodes_for_worker i w n)"
  by (rule ex1I [of _ "node mod w"]) (use assms in \<open>auto simp: nodes_for_worker_def\<close>)

section \<open>The map from CPUs to nodes\<close>

text \<open>The node of a CPU is the last one that lists it.\<close>

definition last_node :: "int list list \<Rightarrow> int \<Rightarrow> int" where
  "last_node nodes cpu =
     (case filter (\<lambda>n. cpu \<in> set (nodes ! n)) (rev [0..<length nodes]) of [] \<Rightarrow> -1 | n # _ \<Rightarrow> int n)"

lemma fold_max:
  "fold (\<lambda>cpu m. if cpu > m then cpu else m) xs (m::int) = Max (insert m (set xs))"
proof (induction xs arbitrary: m)
  case (Cons x xs)
  have "Max (insert (max x m) (set xs)) = Max (insert m (insert x (set xs)))"
    by (cases "xs = []") (auto simp: max_def Max.insert_remove insert_commute)
  then show ?case using Cons by (auto simp: max_def split: if_splits)
qed simp

lemma map_node_cpus_nth:
  "length (map_node_cpus mx node cpus m) = length m \<and>
   (\<forall>cpu. 0 \<le> cpu \<and> cpu \<le> mx \<and> nat cpu < length m \<longrightarrow>
     map_node_cpus mx node cpus m ! nat cpu = (if cpu \<in> set cpus then int node else m ! nat cpu))"
  unfolding map_node_cpus_def
proof (induction cpus arbitrary: m)
  case (Cons c cpus)
  let ?m = "if c \<ge> 0 \<and> c \<le> mx then m[nat c := int node] else m"
  note IH = Cons.IH [of ?m]
  have "?m ! nat cpu = (if cpu = c then int node else m ! nat cpu)"
    if "0 \<le> cpu" "cpu \<le> mx" "nat cpu < length m" for cpu
    using that by (auto simp: nth_list_update)
  moreover have "length ?m = length m" by simp
  ultimately show ?case using IH by (simp only: fold_simps list.set insert_iff) auto
qed simp

lemma build_map_nth:
  assumes "cpu \<in> set (concat (node_cpus topology))" "0 \<le> cpu"
  shows "current_thread_numa_node cpu (build_cpu_to_node_map topology) = last_node (node_cpus topology) cpu"
proof -
  let ?ns = "node_cpus topology" and ?mx = "max_cpu topology"
  have mx: "cpu \<le> ?mx" using assms(1) by (simp add: max_cpu_def fold_max)
  let ?f = "\<lambda>n. fold (\<lambda>node. map_node_cpus ?mx node (?ns ! node)) [0..<n] (replicate (nat ?mx + 1) (-1))"
  have "length (?f n) = nat ?mx + 1 \<and> ?f n ! nat cpu =
      (case filter (\<lambda>n. cpu \<in> set (?ns ! n)) (rev [0..<n]) of [] \<Rightarrow> -1 | n # _ \<Rightarrow> int n)" for n
  proof (induction n)
    case 0
    have "replicate (nat ?mx + 1) (-1::int) ! nat cpu = -1" using mx by (intro nth_replicate) auto
    then show ?case by simp
  next
    case (Suc n)
    then show ?case using map_node_cpus_nth [of ?mx n "?ns ! n" "?f n"] mx assms(2) by auto
  qed
  then show ?thesis
    using mx assms(2) by (simp add: current_thread_numa_node_def build_cpu_to_node_map_def last_node_def Let_def)
qed

section \<open>CPU lists\<close>

text \<open>The form in which the kernel writes a CPU list: comma-separated numbers and ranges.\<close>

fun show_nat :: "nat \<Rightarrow> string" where
  "show_nat n = (if n < 10 then [char_of (48 + n)] else show_nat (n div 10) @ [char_of (48 + n mod 10)])"

declare show_nat.simps [simp del]

definition show_range :: "nat \<times> nat \<Rightarrow> string" where
  "show_range r = (if fst r = snd r then show_nat (fst r) else show_nat (fst r) @ ''-'' @ show_nat (snd r))"

fun join :: "string list \<Rightarrow> string" where
  "join [] = []"
| "join [t] = t"
| "join (t # ts) = t @ '','' @ join ts"

definition show_cpu_list :: "(nat \<times> nat) list \<Rightarrow> string" where
  "show_cpu_list rs = join (map show_range rs)"

lemma digit_char:
  assumes "d < 10"
  shows "is_digit (char_of (48 + d))" "digit_value (char_of (48 + d)) = int d"
  using assms by (auto simp: is_digit_def digit_value_def)

lemma digits_value_append:
  "\<forall>c \<in> set xs. is_digit c \<Longrightarrow> digits_value v (xs @ ys) = digits_value (digits_value v xs) ys"
  by (induction xs arbitrary: v) auto

lemma show_nat_digits: "(\<forall>c \<in> set (show_nat n). is_digit c) \<and> show_nat n \<noteq> []"
proof (induction n rule: show_nat.induct)
  case (1 n)
  then show ?case by (subst (1 2) show_nat.simps) (auto simp: digit_char)
qed

lemma digits_value_show: "digits_value 0 (show_nat n) = int n"
proof (induction n rule: show_nat.induct)
  case (1 n)
  show ?case
  proof (cases "n < 10")
    case True
    then show ?thesis by (subst show_nat.simps) (simp add: digit_char)
  next
    case False
    have "digits_value 0 (show_nat n) = digits_value (digits_value 0 (show_nat (n div 10))) [char_of (48 + n mod 10)]"
      using False show_nat_digits by (subst show_nat.simps) (simp add: digits_value_append)
    then have "digits_value 0 (show_nat n) = 10 * int (n div 10) + int (n mod 10)"
      using 1 [OF False] digit_char [of "n mod 10"] by simp
    also have "\<dots> = int n" by presburger
    finally show ?thesis .
  qed
qed

lemma digit_not: "is_digit c \<Longrightarrow> \<not> is_space c \<and> c \<noteq> CHR ''-'' \<and> c \<noteq> CHR ''+'' \<and> c \<noteq> CHR '',''"
  by (auto simp: is_digit_def is_space_def)

lemma atoi_show: "atoi (show_nat n) = int n"
proof -
  obtain c cs where c: "show_nat n = c # cs" "is_digit c"
    using show_nat_digits [of n] by (cases "show_nat n") auto
  then show ?thesis using digits_value_show [of n] digit_not [of c] by (simp add: atoi_def del: digits_value.simps)
qed

lemma parse_show_range:
  assumes "fst r \<le> snd r"
  shows "parse_token (show_range r) = [int (fst r)..int (snd r)]"
proof -
  have nd: "CHR ''-'' \<notin> set (show_nat n)" for n using show_nat_digits [of n] digit_not by auto
  have tw: "takeWhile (\<lambda>c. c \<noteq> CHR ''-'') (show_nat a @ ''-'' @ show_nat b) = show_nat a"
    "dropWhile (\<lambda>c. c \<noteq> CHR ''-'') (show_nat a @ ''-'' @ show_nat b) = ''-'' @ show_nat b" for a b
    using nd [of a] by (auto simp: takeWhile_append dropWhile_append)
  show ?thesis
    using assms nd show_nat_digits [of "fst r"] tw [of "fst r" "snd r"]
    by (auto simp: parse_token_def show_range_def atoi_show Let_def)
qed

lemma split_token:
  "d \<notin> set t \<Longrightarrow> split_on d acc (t @ d # s) = (rev acc @ t) # split_on d [] s"
  "d \<notin> set t \<Longrightarrow> split_on d acc t = (if acc = [] \<and> t = [] then [] else [rev acc @ t])"
  by (induction t arbitrary: acc) auto

lemma split_join:
  "\<forall>t \<in> set ts. CHR '','' \<notin> set t \<and> t \<noteq> [] \<Longrightarrow> split_on (CHR '','') [] (join ts) = ts"
proof (induction ts rule: join.induct)
  case (2 t)
  then show ?case by (simp add: split_token(2))
next
  case (3 t u ts)
  then show ?case using split_token(1) [of "CHR '',''" t "[]" "join (u # ts)"] by simp
qed simp

lemma parse_show_cpu_list:
  assumes "\<forall>r \<in> set rs. fst r \<le> snd r"
  shows "parse_cpu_list (show_cpu_list rs) = concat (map (\<lambda>r. [int (fst r)..int (snd r)]) rs)"
proof -
  have "\<forall>t \<in> set (map show_range rs). CHR '','' \<notin> set t \<and> t \<noteq> []"
  proof
    fix t assume "t \<in> set (map show_range rs)"
    then obtain r where r: "t = show_range r" by auto
    show "CHR '','' \<notin> set t \<and> t \<noteq> []"
      using show_nat_digits [of "fst r"] show_nat_digits [of "snd r"] digit_not by (auto simp: r show_range_def)
  qed
  then have "parse_cpu_list (show_cpu_list rs) = concat (map (\<lambda>r. parse_token (show_range r)) rs)"
    by (simp add: parse_cpu_list_def show_cpu_list_def split_join comp_def)
  also have "map (\<lambda>r. parse_token (show_range r)) rs = map (\<lambda>r. [int (fst r)..int (snd r)]) rs"
    using assms parse_show_range by simp
  finally show ?thesis .
qed

section \<open>Properties of the placement\<close>

text \<open>C29: The evaluators share the producers without gap or overlap: for every number of workers and of
  producers, the ranges the workers own, one after the other, are all producers in ascending order.\<close>

theorem evaluators_partition_producers:
  assumes "0 < w"
  shows "concat (map (\<lambda>i. producers_for_evaluator i w n) [0..<w]) = map int [0..<n]"
  by (rule producers_partition [OF assms])

theorem evaluators_partition_producers_witness:
  "concat (map (\<lambda>i. producers_for_evaluator i 3 8) [0..<3]) = map int [0..<8]"
  using evaluators_partition_producers [of 3 8] by simp

text \<open>With evaluators bound to NUMA nodes, every node of the topology belongs to exactly one
  worker.\<close>

theorem nodes_have_one_worker:
  assumes "0 < w" "node < n"
  shows "\<exists>!i. i < w \<and> node \<in> set (nodes_for_worker i w n)"
  by (rule nodes_partition [OF assms])

theorem nodes_have_one_worker_witness: "\<exists>!i. i < 2 \<and> 3 \<in> set (nodes_for_worker i 2 5)"
  using nodes_have_one_worker [of 2 3 5] by simp

text \<open>Parsing a CPU list of the kernel's format gives back the CPUs it denotes, for every list of
  single CPUs and ascending ranges.\<close>

theorem cpu_list_roundtrip:
  assumes "\<forall>r \<in> set rs. fst r \<le> snd r"
  shows "parse_cpu_list (show_cpu_list rs) = concat (map (\<lambda>r. [int (fst r)..int (snd r)]) rs)"
  by (rule parse_show_cpu_list [OF assms])

theorem cpu_list_roundtrip_witness:
  "parse_cpu_list (show_cpu_list [(0, 2), (7, 7)]) = concat (map (\<lambda>r. [int (fst r)..int (snd r)]) [(0, 2), (7, 7)])"
  using cpu_list_roundtrip [of "[(0, 2), (7, 7)]"] by simp

end
