(* ===== verification/Future_BTree.thy ===== *)
theory Future_BTree
  imports Replay_Correct Numa
begin

text \<open>
  The public interface of the tree (\<^verbatim>\<open>src/f3tree.cpp\<close>): \<^verbatim>\<open>PersistentBTree\<close>, and \<^verbatim>\<open>FutureBTree\<close> with
  its private \<^verbatim>\<open>Impl\<close>, which adds to the buffering layer the accounting of pending operations, the
  drains and the decisions of the evaluator threads.  Exceptions are values of a sum type; a run of the
  tree code that does not return is \<^verbatim>\<open>None\<close>.  What the code asks the operating system for (the CPU it
  runs on, the outcome of binding calls, the measured time) is a record of arguments.
\<close>

section \<open>Configuration\<close>

datatype EvaluatorPolicy = kF3K | kF3N | kDeterministicReplay | kLegacyKeyPartitioned | kLegacyNodePartitioned

record RuntimeConfig =
  producer_threads :: nat
  evaluator_threads :: nat
  write_latency_ns :: nat
  cfg_hash_capacity :: nat
  checkpoint_threshold_ops :: nat
  checkpoint_interval_us :: nat
  evaluator_policy :: EvaluatorPolicy
  placement_policy :: PlacementPolicy
  persistent_path :: string
  persistent_pool_bytes :: "64 word"

definition default_config :: RuntimeConfig where
  "default_config =
     \<lparr>producer_threads = 1, evaluator_threads = 1, write_latency_ns = 0, cfg_hash_capacity = 1024,
      checkpoint_threshold_ops = 0, checkpoint_interval_us = 0, evaluator_policy = kF3N,
      placement_policy = kDefault, persistent_path = [], persistent_pool_bytes = 128 * 1024 * 1024\<rparr>"

datatype error = runtime_error string | out_of_range string | invalid_argument string

definition validate_runtime_config :: "bool \<Rightarrow> RuntimeConfig \<Rightarrow> error + unit" where
  "validate_runtime_config supported_platform cfg =
     (if \<not> supported_platform
      then Inl (runtime_error ''F3-tree benchmarks target Linux/x86-64 with a GCC-compatible toolchain.'')
      else if producer_threads cfg = 0 then Inl (runtime_error ''producer_threads must be greater than zero'')
      else if evaluator_threads cfg = 0 then Inl (runtime_error ''evaluator_threads must be greater than zero'')
      else if cfg_hash_capacity cfg = 0 then Inl (runtime_error ''hash_capacity must be greater than zero'')
      else Inr ())"

text \<open>\<^verbatim>\<open>static_cast<int>\<close> of a \<^verbatim>\<open>size_t\<close>.\<close>

definition to_int :: "nat \<Rightarrow> int" where
  "to_int n = sint (word_of_nat n :: 32 word)"

definition config_btree :: "int \<Rightarrow> RuntimeConfig \<Rightarrow> btree" where
  "config_btree base cfg =
     btree_ctor base (to_int (producer_threads cfg)) (to_int (evaluator_threads cfg)) (to_int (cfg_hash_capacity cfg))"

section \<open>PersistentBTree\<close>

definition PersistentBTree_ctor :: "int \<Rightarrow> RuntimeConfig \<Rightarrow> error + btree" where
  "PersistentBTree_ctor base cfg =
     (case validate_runtime_config True cfg of Inl e \<Rightarrow> Inl e | Inr _ \<Rightarrow> Inr (config_btree base cfg))"

definition PersistentBTree_insert :: "btree \<Rightarrow> int \<Rightarrow> btree option" where
  "PersistentBTree_insert bt key = do { t \<leftarrow> tree_insert (bt_tree bt) key; Some (bt\<lparr>bt_tree := t\<rparr>) }"

definition PersistentBTree_contains :: "btree \<Rightarrow> int \<Rightarrow> bool option" where
  "PersistentBTree_contains bt key = do { r \<leftarrow> btree_search (bt_tree bt) key; Some (r \<noteq> 0) }"

definition PersistentBTree_erase :: "btree \<Rightarrow> int \<Rightarrow> btree option" where
  "PersistentBTree_erase bt key = do { t \<leftarrow> tree_delete (bt_tree bt) key; Some (bt\<lparr>bt_tree := t\<rparr>) }"

section \<open>The state of FutureBTree\<close>

record FutureBTreeStats =
  checkpoint_count :: "64 word"
  async_checkpoint_count :: "64 word"
  checkpoint_time_us :: "64 word"
  replayed_ops_total :: "64 word"
  replayed_nodes_total :: "64 word"
  placement_topology_nodes :: "64 word"
  bound_evaluator_threads :: "64 word"
  bound_producer_threads :: "64 word"
  hard_numa_memory_bound :: "64 word"
  producer_enqueue_local_ops :: "64 word"
  producer_enqueue_remote_ops :: "64 word"
  producer_enqueue_unknown_ops :: "64 word"
  checkpoint_source_local_ops :: "64 word"
  checkpoint_source_remote_ops :: "64 word"
  checkpoint_source_unknown_ops :: "64 word"

definition zero_stats :: FutureBTreeStats where
  "zero_stats =
     \<lparr>checkpoint_count = 0, async_checkpoint_count = 0, checkpoint_time_us = 0, replayed_ops_total = 0,
      replayed_nodes_total = 0, placement_topology_nodes = 0, bound_evaluator_threads = 0,
      bound_producer_threads = 0, hard_numa_memory_bound = 0, producer_enqueue_local_ops = 0,
      producer_enqueue_remote_ops = 0, producer_enqueue_unknown_ops = 0, checkpoint_source_local_ops = 0,
      checkpoint_source_remote_ops = 0, checkpoint_source_unknown_ops = 0\<rparr>"

record Sys =
  sched_getcpu :: int
  setaffinity :: "int list \<Rightarrow> bool"
  set_mempolicy :: "64 word \<Rightarrow> nat \<Rightarrow> bool"
  elapsed_us :: "64 word"

record Impl =
  config :: RuntimeConfig
  tree :: btree
  ptfo_threads :: "PTFOThreadState list"
  topology :: NumaTopology
  cpu_to_node :: "int list"
  producer_bound :: "bool list"
  next_ptfo_sequence :: "64 word"
  pending_operation_count :: nat
  pending_operation_count_by_node :: "nat list"
  stop_requested :: bool
  stats :: FutureBTreeStats

text \<open>\<^verbatim>\<open>seq_counter_resume\<close> of the DRAM build.\<close>

definition seq_counter_resume :: "64 word" where
  "seq_counter_resume = 1"

definition Impl_ctor :: "int \<Rightarrow> NumaTopology \<Rightarrow> RuntimeConfig \<Rightarrow> Impl" where
  "Impl_ctor base topo cfg =
     (let nodes = (if available topo then length (node_cpus topo) else 1) in
      \<lparr>config = cfg, tree = config_btree base cfg,
       ptfo_threads = map (\<lambda>producer. \<lparr>node_count = 0, thr_entry_count = 0, home_node = producer mod nodes\<rparr>)
                        [0..<producer_threads cfg],
       topology = topo, cpu_to_node = build_cpu_to_node_map topo,
       producer_bound = replicate (producer_threads cfg) False,
       next_ptfo_sequence = max 1 (seq_counter_resume + 1),
       pending_operation_count = 0, pending_operation_count_by_node = replicate nodes 0,
       stop_requested = False,
       stats = zero_stats\<lparr>placement_topology_nodes := word_of_nat (length (node_cpus topo))\<rparr>\<rparr>)"

text \<open>The number of evaluator workers the constructor starts, and the CPUs each of them binds to.\<close>

definition worker_count_of :: "RuntimeConfig \<Rightarrow> NumaTopology \<Rightarrow> nat" where
  "worker_count_of cfg topo =
     (let available_nodes = (if available topo then length (node_cpus topo) else 1)
      in if evaluator_binding_enabled (placement_policy cfg) \<and> available topo
         then min (evaluator_threads cfg) available_nodes else evaluator_threads cfg)"

definition owned_nodes_of :: "Impl \<Rightarrow> nat \<Rightarrow> nat \<Rightarrow> nat list" where
  "owned_nodes_of im worker_id worker_count =
     (if evaluator_binding_enabled (placement_policy (config im)) \<and> available (topology im)
      then nodes_for_worker worker_id worker_count (length (node_cpus (topology im))) else [])"

definition FutureBTree_ctor :: "int \<Rightarrow> NumaTopology \<Rightarrow> RuntimeConfig \<Rightarrow> error + Impl" where
  "FutureBTree_ctor base topo cfg =
     (case validate_runtime_config True cfg of Inl e \<Rightarrow> Inl e | Inr _ \<Rightarrow> Inr (Impl_ctor base topo cfg))"

definition worker_start :: "Sys \<Rightarrow> nat \<Rightarrow> Impl \<Rightarrow> Impl" where
  "worker_start sys i im =
     (let owned = owned_nodes_of im i
            (min (evaluator_threads (config im)) (length (node_cpus (topology im))))
      in if owned \<noteq> [] \<and> bind_current_thread_to_cpus (setaffinity sys) (cpus_for_nodes (topology im) owned)
         then im\<lparr>stats := (stats im)\<lparr>bound_evaluator_threads := bound_evaluator_threads (stats im) + 1\<rparr>\<rparr>
         else im)"

section \<open>Checkpoint conditions and accounting\<close>

definition async_checkpoint_enabled :: "Impl \<Rightarrow> bool" where
  "async_checkpoint_enabled im \<longleftrightarrow>
     checkpoint_threshold_ops (config im) > 0 \<or> checkpoint_interval_us (config im) > 0"

definition reaches_threshold :: "Impl \<Rightarrow> nat \<Rightarrow> bool" where
  "reaches_threshold im n \<longleftrightarrow>
     n \<noteq> 0 \<and> checkpoint_threshold_ops (config im) > 0 \<and> n \<ge> checkpoint_threshold_ops (config im)"

definition should_checkpoint_locked :: "Impl \<Rightarrow> bool" where
  "should_checkpoint_locked im = reaches_threshold im (pending_operation_count im)"

definition should_checkpoint_for_producers_locked :: "Impl \<Rightarrow> int list \<Rightarrow> bool" where
  "should_checkpoint_for_producers_locked im producer_ids =
     reaches_threshold im
       (fold (\<lambda>pid n. if pid \<ge> 0 \<and> pid < int (length (ptfo_threads im))
                      then n + thr_entry_count (ptfo_threads im ! nat pid) else n) producer_ids 0)"

definition should_checkpoint_for_nodes_locked :: "Impl \<Rightarrow> nat list \<Rightarrow> bool" where
  "should_checkpoint_for_nodes_locked im node_ids =
     reaches_threshold im
       (fold (\<lambda>node n. if node < length (pending_operation_count_by_node im)
                       then n + pending_operation_count_by_node im ! node else n) node_ids 0)"

text \<open>Subtraction of \<^verbatim>\<open>size_t\<close> values wraps around.\<close>

definition size_sub :: "nat \<Rightarrow> nat \<Rightarrow> nat" where
  "size_sub a b = (if b \<le> a then a - b else a + 2 ^ 64 - b)"

fun subtract_pending_counts_locked :: "int list \<Rightarrow> Impl \<Rightarrow> Impl" where
  "subtract_pending_counts_locked [] im = im"
| "subtract_pending_counts_locked (producer # pids) im =
     subtract_pending_counts_locked pids
       (if producer < 0 \<or> producer \<ge> int (length (ptfo_threads im)) then im
        else (let th = ptfo_threads im ! nat producer; node = home_node th; n = thr_entry_count th;
                  by_node = pending_operation_count_by_node im
              in im\<lparr>pending_operation_count_by_node :=
                      (if node < length by_node then by_node[node := size_sub (by_node ! node) n] else by_node),
                    pending_operation_count := size_sub (pending_operation_count im) n,
                    ptfo_threads := (ptfo_threads im)[nat producer := th\<lparr>node_count := 0, thr_entry_count := 0\<rparr>]\<rparr>))"

definition count_locality :: "int \<Rightarrow> PTFOThreadState \<Rightarrow> FutureBTreeStats \<Rightarrow> FutureBTreeStats" where
  "count_locality drainer_node th st =
     (let op_count = word_of_nat (thr_entry_count th) :: 64 word in
      if op_count = 0 then st
      else if drainer_node < 0 then st\<lparr>checkpoint_source_unknown_ops := checkpoint_source_unknown_ops st + op_count\<rparr>
      else if home_node th = nat drainer_node
      then st\<lparr>checkpoint_source_local_ops := checkpoint_source_local_ops st + op_count\<rparr>
      else st\<lparr>checkpoint_source_remote_ops := checkpoint_source_remote_ops st + op_count\<rparr>)"

definition record_checkpoint_locality_locked :: "Sys \<Rightarrow> int list \<Rightarrow> Impl \<Rightarrow> Impl" where
  "record_checkpoint_locality_locked sys producer_ids im =
     (let drainer_node = current_thread_numa_node (sched_getcpu sys) (cpu_to_node im) in
      im\<lparr>stats := fold (\<lambda>producer st.
           if producer < 0 \<or> producer \<ge> int (length (ptfo_threads im)) then st
           else count_locality drainer_node (ptfo_threads im ! nat producer) st) producer_ids (stats im)\<rparr>)"

section \<open>Drains\<close>

text \<open>The switch over the evaluation policy; \<open>slots\<close> is the number of evaluator slots of F3-K.\<close>

definition replay_by_policy ::
  "EvaluatorPolicy \<Rightarrow> btree \<Rightarrow> PTFOThreadState list \<Rightarrow> int list \<Rightarrow> nat \<Rightarrow> (ReplayStats \<times> btree) option" where
  "replay_by_policy policy bt threads producer_ids slots =
     (case policy of
        kF3K \<Rightarrow> apply_key_partitioned_ptfo_replay bt threads producer_ids slots
      | kLegacyKeyPartitioned \<Rightarrow> apply_key_partitioned_ptfo_replay bt threads producer_ids slots
      | kF3N \<Rightarrow> apply_node_ordered_ptfo_replay bt threads producer_ids
      | kLegacyNodePartitioned \<Rightarrow> apply_node_ordered_ptfo_replay bt threads producer_ids
      | kDeterministicReplay \<Rightarrow> apply_key_ordered_ptfo_replay bt threads producer_ids)"

definition count_checkpoint :: "Sys \<Rightarrow> bool \<Rightarrow> ReplayStats \<Rightarrow> FutureBTreeStats \<Rightarrow> FutureBTreeStats" where
  "count_checkpoint sys async rs st =
     st\<lparr>checkpoint_count := checkpoint_count st + 1,
        async_checkpoint_count := async_checkpoint_count st + (if async then 1 else 0),
        checkpoint_time_us := checkpoint_time_us st + elapsed_us sys,
        replayed_ops_total := replayed_ops_total st + word_of_nat (applied_ops rs),
        replayed_nodes_total := replayed_nodes_total st + word_of_nat (replayed_nodes rs)\<rparr>"

definition active_producers :: "Impl \<Rightarrow> int list" where
  "active_producers im =
     map int (filter (\<lambda>producer. thr_entry_count (ptfo_threads im ! producer) > 0) [0..<length (ptfo_threads im)])"

definition drain_locked :: "Sys \<Rightarrow> Impl \<Rightarrow> Impl option" where
  "drain_locked sys im =
     (if pending_operation_count im = 0 then Some im
      else (let producer_ids = active_producers im;
                im1 = record_checkpoint_locality_locked sys producer_ids im
            in do { (rs, bt) \<leftarrow> replay_by_policy (evaluator_policy (config im)) (tree im1) (ptfo_threads im1)
                                  producer_ids (evaluator_threads (config im));
                    let bt' = bt\<lparr>bt_is_Done := True, bt_dirs := future_clear_lookup_directory (bt_dirs bt)\<rparr>
                    in Some (im1\<lparr>tree := bt',
                         pending_operation_count_by_node := map (\<lambda>_. 0) (pending_operation_count_by_node im1),
                         ptfo_threads := map (\<lambda>th. th\<lparr>node_count := 0, thr_entry_count := 0\<rparr>) (ptfo_threads im1),
                         pending_operation_count := 0,
                         stats := count_checkpoint sys False rs (stats im1)\<rparr>) }))"

text \<open>The common part of the two partial drains.\<close>

definition drain_some :: "Sys \<Rightarrow> int list \<Rightarrow> nat \<Rightarrow> Impl \<Rightarrow> Impl option" where
  "drain_some sys producer_ids slots im =
     (let im1 = record_checkpoint_locality_locked sys producer_ids im
      in do { (rs, bt) \<leftarrow> replay_by_policy (evaluator_policy (config im)) (tree im1) (ptfo_threads im1)
                            producer_ids slots;
              let bt' = bt\<lparr>bt_dirs := future_clear_lookup_entries_for_producers (bt_dirs bt) producer_ids\<rparr>;
                  im2 = subtract_pending_counts_locked producer_ids (im1\<lparr>tree := bt'\<rparr>)
              in Some (im2\<lparr>stats := count_checkpoint sys True rs (stats im2)\<rparr>) })"

definition drain_locked_for_nodes :: "Sys \<Rightarrow> nat list \<Rightarrow> Impl \<Rightarrow> Impl option" where
  "drain_locked_for_nodes sys node_ids im =
     (let producer_ids = collect_producers_for_nodes (ptfo_threads im) node_ids
      in if producer_ids = [] then Some im
         else drain_some sys producer_ids (evaluator_threads (config im)) im)"

definition drain_locked_for_producers :: "Sys \<Rightarrow> int list \<Rightarrow> Impl \<Rightarrow> Impl option" where
  "drain_locked_for_producers sys producer_ids im =
     (let live_pids = filter (\<lambda>pid. pid \<ge> 0 \<and> pid < int (length (ptfo_threads im)) \<and>
                                   thr_entry_count (ptfo_threads im ! nat pid) > 0) producer_ids
      in if live_pids = [] then Some im else drain_some sys live_pids 1 im)"

section \<open>Evaluator threads\<close>

text \<open>One pass of \<^verbatim>\<open>evaluator_loop\<close> with the lock held: drain at once, or wait, with or without a
  timeout, until one of the given conditions holds.\<close>

datatype EvalAction = DrainNow | WaitFor nat | WaitStop | Wait

definition owned_due :: "Impl \<Rightarrow> nat list \<Rightarrow> int list \<Rightarrow> bool" where
  "owned_due im owned_nodes owned_producers \<longleftrightarrow>
     owned_nodes \<noteq> [] \<and> should_checkpoint_for_nodes_locked im owned_nodes \<or>
     owned_nodes = [] \<and> should_checkpoint_for_producers_locked im owned_producers"

definition evaluator_action :: "Impl \<Rightarrow> nat list \<Rightarrow> int list \<Rightarrow> EvalAction" where
  "evaluator_action im owned_nodes owned_producers =
     (if \<not> async_checkpoint_enabled im then WaitStop
      else if owned_due im owned_nodes owned_producers then DrainNow
      else if checkpoint_interval_us (config im) > 0 \<and> pending_operation_count im > 0
      then WaitFor (checkpoint_interval_us (config im)) else Wait)"

text \<open>The condition that ends the untimed wait of an idle worker.\<close>

definition wake_condition :: "Impl \<Rightarrow> nat list \<Rightarrow> int list \<Rightarrow> bool" where
  "wake_condition im owned_nodes owned_producers \<longleftrightarrow>
     stop_requested im \<or> owned_due im owned_nodes owned_producers \<or>
     async_checkpoint_enabled im \<and> checkpoint_interval_us (config im) > 0 \<and> pending_operation_count im > 0"

definition evaluator_drain :: "Sys \<Rightarrow> nat list \<Rightarrow> int list \<Rightarrow> Impl \<Rightarrow> Impl option" where
  "evaluator_drain sys owned_nodes owned_producers im =
     (if owned_nodes \<noteq> [] then drain_locked_for_nodes sys owned_nodes im
      else drain_locked_for_producers sys owned_producers im)"

text \<open>The state after one pass; a timed wait that ends without a stop request drains too.\<close>

definition evaluator_pass :: "Sys \<Rightarrow> nat \<Rightarrow> nat \<Rightarrow> Impl \<Rightarrow> Impl option" where
  "evaluator_pass sys worker_id worker_count im =
     (let owned_nodes = owned_nodes_of im worker_id worker_count;
          owned_producers = producers_for_evaluator worker_id worker_count (length (ptfo_threads im))
      in if stop_requested im then Some im
         else (case evaluator_action im owned_nodes owned_producers of
                 DrainNow \<Rightarrow> evaluator_drain sys owned_nodes owned_producers im
               | WaitFor _ \<Rightarrow> evaluator_drain sys owned_nodes owned_producers im
               | WaitStop \<Rightarrow> Some im
               | Wait \<Rightarrow> Some im))"

section \<open>Public operations\<close>

text \<open>Binding a producer thread on its first operation.\<close>

definition bind_producer :: "Sys \<Rightarrow> nat \<Rightarrow> Impl \<Rightarrow> Impl" where
  "bind_producer sys producer_id im =
     (if \<not> (producer_binding_enabled (placement_policy (config im)) \<and> \<not> producer_bound im ! producer_id) then im
      else (let im1 = im\<lparr>producer_bound := (producer_bound im)[producer_id := True]\<rparr>;
                home = home_node (ptfo_threads im1 ! producer_id);
                im2 = (if bind_current_thread_to_node (setaffinity sys) (topology im1) home
                       then im1\<lparr>stats := (stats im1)\<lparr>bound_producer_threads := bound_producer_threads (stats im1) + 1\<rparr>\<rparr>
                       else im1)
            in if hard_numa_bind_enabled (placement_policy (config im2)) \<and>
                  set_thread_mempolicy_bind (set_mempolicy sys) home
               then im2\<lparr>stats := (stats im2)\<lparr>hard_numa_memory_bound := hard_numa_memory_bound (stats im2) + 1\<rparr>\<rparr>
               else im2))"

text \<open>\<^verbatim>\<open>next_ptfo_sequence.fetch_add(1)\<close>\<close>

definition fetch_sequence :: "Impl \<Rightarrow> 64 word \<times> Impl" where
  "fetch_sequence im = (next_ptfo_sequence im, im\<lparr>next_ptfo_sequence := next_ptfo_sequence im + 1\<rparr>)"

definition enqueue_locality :: "Sys \<Rightarrow> nat \<Rightarrow> Impl \<Rightarrow> FutureBTreeStats" where
  "enqueue_locality sys producer_id im =
     (let st = stats im; producer_node = current_thread_numa_node (sched_getcpu sys) (cpu_to_node im) in
      if producer_node < 0 then st\<lparr>producer_enqueue_unknown_ops := producer_enqueue_unknown_ops st + 1\<rparr>
      else if home_node (ptfo_threads im ! producer_id) = nat producer_node
      then st\<lparr>producer_enqueue_local_ops := producer_enqueue_local_ops st + 1\<rparr>
      else st\<lparr>producer_enqueue_remote_ops := producer_enqueue_remote_ops st + 1\<rparr>)"

definition kFutureNodeCapacity :: nat where
  "kFutureNodeCapacity = 30"

text \<open>The accounting at the end of both buffered operations.\<close>

definition account :: "Sys \<Rightarrow> nat \<Rightarrow> Impl \<Rightarrow> Impl" where
  "account sys producer_id im =
     (let th = ptfo_threads im ! producer_id;
          th1 = (if thr_entry_count th = 0 \<or> thr_entry_count th mod kFutureNodeCapacity = 0
                 then th\<lparr>node_count := node_count th + 1\<rparr> else th);
          by_node = pending_operation_count_by_node im
      in im\<lparr>ptfo_threads := (ptfo_threads im)[producer_id := th1\<lparr>thr_entry_count := thr_entry_count th1 + 1\<rparr>],
            pending_operation_count := pending_operation_count im + 1,
            pending_operation_count_by_node := by_node[home_node th := by_node ! home_node th + 1],
            stats := enqueue_locality sys producer_id im\<rparr>)"

definition buffer_op :: "Sys \<Rightarrow> bool \<Rightarrow> int \<Rightarrow> nat \<Rightarrow> Impl \<Rightarrow> Impl option" where
  "buffer_op sys is_del key producer_id im =
     (let im1 = bind_producer sys producer_id im;
          (seq, im2) = fetch_sequence im1
      in do { bt \<leftarrow> future_insert (tree im2) key (to_int producer_id) is_del seq;
              Some (account sys producer_id (im2\<lparr>tree := bt\<rparr>)) })"

definition no_such_producer :: error where
  "no_such_producer = out_of_range ''producer_id exceeds configured producer_threads''"

definition buffered_insert :: "Sys \<Rightarrow> int \<Rightarrow> nat \<Rightarrow> Impl \<Rightarrow> (error + Impl) option" where
  "buffered_insert sys key producer_id im =
     (if producer_id \<ge> length (ptfo_threads im) then Some (Inl no_such_producer)
      else map_option Inr (buffer_op sys False key producer_id im))"

definition erase_buffered :: "Sys \<Rightarrow> int \<Rightarrow> nat \<Rightarrow> Impl \<Rightarrow> (error + Impl) option" where
  "erase_buffered sys key producer_id im =
     (if producer_id \<ge> length (ptfo_threads im) then Some (Inl no_such_producer)
      else map_option Inr (buffer_op sys True key producer_id im))"

definition warmup_insert :: "int \<Rightarrow> Impl \<Rightarrow> Impl option" where
  "warmup_insert key im =
     do { t \<leftarrow> tree_insert (bt_tree (tree im)) key; Some (im\<lparr>tree := (tree im)\<lparr>bt_tree := t\<rparr>\<rparr>) }"

definition contains :: "int \<Rightarrow> Impl \<Rightarrow> bool option" where
  "contains key im =
     do { (ptfo_state, best_sequence, best_owner) \<leftarrow> future_hash_directed_state_via_ptfo (tree im) key;
          (case ptfo_state of
             FUTURE_PRESENT \<Rightarrow> Some True
           | FUTURE_TOMBSTONE \<Rightarrow> Some False
           | FUTURE_ABSENT \<Rightarrow> do { r \<leftarrow> btree_search (bt_tree (tree im)) key; Some (r \<noteq> 0) }) }"

definition global_contains :: "int \<Rightarrow> Impl \<Rightarrow> bool option" where
  "global_contains key im = do { r \<leftarrow> btree_search (bt_tree (tree im)) key; Some (r \<noteq> 0) }"

definition buffered_owner :: "int \<Rightarrow> Impl \<Rightarrow> int option" where
  "buffered_owner key im = future_hash_directed_owner_via_ptfo (tree im) key"

definition pending_future_nodes :: "nat \<Rightarrow> Impl \<Rightarrow> error + nat" where
  "pending_future_nodes producer_id im =
     (if producer_id \<ge> length (ptfo_threads im) then Inl no_such_producer
      else Inr (node_count (ptfo_threads im ! producer_id)))"

definition drain_pending :: "Sys \<Rightarrow> Impl \<Rightarrow> Impl option" where
  "drain_pending sys im = drain_locked sys im"

text \<open>What the destructor does before it joins the workers.\<close>

definition FutureBTree_dtor :: "Sys \<Rightarrow> Impl \<Rightarrow> Impl option" where
  "FutureBTree_dtor sys im =
     do { im1 \<leftarrow> (if pending_operation_count im > 0 then drain_locked sys im else Some im);
          Some (im1\<lparr>stop_requested := True\<rparr>) }"

end
