(* ===== verification/Future_BTree_Correct.thy ===== *)
theory Future_BTree_Correct
  imports Future_BTree
begin

text \<open>
  The wrapper keeps its invariant and behaves as a set of keys: buffered operations update the set,
  \<^verbatim>\<open>contains\<close> answers from it, and a drain moves the pending operations into the global tree without
  changing it.
\<close>

section \<open>The invariant\<close>

definition counts_ok :: "Impl \<Rightarrow> bool" where
  "counts_ok im \<longleftrightarrow>
     (\<forall>th \<in> set (ptfo_threads im). home_node th < length (pending_operation_count_by_node im)) \<and>
     pending_operation_count im = sum_list (map thr_entry_count (ptfo_threads im)) \<and>
     (\<forall>node < length (pending_operation_count_by_node im). pending_operation_count_by_node im ! node =
        sum_list (map thr_entry_count (filter (\<lambda>th. home_node th = node) (ptfo_threads im))))"

definition seqs_ok :: "btree \<Rightarrow> 64 word \<Rightarrow> bool" where
  "seqs_ok bt next_seq \<longleftrightarrow>
     (\<forall>op \<in> set (all_pending bt). op_sequence op < next_seq) \<and>
     distinct (map op_sequence (all_pending bt)) \<and> (\<forall>tid < n_threads bt. increasing (producer_ops bt tid))"

text \<open>What holds of the state whenever the lock is free, also while producers are in the middle of an
  operation, and with it the exact accounting between operations.\<close>

definition core_ok :: "int \<Rightarrow> Impl \<Rightarrow> bool" where
  "core_ok base im \<longleftrightarrow>
     fut_ok (tree im) \<and> length (ptfo_threads im) = n_threads (tree im) \<and> counts_ok im \<and>
     seqs_ok (tree im) (next_ptfo_sequence im) \<and> replayable base (tree im) (all_pending (tree im)) \<and>
     length (ptfo_threads im) < 2 ^ 31 \<and> length (producer_bound im) = length (ptfo_threads im)"

definition impl_ok :: "int \<Rightarrow> Impl \<Rightarrow> bool" where
  "impl_ok base im \<longleftrightarrow>
     fut_ok (tree im) \<and> accounted (tree im) (ptfo_threads im) \<and> counts_ok im \<and>
     seqs_ok (tree im) (next_ptfo_sequence im) \<and> replayable base (tree im) (all_pending (tree im)) \<and>
     length (ptfo_threads im) < 2 ^ 31 \<and> length (producer_bound im) = length (ptfo_threads im)"

lemma impl_ok_core: "impl_ok base im \<longleftrightarrow> core_ok base im \<and> accounted (tree im) (ptfo_threads im)"
  by (auto simp: impl_ok_def core_ok_def accounted_def)

section \<open>Sums over the producers\<close>

lemma sum_list_map_update:
  fixes f :: "'a \<Rightarrow> nat"
  shows "i < length xs \<Longrightarrow> sum_list (map f (xs[i := y])) + f (xs ! i) = sum_list (map f xs) + f y"
proof (induction xs arbitrary: i)
  case (Cons x xs)
  then show ?case by (cases i) (auto simp: ac_simps)
qed simp

lemma sum_filter_if:
  fixes f :: "'a \<Rightarrow> nat"
  shows "sum_list (map f (filter P xs)) = sum_list (map (\<lambda>x. if P x then f x else 0) xs)"
  by (induction xs) simp_all

lemma sum_list_ge: "i < length xs \<Longrightarrow> f (xs ! i) \<le> sum_list (map (f :: 'a \<Rightarrow> nat) xs)"
  by (simp add: member_le_sum_list)

section \<open>The pending operations after a buffered operation\<close>

lemma upt_split: "tid < n \<Longrightarrow> [0..<n] = [0..<tid] @ tid # [Suc tid..<n]"
  by (metis less_imp_add_positive upt_add_eq_append upt_conv_Cons zero_le less_imp_le le_add_diff_inverse)

lemma all_pending_insert:
  assumes "n_threads bt' = n_threads bt" "tid < n_threads bt"
    "\<And>j. j < n_threads bt \<Longrightarrow> producer_ops bt' j = (if j = tid then producer_ops bt tid @ [op] else producer_ops bt j)"
  shows "mset (all_pending bt') = add_mset op (mset (all_pending bt))"
proof -
  have "map (producer_ops bt') [0..<tid] = map (producer_ops bt) [0..<tid]"
    "map (producer_ops bt') [Suc tid..<n_threads bt] = map (producer_ops bt) [Suc tid..<n_threads bt]"
    using assms(2,3) by auto
  then have "all_pending bt' = concat (map (producer_ops bt) [0..<tid]) @ (producer_ops bt tid @ [op]) @
      concat (map (producer_ops bt) [Suc tid..<n_threads bt])"
    using assms(1) assms(3) [OF assms(2)] by (simp only: all_pending_def upt_split [OF assms(2)] map_append list.map) simp
  moreover have "all_pending bt = concat (map (producer_ops bt) [0..<tid]) @ producer_ops bt tid @
      concat (map (producer_ops bt) [Suc tid..<n_threads bt])"
    by (simp only: all_pending_def upt_split [OF assms(2)]) simp
  ultimately show ?thesis by simp
qed

lemma newest_insert:
  assumes "mset os' = add_mset op (mset os)" "distinct (map op_sequence os)" "\<forall>o' \<in> set os. op_sequence o' < op_sequence op"
  shows "newest k os' = (if op_key op = k then Some op else newest k os)"
proof -
  have set: "set os' = set (os @ [op])" using assms(1) by (metis mset_append mset.simps set_mset_mset union_mset_add_mset_right add_mset_add_single)
  have "distinct (map op_sequence (os @ [op]))" using assms(2,3) by auto
  then have "inj_on op_sequence (set os')" unfolding set by (simp only: distinct_map)
  then have "newest k os' = newest_step k op (newest k os)"
    using newest_set [OF set, of k] newest_snoc [of k os op] by simp
  then show ?thesis
    using assms(3) newest_max [of k os] by (auto simp: newest_step_def split: option.splits)
qed

section \<open>Buffered operations\<close>

lemma to_int_nat: "n < 2 ^ 31 \<Longrightarrow> to_int n = int n"
proof -
  assume "n < 2 ^ 31"
  then have "signed_take_bit 31 (int n) = int n" by (intro signed_take_bit_int_eq_self) auto
  then show ?thesis by (simp add: to_int_def signed_of_nat)
qed

lemma bind_producer_frame [simp]:
  "tree (bind_producer sys p im) = tree im" "ptfo_threads (bind_producer sys p im) = ptfo_threads im"
  "next_ptfo_sequence (bind_producer sys p im) = next_ptfo_sequence im"
  "pending_operation_count (bind_producer sys p im) = pending_operation_count im"
  "pending_operation_count_by_node (bind_producer sys p im) = pending_operation_count_by_node im"
  "config (bind_producer sys p im) = config im" "topology (bind_producer sys p im) = topology im"
  "cpu_to_node (bind_producer sys p im) = cpu_to_node im" "stop_requested (bind_producer sys p im) = stop_requested im"
  "length (producer_bound (bind_producer sys p im)) = length (producer_bound im)"
  by (simp_all add: bind_producer_def Let_def)

text \<open>The thread state after the accounting of one operation.\<close>

definition bump :: "PTFOThreadState \<Rightarrow> PTFOThreadState" where
  "bump th = (let th1 = (if thr_entry_count th = 0 \<or> thr_entry_count th mod kFutureNodeCapacity = 0
     then th\<lparr>node_count := node_count th + 1\<rparr> else th) in th1\<lparr>thr_entry_count := thr_entry_count th1 + 1\<rparr>)"

lemma bump_simps [simp]: "thr_entry_count (bump th) = thr_entry_count th + 1" "home_node (bump th) = home_node th"
  by (simp_all add: bump_def Let_def)

lemma account_frame [simp]:
  "tree (account sys p im) = tree im" "next_ptfo_sequence (account sys p im) = next_ptfo_sequence im"
  "ptfo_threads (account sys p im) = (ptfo_threads im)[p := bump (ptfo_threads im ! p)]"
  "pending_operation_count (account sys p im) = pending_operation_count im + 1"
  "pending_operation_count_by_node (account sys p im) =
     (pending_operation_count_by_node im)[home_node (ptfo_threads im ! p) :=
        pending_operation_count_by_node im ! home_node (ptfo_threads im ! p) + 1]"
  "config (account sys p im) = config im" "topology (account sys p im) = topology im"
  "cpu_to_node (account sys p im) = cpu_to_node im" "stop_requested (account sys p im) = stop_requested im"
  "producer_bound (account sys p im) = producer_bound im"
  by (simp_all add: account_def bump_def Let_def)

lemma counts_account:
  assumes c: "counts_ok im" and p: "p < length (ptfo_threads im)"
  shows "counts_ok (account sys p im)"
proof -
  let ?th = "ptfo_threads im ! p" and ?by = "pending_operation_count_by_node im"
  have home: "home_node ?th < length ?by" using c p by (simp add: counts_ok_def)
  have up: "sum_list (map f ((ptfo_threads im)[p := bump ?th])) + f ?th = sum_list (map f (ptfo_threads im)) + f (bump ?th)"
    for f :: "PTFOThreadState \<Rightarrow> nat" by (rule sum_list_map_update [OF p])
  have "pending_operation_count im = sum_list (map thr_entry_count (ptfo_threads im))" using c by (simp add: counts_ok_def)
  then have "pending_operation_count im + 1 = sum_list (map thr_entry_count ((ptfo_threads im)[p := bump ?th]))"
    using up [of thr_entry_count] by simp
  moreover have "?by[home_node ?th := ?by ! home_node ?th + 1] ! node =
      sum_list (map thr_entry_count (filter (\<lambda>th. home_node th = node) ((ptfo_threads im)[p := bump ?th])))"
    if node: "node < length ?by" for node
  proof -
    have "?by ! node = sum_list (map thr_entry_count (filter (\<lambda>th. home_node th = node) (ptfo_threads im)))"
      using c node by (simp add: counts_ok_def)
    then show ?thesis
      using up [of "\<lambda>th. if home_node th = node then thr_entry_count th else 0"] home node
      by (auto simp: sum_filter_if nth_list_update split: if_splits)
  qed
  moreover have "\<forall>th \<in> set ((ptfo_threads im)[p := bump ?th]). home_node th < length ?by"
    using c p home by (auto simp: counts_ok_def dest!: set_update_subset_insert [THEN subsetD])
  ultimately show ?thesis by (simp add: counts_ok_def)
qed

lemma seqs_insert:
  assumes sq: "seqs_ok bt seq" and n: "n_threads bt' = n_threads bt" and tid: "tid < n_threads bt" and mx: "seq \<noteq> -1"
    and new: "\<And>j. j < n_threads bt \<Longrightarrow> producer_ops bt' j =
      (if j = tid then producer_ops bt tid @ [buffered key d seq (int tid)] else producer_ops bt j)"
  shows "seqs_ok bt' (seq + 1)"
proof -
  note m = all_pending_insert [OF n tid new]
  have set: "set (all_pending bt') = insert (buffered key d seq (int tid)) (set (all_pending bt))"
    using m by (metis set_mset_add_mset_insert set_mset_mset)
  have lt: "seq < seq + 1" using mx inc_less_eq_triv_imp [of seq] by (meson not_le)
  have old: "op_sequence op < seq" if "op \<in> set (all_pending bt)" for op using sq that by (simp add: seqs_ok_def)
  have sub: "op \<in> set (all_pending bt)" if "op \<in> set (producer_ops bt tid)" for op
    using that tid by (auto simp: all_pending_def)
  have "distinct (map op_sequence (all_pending bt @ [buffered key d seq (int tid)]))"
    using sq old by (auto simp: seqs_ok_def)
  moreover have "mset (map op_sequence (all_pending bt')) =
      mset (map op_sequence (all_pending bt @ [buffered key d seq (int tid)]))"
    using m by simp
  ultimately have "distinct (map op_sequence (all_pending bt'))" using mset_eq_imp_distinct_iff by blast
  moreover have "increasing (producer_ops bt' j)" if "j < n_threads bt" for j
    using new [OF that] sq that old sub by (auto simp: seqs_ok_def increasing_def sorted_wrt_append)
  moreover have "op_sequence op < seq + 1" if "op \<in> set (all_pending bt')" for op
    using that lt old unfolding set by (auto dest: less_trans)
  ultimately show ?thesis using n by (simp add: seqs_ok_def)
qed

lemma view_insert:
  assumes "seqs_ok bt seq" "n_threads bt' = n_threads bt" "tid < n_threads bt" "bt_tree bt' = bt_tree bt"
    "\<And>j. j < n_threads bt \<Longrightarrow> producer_ops bt' j =
      (if j = tid then producer_ops bt tid @ [buffered key d seq (int tid)] else producer_ops bt j)"
  shows "view bt' = (if d then view bt - {key} else insert key (view bt))"
proof -
  have "newest k (all_pending bt') = (if key = k then Some (buffered key d seq (int tid)) else newest k (all_pending bt))" for k
    using newest_insert [OF all_pending_insert [OF assms(2,3,5)], of k] assms(1)
    by (auto simp: seqs_ok_def)
  then show ?thesis by (auto simp: view_def assms(4) split: if_splits option.splits)
qed

text \<open>The room a buffered operation needs in the tables of its producer: without it the hashtable evicts
  another key and the directory does not record the operation.\<close>

definition covered :: "btree \<Rightarrow> bool" where
  "covered bt \<longleftrightarrow> hash_covers bt \<and> dir_covers bt"

definition room :: "btree \<Rightarrow> nat \<Rightarrow> int \<Rightarrow> bool" where
  "room bt tid key \<longleftrightarrow> hash_room bt tid key \<and> dir_room bt tid key"

lemma buffer_op_ok:
  assumes ok: "impl_ok base im" and p: "p < length (ptfo_threads im)" and k: "storable base key"
    and mx: "next_ptfo_sequence im \<noteq> -1"
  obtains im' where "buffer_op sys d key p im = Some im'" "impl_ok base im'"
    "view (tree im') = (if d then view (tree im) - {key} else insert key (view (tree im)))"
    "covered (tree im) \<Longrightarrow> room (tree im) p key \<Longrightarrow> covered (tree im')"
    "bt_tree (tree im') = bt_tree (tree im)" "config im' = config im"
    "next_ptfo_sequence im' = next_ptfo_sequence im + 1"
    "mset (all_pending (tree im')) = add_mset (buffered key d (next_ptfo_sequence im) (int p)) (mset (all_pending (tree im)))"
    "future_insert (tree im) key (int p) d (next_ptfo_sequence im) = Some (tree im')"
proof -
  let ?seq = "next_ptfo_sequence im"
  have n: "length (ptfo_threads im) = n_threads (tree im)" "p < 2 ^ 31"
    using ok p by (auto simp: impl_ok_def accounted_def)
  then have tid: "p < n_threads (tree im)" using p by simp
  have fo: "fut_ok (tree im)" using ok by (simp add: impl_ok_def)
  obtain bt where bt: "future_insert (tree im) key (int p) d ?seq = Some bt" "fut_ok bt"
    "bt_tree bt = bt_tree (tree im)" "n_threads bt = n_threads (tree im)"
    "\<And>j. j < n_threads (tree im) \<Longrightarrow> producer_ops bt j =
       (if j = p then producer_ops (tree im) p @ [buffered key d ?seq (int p)] else producer_ops (tree im) j)"
    "hash_covers (tree im) \<Longrightarrow> hash_room (tree im) p key \<Longrightarrow> hash_covers bt"
    "dir_covers (tree im) \<Longrightarrow> dir_room (tree im) p key \<Longrightarrow> dir_covers bt"
    using future_insert_ok [OF fo tid, of key d ?seq] by blast
  let ?im = "account sys p ((bind_producer sys p im)\<lparr>next_ptfo_sequence := ?seq + 1, tree := bt\<rparr>)"
  have run: "buffer_op sys d key p im = Some ?im"
    using bt(1) to_int_nat [OF n(2)] by (simp add: buffer_op_def fetch_sequence_def Let_def)
  have sq: "seqs_ok (tree im) ?seq" using ok by (simp add: impl_ok_def)
  note m = all_pending_insert [OF bt(4) tid bt(5)]
  have c: "counts_ok ?im"
    using ok p by (intro counts_account) (simp_all add: impl_ok_def counts_ok_def)
  have acc: "accounted bt (ptfo_threads ?im)"
    using ok p n(1) bt(4,5) by (auto simp: impl_ok_def accounted_def nth_list_update)
  have sq': "seqs_ok bt (?seq + 1)" by (rule seqs_insert [OF sq bt(4) tid mx bt(5)])
  have "set (all_pending bt) = insert (buffered key d ?seq (int p)) (set (all_pending (tree im)))"
    using m by (metis set_mset_add_mset_insert set_mset_mset)
  then have "replayable base bt (all_pending bt)"
    using ok k bt(3) by (auto simp: impl_ok_def replayable_def)
  then have "impl_ok base ?im" using bt(2) acc c sq' ok p by (auto simp: impl_ok_def)
  moreover have "view bt = (if d then view (tree im) - {key} else insert key (view (tree im)))"
    by (rule view_insert [OF sq bt(4) tid bt(3,5)])
  ultimately show thesis
    by (intro that [OF run]) (use bt(1,3,6,7) m in \<open>auto simp: covered_def room_def\<close>)
qed

section \<open>Searching\<close>

lemma contains_core:
  assumes ok: "core_ok base im" and k: "storable base key" and hc: "hash_covers (tree im)"
  shows "contains key im = Some (key \<in> view (tree im))"
proof -
  have "future_hash_directed_state_via_ptfo (tree im) key = Some (latest_of (newest key (all_pending (tree im))))"
    by (rule via_ptfo_newest [OF _ _ hc]) (use ok in \<open>auto simp: core_ok_def seqs_ok_def distinct_map\<close>)
  moreover have "btree_search (bt_tree (tree im)) key = Some (if key \<in> key_set (bt_tree (tree im)) then key else 0)"
    by (rule tix.search_law [OF _ k]) (use ok in \<open>simp add: core_ok_def replayable_def\<close>)
  moreover have "key \<noteq> 0" using k by (simp add: storable_def)
  ultimately show ?thesis
    by (cases "newest key (all_pending (tree im))")
      (auto simp: contains_def latest_of_def latest_none_def view_def entry_state_def)
qed

lemma contains_view:
  "impl_ok base im \<Longrightarrow> storable base key \<Longrightarrow> hash_covers (tree im) \<Longrightarrow> contains key im = Some (key \<in> view (tree im))"
  using contains_core impl_ok_core by blast

section \<open>Replay under a policy\<close>

text \<open>The order in which a policy replays the operations of the selected producers.\<close>

definition replay_order :: "EvaluatorPolicy \<Rightarrow> btree \<Rightarrow> int list \<Rightarrow> future_buffered_op list \<Rightarrow> bool" where
  "replay_order policy bt pids os \<longleftrightarrow>
     (case policy of
        kDeterministicReplay \<Rightarrow> mset os = mset (selected bt pids) \<and> increasing os
      | kF3K \<Rightarrow> os = selected bt pids
      | kLegacyKeyPartitioned \<Rightarrow> os = selected bt pids
      | _ \<Rightarrow> \<exists>l. mset l = mset (selected bt pids) \<and>
             os = filter (\<lambda>op. is_latest_buffered_op op (collect_latest_lookup_entries bt)) l)"

lemma replay_order_sub: "replay_order policy bt pids os \<Longrightarrow> set os \<subseteq> set (selected bt pids)"
proof -
  assume o: "replay_order policy bt pids os"
  have *: "set l = set (selected bt pids)" if "mset l = mset (selected bt pids)" for l using that by (metis set_mset_mset)
  show ?thesis using o by (cases policy) (auto simp: replay_order_def dest: *)
qed

lemma replay_by_policy_ok:
  assumes ok: "fut_ok bt" "accounted_for bt threads pids" and r: "replayable base bt (selected bt pids)"
    and d: "distinct (map op_sequence (selected bt pids))"
  obtains rs bt' os where "replay_by_policy policy bt threads pids slots = Some (rs, bt')"
    "drained bt bt' pids os" "replay_order policy bt pids os" "applied_ops rs = length os"
proof -
  have kp: "\<exists>rs bt'. apply_key_partitioned_ptfo_replay bt threads pids slots = Some (rs, bt') \<and>
      drained bt bt' pids (selected bt pids) \<and> applied_ops rs = length (selected bt pids)"
    using key_partitioned_ok [OF ok r] by blast
  have ko: "\<exists>rs bt' os. apply_key_ordered_ptfo_replay bt threads pids = Some (rs, bt') \<and>
      drained bt bt' pids os \<and> (mset os = mset (selected bt pids) \<and> increasing os) \<and> applied_ops rs = length os"
    using key_ordered_ok [OF ok r d] by (metis size_mset)
  have no: "\<exists>rs bt' os. apply_node_ordered_ptfo_replay bt threads pids = Some (rs, bt') \<and>
      drained bt bt' pids os \<and> (\<exists>l. mset l = mset (selected bt pids) \<and>
        os = filter (\<lambda>op. is_latest_buffered_op op (collect_latest_lookup_entries bt)) l) \<and> applied_ops rs = length os"
    using node_ordered_returns [OF ok r] by metis
  have "\<exists>rs bt' os. replay_by_policy policy bt threads pids slots = Some (rs, bt') \<and>
      drained bt bt' pids os \<and> replay_order policy bt pids os \<and> applied_ops rs = length os"
    unfolding replay_by_policy_def replay_order_def
    by (cases policy; simp only: EvaluatorPolicy.case; (rule ko | rule no | (use kp in blast)))
  then show thesis using that by blast
qed

lemma drained_tree_ok:
  assumes "replayable base bt os" "drained bt bt' pids os"
  shows "tree_ok base half (bt_tree bt')"
  by (rule replay_ops_returns [of base "bt_tree bt" os]) (use assms in \<open>auto simp: replayable_def drained_def\<close>)

section \<open>The tables after a drain\<close>

lemma clear_directory_idem: "clear_directory (clear_directory d) = clear_directory d"
  by (simp add: clear_directory_def)

lemma clear_entries_nth:
  "length (future_clear_lookup_entries_for_producers dirs pids) = length dirs \<and>
   (\<forall>j < length dirs. future_clear_lookup_entries_for_producers dirs pids ! j =
      (if int j \<in> set pids then clear_directory (dirs ! j) else dirs ! j))"
proof (induction pids arbitrary: dirs)
  case (Cons pid pids)
  let ?d = "if pid < 0 \<or> pid \<ge> int (length dirs) then dirs else dirs[nat pid := clear_directory (dirs ! nat pid)]"
  have "length ?d = length dirs" by simp
  moreover have "?d ! j = (if int j = pid then clear_directory (dirs ! j) else dirs ! j)" if "j < length dirs" for j
    using that by (auto simp: nth_list_update)
  ultimately show ?case using Cons.IH [of ?d] by (auto simp: clear_directory_idem)
qed simp

lemma after_drain:
  assumes ok: "fut_ok bt" and c: "cleared bt bt1 pids" and len: "length dirs' = n_threads bt"
    and d: "\<And>j. j < n_threads bt \<Longrightarrow> dirs' ! j = (if cl j then clear_directory (bt_dirs bt ! j) else bt_dirs bt ! j)"
    and bt2: "bt2 = bt1\<lparr>bt_is_Done := dn, bt_dirs := dirs'\<rparr>"
  shows "fut_ok bt2" "n_threads bt2 = n_threads bt" "producer_ops bt2 = producer_ops bt1" "bt_tree bt2 = bt_tree bt1"
    "bt_hash bt2 = bt_hash bt" "bt_dirs bt2 = dirs'"
proof -
  show "bt_hash bt2 = bt_hash bt" "bt_dirs bt2 = dirs'" using c by (auto simp: bt2 cleared_def)
  show n: "n_threads bt2 = n_threads bt" and "producer_ops bt2 = producer_ops bt1" and "bt_tree bt2 = bt_tree bt1"
    using c by (auto simp: bt2 cleared_def n_threads_def producer_ops_def fun_eq_iff)
  have ne: "bt_dirs bt ! j \<noteq> []" if "j < n_threads bt" for j using ok that by (simp add: fut_ok_def dir_ok_def)
  have dk: "dir_ok (dirs' ! j)" if "j < n_threads bt" for j
    using ok d [OF that] clear_directory_ok(1) [OF ne [OF that]] that by (simp add: fut_ok_def)
  have "n_threads bt1 = n_threads bt" "fut_ok bt1" "bt_hash bt1 = bt_hash bt" using c by (auto simp: cleared_def)
  then show "fut_ok bt2" using dk len n by (simp add: fut_ok_def bt2 n_threads_def)
qed

lemma hash_covers_drain:
  assumes "hash_covers bt" "n_threads bt' = n_threads bt" "bt_hash bt' = bt_hash bt"
    "\<And>j. j < n_threads bt \<Longrightarrow> producer_ops bt' j = (if int j \<in> set pids then [] else producer_ops bt j)"
  shows "hash_covers bt'"
  using assms by (auto simp: hash_covers_def)

lemma dir_covers_drain:
  assumes "dir_covers bt" "n_threads bt' = n_threads bt"
    "\<And>j. j < n_threads bt \<Longrightarrow> producer_ops bt' j = (if int j \<in> set pids then [] else producer_ops bt j)"
    "\<And>j. j < n_threads bt \<Longrightarrow> bt_dirs bt' ! j = (if cl j then clear_directory (bt_dirs bt ! j) else bt_dirs bt ! j)"
    "\<And>j. j < n_threads bt \<Longrightarrow> cl j \<longleftrightarrow> int j \<in> set pids \<or> cl j \<and> producer_ops bt j = []"
  shows "dir_covers bt'"
  unfolding dir_covers_def assms(2)
proof (intro allI impI)
  fix j k assume j: "j < n_threads bt"
  show "dir_get (bt_dirs bt' ! j) k = map_option dir_slot (last_op k (producer_ops bt' j))"
    using assms(3-5) [OF j] assms(1) j clear_directory_ok(2) by (auto simp: dir_covers_def)
qed

lemma distinct_concat_drop:
  "distinct (map h (concat (map f xs))) \<Longrightarrow> distinct (map h (concat (map (\<lambda>x. if P x then [] else f x) xs)))"
  by (induction xs) auto

lemma cleared_pending:
  assumes "n_threads bt' = n_threads bt"
    "\<And>j. j < n_threads bt \<Longrightarrow> producer_ops bt' j = (if int j \<in> set pids then [] else producer_ops bt j)"
  shows "all_pending bt' = concat (map (\<lambda>j. if int j \<in> set pids then [] else producer_ops bt j) [0..<n_threads bt])"
  unfolding all_pending_def assms(1) by (intro arg_cong [of _ _ concat] map_cong refl) (use assms(2) in auto)

lemma seqs_cleared:
  assumes "seqs_ok bt seq" "n_threads bt' = n_threads bt"
    "\<And>j. j < n_threads bt \<Longrightarrow> producer_ops bt' j = (if int j \<in> set pids then [] else producer_ops bt j)"
  shows "seqs_ok bt' seq" "set (all_pending bt') \<subseteq> set (all_pending bt)"
proof -
  have ap: "all_pending bt' = concat (map (\<lambda>j. if int j \<in> set pids then [] else producer_ops bt j) [0..<n_threads bt])"
    by (rule cleared_pending [OF assms(2,3)])
  show sub: "set (all_pending bt') \<subseteq> set (all_pending bt)"
    unfolding ap by (auto simp: all_pending_def split: if_splits)
  have "distinct (map op_sequence (all_pending bt'))"
    unfolding ap by (rule distinct_concat_drop) (use assms(1) in \<open>simp add: seqs_ok_def all_pending_def\<close>)
  then show "seqs_ok bt' seq" using assms sub by (auto simp: seqs_ok_def increasing_def)
qed

section \<open>Accounting of a drain\<close>

definition reset :: "PTFOThreadState \<Rightarrow> PTFOThreadState" where
  "reset th = th\<lparr>node_count := 0, thr_entry_count := 0\<rparr>"

lemma reset_simps [simp]: "thr_entry_count (reset th) = 0" "home_node (reset th) = home_node th" "reset (reset th) = reset th"
  by (simp_all add: reset_def)

lemma subtract_one:
  assumes c: "counts_ok im" and p: "0 \<le> p" "p < int (length (ptfo_threads im))"
  shows "counts_ok (subtract_pending_counts_locked [p] im)"
    "ptfo_threads (subtract_pending_counts_locked [p] im) = (ptfo_threads im)[nat p := reset (ptfo_threads im ! nat p)]"
proof -
  let ?th = "ptfo_threads im ! nat p" and ?by = "pending_operation_count_by_node im"
  let ?ths = "(ptfo_threads im)[nat p := reset ?th]"
  have np: "nat p < length (ptfo_threads im)" using p by auto
  have home: "home_node ?th < length ?by" using c np by (simp add: counts_ok_def)
  have up: "sum_list (map f ?ths) + f ?th = sum_list (map f (ptfo_threads im)) + f (reset ?th)"
    for f :: "PTFOThreadState \<Rightarrow> nat" by (rule sum_list_map_update [OF np])
  have tot: "pending_operation_count im = sum_list (map thr_entry_count ?ths) + thr_entry_count ?th"
    using up [of thr_entry_count] c by (simp add: counts_ok_def)
  have nod: "?by ! node = sum_list (map thr_entry_count (filter (\<lambda>th. home_node th = node) ?ths)) +
      (if home_node ?th = node then thr_entry_count ?th else 0)" if "node < length ?by" for node
    using up [of "\<lambda>th. if home_node th = node then thr_entry_count th else 0"] c that
    by (simp add: counts_ok_def sum_filter_if split: if_splits)
  have st: "subtract_pending_counts_locked [p] im =
      im\<lparr>pending_operation_count_by_node := ?by[home_node ?th := ?by ! home_node ?th - thr_entry_count ?th],
         pending_operation_count := pending_operation_count im - thr_entry_count ?th, ptfo_threads := ?ths\<rparr>"
    using p home tot nod [OF home] by (simp add: Let_def size_sub_def reset_def)
  show "ptfo_threads (subtract_pending_counts_locked [p] im) = ?ths" unfolding st by simp
  have "\<forall>th \<in> set ?ths. home_node th < length ?by"
    using c np home by (auto simp: counts_ok_def dest!: set_update_subset_insert [THEN subsetD])
  then show "counts_ok (subtract_pending_counts_locked [p] im)"
    unfolding st counts_ok_def using tot nod home by (simp add: nth_list_update)
qed

lemma subtract_frame:
  "tree (subtract_pending_counts_locked pids im) = tree im"
  "config (subtract_pending_counts_locked pids im) = config im"
  "next_ptfo_sequence (subtract_pending_counts_locked pids im) = next_ptfo_sequence im"
  "producer_bound (subtract_pending_counts_locked pids im) = producer_bound im"
  "stop_requested (subtract_pending_counts_locked pids im) = stop_requested im"
  "topology (subtract_pending_counts_locked pids im) = topology im"
  "cpu_to_node (subtract_pending_counts_locked pids im) = cpu_to_node im"
  by (induction pids arbitrary: im) (simp_all add: Let_def)

lemma subtract_ok:
  assumes "counts_ok im" "\<forall>p \<in> set pids. 0 \<le> p \<and> p < int (length (ptfo_threads im))"
  shows "counts_ok (subtract_pending_counts_locked pids im) \<and>
    length (ptfo_threads (subtract_pending_counts_locked pids im)) = length (ptfo_threads im) \<and>
    (\<forall>j < length (ptfo_threads im). ptfo_threads (subtract_pending_counts_locked pids im) ! j =
       (if int j \<in> set pids then reset (ptfo_threads im ! j) else ptfo_threads im ! j))"
  using assms
proof (induction pids arbitrary: im)
  case (Cons p pids)
  let ?im = "subtract_pending_counts_locked [p] im"
  have p: "0 \<le> p" "p < int (length (ptfo_threads im))" using Cons.prems(2) by auto
  note one = subtract_one [OF Cons.prems(1) p]
  have "subtract_pending_counts_locked (p # pids) im = subtract_pending_counts_locked pids ?im" by simp
  moreover have "\<forall>q \<in> set pids. 0 \<le> q \<and> q < int (length (ptfo_threads ?im))"
    using Cons.prems(2) one(2) by simp
  ultimately show ?case using Cons.IH [OF one(1)] one(2) p by (auto simp: nth_list_update)
qed simp

section \<open>Drains keep the invariant\<close>

lemma locality_frame [simp]:
  "tree (record_checkpoint_locality_locked sys pids im) = tree im"
  "ptfo_threads (record_checkpoint_locality_locked sys pids im) = ptfo_threads im"
  "config (record_checkpoint_locality_locked sys pids im) = config im"
  "next_ptfo_sequence (record_checkpoint_locality_locked sys pids im) = next_ptfo_sequence im"
  "producer_bound (record_checkpoint_locality_locked sys pids im) = producer_bound im"
  "pending_operation_count (record_checkpoint_locality_locked sys pids im) = pending_operation_count im"
  "pending_operation_count_by_node (record_checkpoint_locality_locked sys pids im) = pending_operation_count_by_node im"
  "counts_ok (record_checkpoint_locality_locked sys pids im) = counts_ok im"
  by (simp_all add: record_checkpoint_locality_locked_def Let_def counts_ok_def)

lemma distinct_concat_pick:
  assumes "distinct (concat (map f [0..<n]))" "distinct is" "set is \<subseteq> {0..<n}"
  shows "distinct (concat (map f is))"
proof -
  have apart: "set (f i) \<inter> set (f j) = {}" if ij: "i < j" "j < n" for i j
  proof -
    have "distinct (concat (map f [0..<j]) @ f j @ concat (map f [Suc j..<n]))"
      using assms(1) upt_split [OF ij(2)] by simp
    then have "set (concat (map f [0..<j])) \<inter> set (f j) = {}" by auto
    moreover have "set (f i) \<subseteq> set (concat (map f [0..<j]))" using ij by auto
    ultimately show ?thesis by blast
  qed
  have each: "distinct (f i)" if "i < n" for i using assms(1) that by (auto simp: distinct_concat_iff)
  show ?thesis using assms(2,3)
  proof (induction "is")
    case (Cons i "is")
    have "set (f i) \<inter> set (f j) = {}" if "j \<in> set is" for j
    proof (cases "i < j")
      case True
      moreover have "j < n" using Cons.prems that by auto
      ultimately show ?thesis by (rule apart)
    next
      case False
      moreover have "i \<noteq> j" using Cons.prems that by auto
      ultimately have "set (f j) \<inter> set (f i) = {}" using Cons.prems by (intro apart) auto
      then show ?thesis by blast
    qed
    then have "set (f i) \<inter> set (concat (map f is)) = {}" by auto
    then show ?case using Cons each [of i] by simp
  qed simp
qed

lemma selected_distinct:
  assumes "valid_pids bt pids" "distinct (map op_sequence (all_pending bt))"
  shows "distinct (map op_sequence (selected bt pids))"
proof -
  let ?f = "\<lambda>j. map op_sequence (producer_ops bt j)"
  have "distinct (concat (map ?f [0..<n_threads bt]))"
    using assms(2) by (simp add: all_pending_def map_concat comp_def)
  moreover have "distinct (map nat pids)" "set (map nat pids) \<subseteq> {0..<n_threads bt}"
    using assms(1) by (auto simp: valid_pids_def distinct_map inj_on_def eq_nat_nat_iff)
  ultimately have "distinct (concat (map ?f (map nat pids)))" by (rule distinct_concat_pick)
  then show ?thesis by (simp add: selected_def map_concat comp_def)
qed

text \<open>What a drain of the given producers leaves behind; it clears the directories in \<open>cl\<close>.\<close>

definition core_result :: "int \<Rightarrow> (nat \<Rightarrow> bool) \<Rightarrow> Impl \<Rightarrow> Impl \<Rightarrow> int list \<Rightarrow> future_buffered_op list \<Rightarrow> bool" where
  "core_result base cl im im' pids os \<longleftrightarrow>
     core_ok base im' \<and> replay_order (evaluator_policy (config im)) (tree im) pids os \<and>
     replay_ops (bt_tree (tree im)) os = Some (bt_tree (tree im')) \<and> n_threads (tree im') = n_threads (tree im) \<and>
     (\<forall>j < n_threads (tree im). producer_ops (tree im') j =
        (if int j \<in> set pids then [] else producer_ops (tree im) j)) \<and>
     (\<forall>j < n_threads (tree im). thr_entry_count (ptfo_threads im' ! j) =
        (if int j \<in> set pids then 0 else thr_entry_count (ptfo_threads im ! j))) \<and> config im' = config im \<and>
     next_ptfo_sequence im' = next_ptfo_sequence im \<and> bt_hash (tree im') = bt_hash (tree im) \<and>
     (\<forall>j < n_threads (tree im). bt_dirs (tree im') ! j =
        (if cl j then clear_directory (bt_dirs (tree im) ! j) else bt_dirs (tree im) ! j))"

definition drain_result :: "int \<Rightarrow> Impl \<Rightarrow> Impl \<Rightarrow> int list \<Rightarrow> future_buffered_op list \<Rightarrow> bool" where
  "drain_result base im im' pids os \<longleftrightarrow>
     impl_ok base im' \<and> replay_order (evaluator_policy (config im)) (tree im) pids os \<and>
     replay_ops (bt_tree (tree im)) os = Some (bt_tree (tree im')) \<and> n_threads (tree im') = n_threads (tree im) \<and>
     (\<forall>j < n_threads (tree im). producer_ops (tree im') j =
        (if int j \<in> set pids then [] else producer_ops (tree im) j)) \<and>
     (covered (tree im) \<longrightarrow> covered (tree im')) \<and> config im' = config im \<and>
     next_ptfo_sequence im' = next_ptfo_sequence im \<and> bt_hash (tree im') = bt_hash (tree im) \<and>
     (\<forall>j < n_threads (tree im). bt_dirs (tree im') ! j \<in> {bt_dirs (tree im) ! j, clear_directory (bt_dirs (tree im) ! j)})"

text \<open>With exact accounting the drain keeps the accounting, and the directories stay right if only those of
  drained or empty producers were cleared.\<close>

lemma core_drain_result:
  assumes ok: "impl_ok base im" and r: "core_result base cl im im' pids os"
    and cl: "\<And>j. j < n_threads (tree im) \<Longrightarrow> cl j \<longleftrightarrow> int j \<in> set pids \<or> cl j \<and> producer_ops (tree im) j = []"
  shows "drain_result base im im' pids os"
proof -
  note R = r [unfolded core_result_def]
  have "accounted (tree im') (ptfo_threads im')"
    using ok R by (auto simp: accounted_def impl_ok_def core_ok_def)
  moreover have "covered (tree im')" if "covered (tree im)"
    using that R hash_covers_drain [of "tree im" "tree im'" pids] dir_covers_drain [of "tree im" "tree im'" pids cl] cl
    by (simp add: covered_def)
  ultimately show ?thesis using R by (simp add: drain_result_def impl_ok_core)
qed

lemma core_replay:
  assumes ok: "core_ok base im" and a: "accounted_for (tree im) (ptfo_threads im) pids"
  obtains rs bt' os where
    "replay_by_policy policy (tree im) (ptfo_threads im) pids slots = Some (rs, bt')"
    "drained (tree im) bt' pids os" "replay_order policy (tree im) pids os" "tree_ok base half (bt_tree bt')"
proof -
  have v: "valid_pids (tree im) pids" and f: "fut_ok (tree im)"
    using a ok by (auto simp: accounted_for_def valid_pids_def core_ok_def)
  have sub: "set (selected (tree im) pids) \<subseteq> set (all_pending (tree im))"
    by (rule selected_in_pending) (use v in \<open>simp add: valid_pids_def\<close>)
  then have r: "replayable base (tree im) (selected (tree im) pids)"
    using ok by (auto simp: core_ok_def replayable_def)
  have d: "distinct (map op_sequence (selected (tree im) pids))"
    by (rule selected_distinct [OF v]) (use ok in \<open>simp add: core_ok_def seqs_ok_def\<close>)
  obtain rs bt' os where *: "replay_by_policy policy (tree im) (ptfo_threads im) pids slots = Some (rs, bt')"
    "drained (tree im) bt' pids os" "replay_order policy (tree im) pids os"
    using replay_by_policy_ok [OF f a r d, of policy slots] by blast
  have "replayable base (tree im) os" using r replay_order_sub [OF *(3)] by (auto simp: replayable_def)
  then show thesis using that * drained_tree_ok by blast
qed

text \<open>The core of the state after a drain: the threads and counters are reset, the chosen chains are cleared.\<close>

lemma core_after_drain:
  assumes ok: "core_ok base im" and bt: "fut_ok bt" "n_threads bt = n_threads (tree im)" "tree_ok base half (bt_tree bt)"
    and po: "\<And>j. j < n_threads (tree im) \<Longrightarrow> producer_ops bt j = (if int j \<in> set pids then [] else producer_ops (tree im) j)"
    and im': "tree im' = bt" "next_ptfo_sequence im' = next_ptfo_sequence im" "length (ptfo_threads im') = length (ptfo_threads im)"
      "producer_bound im' = producer_bound im" "counts_ok im'"
  shows "core_ok base im'"
proof -
  have sq: "seqs_ok bt (next_ptfo_sequence im)" "set (all_pending bt) \<subseteq> set (all_pending (tree im))"
    by (rule seqs_cleared [OF _ bt(2) po, of "next_ptfo_sequence im"]; use ok in \<open>simp add: core_ok_def\<close>)+
  have "replayable base bt (all_pending bt)" using ok sq(2) bt(3) by (auto simp: core_ok_def replayable_def)
  then show ?thesis using bt(1,2) sq(1) ok im' by (simp add: core_ok_def)
qed

lemma drain_some_core:
  assumes ok: "core_ok base im" and a: "accounted_for (tree im) (ptfo_threads im) pids"
  obtains im' os where "drain_some sys pids slots im = Some im'" "core_result base (\<lambda>j. int j \<in> set pids) im im' pids os"
proof -
  obtain rs bt1 os where r: "replay_by_policy (evaluator_policy (config im)) (tree im) (ptfo_threads im) pids slots = Some (rs, bt1)"
    "drained (tree im) bt1 pids os" "replay_order (evaluator_policy (config im)) (tree im) pids os"
    "tree_ok base half (bt_tree bt1)"
    using core_replay [OF ok a] by blast
  define dirs where "dirs = future_clear_lookup_entries_for_producers (bt_dirs bt1) pids"
  define bt where "bt = bt1\<lparr>bt_is_Done := bt_is_Done bt1, bt_dirs := dirs\<rparr>"
  define im1 where "im1 = (record_checkpoint_locality_locked sys pids im)\<lparr>tree := bt\<rparr>"
  define im2 where "im2 = subtract_pending_counts_locked pids im1"
  let ?im = "im2\<lparr>stats := count_checkpoint sys True rs (stats im2)\<rparr>"
  have fo: "fut_ok (tree im)" and n: "length (ptfo_threads im) = n_threads (tree im)" using ok by (auto simp: core_ok_def)
  have c: "cleared (tree im) bt1 pids" using r(2) by (simp add: drained_def)
  have ln: "length dirs = n_threads (tree im)" "bt_dirs bt1 = bt_dirs (tree im)" "length (bt_dirs (tree im)) = n_threads (tree im)"
    using clear_entries_nth [of "bt_dirs bt1" pids] c fo by (auto simp: cleared_def fut_ok_def dirs_def)
  have nth: "dirs ! j = (if int j \<in> set pids then clear_directory (bt_dirs (tree im) ! j) else bt_dirs (tree im) ! j)"
    if "j < n_threads (tree im)" for j
    using clear_entries_nth [of "bt_dirs bt1" pids] that ln by (simp add: dirs_def)
  note ad = after_drain [OF fo c ln(1) nth bt_def]
  have po: "producer_ops bt j = (if int j \<in> set pids then [] else producer_ops (tree im) j)" if "j < n_threads (tree im)" for j
    using c that ad(3) by (simp add: cleared_def)
  have i1: "tree im1 = bt" "ptfo_threads im1 = ptfo_threads im" "config im1 = config im"
    "next_ptfo_sequence im1 = next_ptfo_sequence im" "producer_bound im1 = producer_bound im" "counts_ok im1"
    using ok by (auto simp: im1_def core_ok_def counts_ok_def)
  have "\<forall>p \<in> set pids. 0 \<le> p \<and> p < int (length (ptfo_threads im1))"
    using a n i1(2) by (simp add: accounted_for_def)
  note sb = subtract_ok [OF i1(6) this, folded im2_def, unfolded i1(2)] and fr = subtract_frame [of pids im1, folded im2_def, unfolded i1]
  have "counts_ok ?im" using sb by (simp add: counts_ok_def)
  then have "core_ok base ?im"
    using r(4) ad(4) fr sb by (intro core_after_drain [OF ok ad(1,2) _ po]) simp_all
  then have "core_result base (\<lambda>j. int j \<in> set pids) im ?im pids os"
    using r(2,3) ad po fr nth sb n by (simp add: core_result_def drained_def)
  moreover have "drain_some sys pids slots im = Some ?im"
    using r(1) by (simp add: drain_some_def Let_def im2_def im1_def bt_def dirs_def)
  ultimately show thesis using that by blast
qed

lemma drain_some_ok:
  assumes ok: "impl_ok base im" and v: "valid_pids (tree im) pids"
  obtains im' os where "drain_some sys pids slots im = Some im'" "drain_result base im im' pids os"
proof -
  have c: "core_ok base im" "accounted_for (tree im) (ptfo_threads im) pids"
    using ok accounted_forI [OF _ v] by (auto simp: impl_ok_core)
  obtain im' os where "drain_some sys pids slots im = Some im'" "core_result base (\<lambda>j. int j \<in> set pids) im im' pids os"
    by (rule drain_some_core [OF c])
  then show thesis using that core_drain_result [OF ok] by blast
qed

lemma active_accounted:
  "length (ptfo_threads im) = n_threads (tree im) \<Longrightarrow> accounted_for (tree im) (ptfo_threads im) (active_producers im)"
  by (auto simp: accounted_for_def active_producers_def active_def distinct_map)

lemma active_producers_valid:
  assumes "impl_ok base im"
  shows "valid_pids (tree im) (active_producers im)"
    "\<And>j. j < n_threads (tree im) \<Longrightarrow> int j \<in> set (active_producers im) \<longleftrightarrow> producer_ops (tree im) j \<noteq> []"
proof -
  have len: "length (ptfo_threads im) = n_threads (tree im)"
    and cnt: "\<And>j. j < n_threads (tree im) \<Longrightarrow> thr_entry_count (ptfo_threads im ! j) = length (producer_ops (tree im) j)"
    using assms by (auto simp: impl_ok_def accounted_def)
  show "valid_pids (tree im) (active_producers im)"
    by (auto simp: valid_pids_def active_producers_def distinct_map len)
  show "int j \<in> set (active_producers im) \<longleftrightarrow> producer_ops (tree im) j \<noteq> []" if "j < n_threads (tree im)" for j
    using that cnt [OF that] by (auto simp: active_producers_def len)
qed

lemma selected_active:
  assumes "impl_ok base im"
  shows "selected (tree im) (active_producers im) = all_pending (tree im)"
proof -
  have len: "length (ptfo_threads im) = n_threads (tree im)"
    and cnt: "\<forall>j < n_threads (tree im). thr_entry_count (ptfo_threads im ! j) = length (producer_ops (tree im) j)"
    using assms by (auto simp: impl_ok_def accounted_def)
  have "concat (map (producer_ops (tree im)) (filter (\<lambda>j. thr_entry_count (ptfo_threads im ! j) > 0) js)) =
      concat (map (producer_ops (tree im)) js)" if "\<forall>j \<in> set js. j < n_threads (tree im)" for js
    using that cnt by (induction js) auto
  from this [of "[0..<n_threads (tree im)]"] show ?thesis
    by (simp add: selected_def active_producers_def all_pending_def len comp_def)
qed

lemma pending_zero:
  assumes "impl_ok base im"
  shows "pending_operation_count im = 0 \<longleftrightarrow> all_pending (tree im) = []"
proof -
  have len: "length (ptfo_threads im) = n_threads (tree im)"
    and cnt: "\<forall>j < n_threads (tree im). thr_entry_count (ptfo_threads im ! j) = length (producer_ops (tree im) j)"
    and c: "pending_operation_count im = sum_list (map thr_entry_count (ptfo_threads im))"
    using assms by (auto simp: impl_ok_def accounted_def counts_ok_def)
  have "pending_operation_count im = 0 \<longleftrightarrow> (\<forall>j < n_threads (tree im). producer_ops (tree im) j = [])"
    using cnt by (auto simp: c len in_set_conv_nth all_set_conv_all_nth simp flip: len)
  then show ?thesis by (auto simp: all_pending_def)
qed

lemma pending_zero_active:
  assumes "counts_ok im"
  shows "pending_operation_count im = 0 \<longleftrightarrow> active_producers im = []"
    "pending_operation_count im = 0 \<longleftrightarrow> (\<forall>j < length (ptfo_threads im). thr_entry_count (ptfo_threads im ! j) = 0)"
  using assms by (auto simp: counts_ok_def active_producers_def all_set_conv_all_nth filter_empty_conv)

lemma drain_locked_core:
  assumes ok: "core_ok base im"
  obtains im' os where "drain_locked sys im = Some im'" "pending_operation_count im' = 0"
    "core_result base (\<lambda>_. pending_operation_count im \<noteq> 0) im im' (active_producers im) os"
proof (cases "pending_operation_count im = 0")
  case True
  have "active_producers im = []" using True pending_zero_active(1) [of im] ok by (simp add: core_ok_def)
  then have "core_result base (\<lambda>_. False) im im (active_producers im) []"
    using ok by (cases "evaluator_policy (config im)") (auto simp: core_result_def replay_order_def selected_def increasing_def)
  then show thesis using that True by (simp add: drain_locked_def)
next
  case False
  let ?pids = "active_producers im"
  have fo: "fut_ok (tree im)" and n: "length (ptfo_threads im) = n_threads (tree im)" using ok by (auto simp: core_ok_def)
  obtain rs bt1 os where r: "replay_by_policy (evaluator_policy (config im)) (tree im) (ptfo_threads im) ?pids
      (evaluator_threads (config im)) = Some (rs, bt1)"
    "drained (tree im) bt1 ?pids os" "replay_order (evaluator_policy (config im)) (tree im) ?pids os"
    "tree_ok base half (bt_tree bt1)"
    using core_replay [OF ok active_accounted [OF n]] by blast
  define dirs where "dirs = future_clear_lookup_directory (bt_dirs bt1)"
  define bt where "bt = bt1\<lparr>bt_is_Done := True, bt_dirs := dirs\<rparr>"
  define im1 where "im1 = record_checkpoint_locality_locked sys ?pids im"
  let ?im = "im1\<lparr>tree := bt,
       pending_operation_count_by_node := map (\<lambda>_. 0) (pending_operation_count_by_node im1),
       ptfo_threads := map (\<lambda>th. th\<lparr>node_count := 0, thr_entry_count := 0\<rparr>) (ptfo_threads im1),
       pending_operation_count := 0, stats := count_checkpoint sys False rs (stats im1)\<rparr>"
  have c: "cleared (tree im) bt1 ?pids" using r(2) by (simp add: drained_def)
  have ln: "length dirs = n_threads (tree im)" using c fo by (auto simp: cleared_def fut_ok_def dirs_def future_clear_lookup_directory_def)
  have nth: "dirs ! j = (if True then clear_directory (bt_dirs (tree im) ! j) else bt_dirs (tree im) ! j)"
    if "j < n_threads (tree im)" for j
    using c fo that by (simp add: dirs_def future_clear_lookup_directory_def cleared_def fut_ok_def)
  note ad = after_drain [OF fo c ln nth bt_def]
  have po: "producer_ops bt j = (if int j \<in> set ?pids then [] else producer_ops (tree im) j)" if "j < n_threads (tree im)" for j
    using c that ad(3) by (simp add: cleared_def)
  have "counts_ok ?im" using ok by (auto simp: core_ok_def counts_ok_def im1_def sum_filter_if comp_def)
  then have "core_ok base ?im"
    using r(4) ad(4) by (intro core_after_drain [OF ok ad(1,2) _ po]) (simp_all add: im1_def)
  moreover have "thr_entry_count (ptfo_threads im ! j) = 0" if "j < n_threads (tree im)" "int j \<notin> set ?pids" for j
    using that n by (auto simp: active_producers_def)
  ultimately have "core_result base (\<lambda>_. True) im ?im ?pids os"
    using r(2,3) ad po nth n by (simp add: core_result_def drained_def im1_def)
  moreover have "drain_locked sys im = Some ?im"
    using r(1) False by (simp add: drain_locked_def Let_def im1_def bt_def dirs_def)
  moreover have "pending_operation_count ?im = 0" by simp
  ultimately show thesis using that False by simp
qed

lemma drain_locked_ok:
  assumes ok: "impl_ok base im"
  obtains im' os where "drain_locked sys im = Some im'" "drain_result base im im' (active_producers im) os"
    "pending_operation_count im' = 0"
proof -
  obtain im' os where d: "drain_locked sys im = Some im'" "pending_operation_count im' = 0"
    "core_result base (\<lambda>_. pending_operation_count im \<noteq> 0) im im' (active_producers im) os"
    by (rule drain_locked_core [of base im sys]) (use ok in \<open>simp_all add: impl_ok_core\<close>)
  have "(pending_operation_count im \<noteq> 0) = (int j \<in> set (active_producers im) \<or> pending_operation_count im \<noteq> 0 \<and> producer_ops (tree im) j = [])"
    if "j < n_threads (tree im)" for j
    using active_producers_valid(2) [OF ok that] pending_zero_active(1) [of im] ok by (auto simp: impl_ok_def)
  then show thesis using that d core_drain_result [OF ok d(3)] by blast
qed

end
