(* ===== verification/Client.thy ===== *)
theory Client
  imports Future_BTree_Correct
begin

text \<open>
  A sequence of calls on one \<^verbatim>\<open>FutureBTree\<close>, against its specification: a set of keys.  The calls
  may be buffered operations, direct inserts before the buffered ones, drains and passes of a single
  evaluator thread.  What the caller has to respect depends on the evaluation policy and is stated by
  \<open>allowed\<close>.
\<close>

section \<open>Calls and their specification\<close>

datatype request = Insert_key int nat | Erase_key int nat | Warmup int | Drain | Evaluate

fun step :: "Sys \<Rightarrow> request \<Rightarrow> Impl \<Rightarrow> (error + Impl) option" where
  "step sys (Insert_key k p) im = buffered_insert sys k p im"
| "step sys (Erase_key k p) im = erase_buffered sys k p im"
| "step sys (Warmup k) im = map_option Inr (warmup_insert k im)"
| "step sys Drain im = map_option Inr (drain_pending sys im)"
| "step sys Evaluate im = map_option Inr (evaluator_pass sys 0 1 im)"

fun run :: "Sys \<Rightarrow> request list \<Rightarrow> Impl \<Rightarrow> (error + Impl) option" where
  "run sys [] im = Some (Inr im)"
| "run sys (r # rs) im =
     (case step sys r im of None \<Rightarrow> None | Some (Inl e) \<Rightarrow> Some (Inl e) | Some (Inr im') \<Rightarrow> run sys rs im')"

fun spec_step :: "request \<Rightarrow> int set \<Rightarrow> int set" where
  "spec_step (Insert_key k p) S = insert k S"
| "spec_step (Erase_key k p) S = S - {k}"
| "spec_step (Warmup k) S = insert k S"
| "spec_step Drain S = S"
| "spec_step Evaluate S = S"

definition spec :: "request list \<Rightarrow> int set" where
  "spec rs = fold spec_step rs {}"

fun keys_of :: "request \<Rightarrow> int set" where
  "keys_of (Insert_key k p) = {k}"
| "keys_of (Erase_key k p) = {k}"
| "keys_of (Warmup k) = {k}"
| "keys_of Drain = {}"
| "keys_of Evaluate = {}"

definition by_key :: "EvaluatorPolicy \<Rightarrow> bool" where
  "by_key pol \<longleftrightarrow> pol = kF3K \<or> pol = kLegacyKeyPartitioned"

definition by_node :: "EvaluatorPolicy \<Rightarrow> bool" where
  "by_node pol \<longleftrightarrow> pol = kF3N \<or> pol = kLegacyNodePartitioned"

text \<open>What a caller may do with the specification in state \<open>S\<close> and the keys \<open>H\<close> used so far: insert
  absent keys only; under the key-partitioned policy use every key from one producer only; under the
  node-ordered policy insert every key at most once; and insert directly only unused keys.\<close>

fun allowed :: "EvaluatorPolicy \<Rightarrow> (int \<Rightarrow> nat) \<Rightarrow> int \<Rightarrow> nat \<Rightarrow> int set \<Rightarrow> int set \<Rightarrow> request \<Rightarrow> bool" where
  "allowed pol own base n S H (Insert_key k p) =
     (p < n \<and> storable base k \<and> k \<notin> S \<and> (by_key pol \<longrightarrow> own k = p) \<and> (by_node pol \<longrightarrow> k \<notin> H))"
| "allowed pol own base n S H (Erase_key k p) = (p < n \<and> storable base k \<and> (by_key pol \<longrightarrow> own k = p))"
| "allowed pol own base n S H (Warmup k) = (storable base k \<and> k \<notin> H)"
| "allowed pol own base n S H Drain = True"
| "allowed pol own base n S H Evaluate = True"

fun allowed_run :: "EvaluatorPolicy \<Rightarrow> (int \<Rightarrow> nat) \<Rightarrow> int \<Rightarrow> nat \<Rightarrow> int set \<Rightarrow> int set \<Rightarrow> request list \<Rightarrow> bool" where
  "allowed_run pol own base n S H [] = True"
| "allowed_run pol own base n S H (r # rs) =
     (allowed pol own base n S H r \<and> allowed_run pol own base n (spec_step r S) (H \<union> keys_of r) rs)"

section \<open>Room in the tables\<close>

definition hash_used :: "HashMapTable \<Rightarrow> nat" where
  "hash_used h = (case ht h of None \<Rightarrow> 0 | Some cells \<Rightarrow> length (filter (\<lambda>c. c \<noteq> HNull) cells))"

definition dir_used :: "directory \<Rightarrow> nat" where
  "dir_used d = length (filter occupied d)"

text \<open>At most \<open>n\<close> of the \<open>c\<close> slots of every table are in use.\<close>

definition load :: "btree \<Rightarrow> nat \<Rightarrow> nat \<Rightarrow> bool" where
  "load bt c n \<longleftrightarrow> (\<forall>tid < n_threads bt. capacity (bt_hash bt ! tid) = c \<and> hash_used (bt_hash bt ! tid) \<le> n \<and>
     length (bt_dirs bt ! tid) = c \<and> dir_used (bt_dirs bt ! tid) \<le> n)"

lemma filter_update_le: "length (filter P (xs[i := x])) \<le> length (filter P xs) + 1"
proof (cases "i < length xs")
  case True
  have "length (filter P xs) = length (filter P (take i xs @ xs ! i # drop (Suc i) xs))"
    using id_take_nth_drop [OF True] by metis
  then show ?thesis using True by (auto simp: upd_conv_take_nth_drop)
qed (simp add: list_update_beyond)

lemma Insert_used:
  assumes "table_ok t" "Insert t k v = Some t'"
  shows "hash_used t' \<le> hash_used t + 1" "capacity t' = capacity t"
proof -
  obtain cells i where "ht t = Some cells" "Insert t k v = Some (t\<lparr>ht := Some (cells[i := HEntry k v])\<rparr>)"
    by (rule Insert_shape [OF assms(1)])
  then show "hash_used t' \<le> hash_used t + 1" "capacity t' = capacity t"
    using assms(2) filter_update_le [of "\<lambda>c. c \<noteq> HNull" cells i "HEntry k v"] by (auto simp: hash_used_def)
qed

lemma record_lookup_used:
  assumes "tid < length dirs" "dirs ! tid \<noteq> []" "record_lookup dirs key (int tid) del seq = Some dirs'"
  shows "dir_used (dirs' ! tid) \<le> dir_used (dirs ! tid) + 1" "length (dirs' ! tid) = length (dirs ! tid)"
    "\<And>j. j \<noteq> tid \<Longrightarrow> dirs' ! j = dirs ! j"
  using assms filter_update_le [of occupied "dirs ! tid"]
  by (auto simp: record_lookup_def future_lookup_index_def dir_used_def Let_def bind_eq_Some_conv split: if_splits)

lemma filter_short: "length (filter P xs) < length xs \<Longrightarrow> \<exists>x \<in> set xs. \<not> P x"
  using filter_True [of xs P] by (metis less_irrefl)

lemma load_room:
  assumes "fut_ok bt" "load bt c n" "n < c" "tid < n_threads bt"
  shows "room bt tid key"
proof -
  have t: "table_ok (bt_hash bt ! tid)" using assms by (simp add: fut_ok_def)
  obtain cells where c: "ht (bt_hash bt ! tid) = Some cells" "length cells = capacity (bt_hash bt ! tid)"
    by (rule table_okE [OF t])
  have l: "length (filter (\<lambda>c. c \<noteq> HNull) cells) < length cells" "length (filter occupied (bt_dirs bt ! tid)) < length (bt_dirs bt ! tid)"
    using assms(2-4) c by (auto simp: load_def hash_used_def dir_used_def)
  have "\<not> table_full (bt_hash bt ! tid)" using filter_short [OF l(1)] c(1) by (auto simp: table_full_def)
  moreover have "\<not> dir_full (bt_dirs bt ! tid)" using filter_short [OF l(2)] by (auto simp: dir_full_def)
  ultimately show ?thesis by (simp add: room_def hash_room_def dir_room_def)
qed

lemma load_insert:
  assumes ok: "fut_ok bt" and l: "load bt c n" and tid: "tid < n_threads bt" and i: "future_insert bt key (int tid) d seq = Some bt'"
  shows "load bt' c (n + 1)"
proof -
  obtain p h dirs where s: "Insert (bt_hash bt ! tid) key (int tid) = Some h" "record_lookup (bt_dirs bt) key (int tid) d seq = Some dirs"
    and bt': "bt' = bt\<lparr>bt_ptfos := (bt_ptfos bt)[tid := p], bt_hash := (bt_hash bt)[tid := h], bt_dirs := dirs\<rparr>"
    using i by (auto simp: future_insert_def bind_eq_Some_conv split: if_splits)
  have t: "table_ok (bt_hash bt ! tid)" "bt_dirs bt ! tid \<noteq> []" "length (bt_hash bt) = n_threads bt"
    "tid < length (bt_dirs bt)" using ok tid by (auto simp: fut_ok_def dir_ok_def)
  note hu = Insert_used [OF t(1) s(1)] and du = record_lookup_used [OF t(4,2) s(2)]
  have "n_threads bt' = n_threads bt" by (simp add: bt' n_threads_def)
  moreover have "capacity (bt_hash bt' ! j) = c \<and> hash_used (bt_hash bt' ! j) \<le> n + 1 \<and>
      length (bt_dirs bt' ! j) = c \<and> dir_used (bt_dirs bt' ! j) \<le> n + 1" if j: "j < n_threads bt" for j
    using l j tid hu du t(3) by (cases "j = tid") (force simp: load_def bt')+
  ultimately show ?thesis by (simp add: load_def)
qed

lemma load_drain:
  assumes "load bt c n" "n_threads bt' = n_threads bt" "bt_hash bt' = bt_hash bt"
    "\<forall>j < n_threads bt. bt_dirs bt' ! j \<in> {bt_dirs bt ! j, clear_directory (bt_dirs bt ! j)}"
  shows "load bt' c n"
proof -
  have "dir_used (clear_directory d) = 0" "length (clear_directory d) = length d" for d
    by (simp_all add: dir_used_def clear_directory_def lookup_slot_ctor_def)
  then show ?thesis using assms by (force simp: load_def)
qed

section \<open>Operations in the order of their sequence numbers\<close>

definition in_order :: "btree \<Rightarrow> future_buffered_op list" where
  "in_order bt = sort_key op_sequence (all_pending bt)"

lemma increasing_unique:
  assumes "mset os = mset l" "increasing os" "distinct (map op_sequence l)"
  shows "os = sort_key op_sequence l"
proof (rule map_sorted_distinct_set_unique [of op_sequence])
  have set: "set os = set l" using assms(1) by (metis set_mset_mset)
  then show "set os = set (sort_key op_sequence l)" by simp
  show "inj_on op_sequence (set os \<union> set (sort_key op_sequence l))" using set assms(3) by (simp add: distinct_map)
  show "sorted (map op_sequence os)" using assms(2)
    by (auto simp: increasing_def sorted_map elim: sorted_wrt_mono_rel [rotated])
  show "distinct (map op_sequence (sort_key op_sequence l))" "distinct (map op_sequence os)"
    using assms(1,3) mset_eq_imp_distinct_iff [of "map op_sequence os" "map op_sequence l"]
      mset_eq_imp_distinct_iff [of "map op_sequence (sort_key op_sequence l)" "map op_sequence l"] by auto
qed simp

lemma in_order_increasing:
  assumes "distinct (map op_sequence (all_pending bt))"
  shows "increasing (in_order bt)" "mset (in_order bt) = mset (all_pending bt)"
proof -
  have "distinct (map op_sequence (in_order bt))"
    using assms mset_eq_imp_distinct_iff [of "map op_sequence (in_order bt)" "map op_sequence (all_pending bt)"]
    by (simp add: in_order_def)
  moreover have "sorted (map op_sequence (in_order bt))" by (simp add: in_order_def)
  ultimately have "sorted_wrt (<) (map op_sequence (in_order bt))" by (simp add: strict_sorted_iff)
  then show "increasing (in_order bt)" by (simp add: increasing_def sorted_wrt_map)
  show "mset (in_order bt) = mset (all_pending bt)" by (simp add: in_order_def)
qed

lemma in_order_last:
  "distinct (map op_sequence (all_pending bt)) \<Longrightarrow> last_op k (in_order bt) = newest k (all_pending bt)"
  using key_ordered_last in_order_increasing by metis

lemma view_effect:
  "distinct (map op_sequence (all_pending bt)) \<Longrightarrow> view bt = ops_effect (in_order bt) (key_set (bt_tree bt))"
  using ops_effect_last [of _ "in_order bt" "key_set (bt_tree bt)"] in_order_last [of bt] by (auto simp: view_def)

lemma in_order_insert:
  assumes "mset (all_pending bt') = add_mset op (mset (all_pending bt))" "distinct (map op_sequence (all_pending bt))"
    "\<forall>o' \<in> set (all_pending bt). op_sequence o' < op_sequence op"
  shows "in_order bt' = in_order bt @ [op]"
proof -
  have "mset (map op_sequence (all_pending bt')) = mset (map op_sequence (all_pending bt @ [op]))" using assms(1) by simp
  moreover have "distinct (map op_sequence (all_pending bt @ [op]))" using assms(2,3) by auto
  ultimately have "distinct (map op_sequence (all_pending bt'))" using mset_eq_imp_distinct_iff by blast
  moreover have "mset (in_order bt @ [op]) = mset (all_pending bt')"
    using assms(1) in_order_increasing(2) [OF assms(2)] by simp
  moreover have "\<forall>o' \<in> set (in_order bt). op_sequence o' < op_sequence op" using assms(3) by (simp add: in_order_def)
  then have "increasing (in_order bt @ [op])"
    using in_order_increasing(1) [OF assms(2)] by (simp add: increasing_def sorted_wrt_append)
  ultimately show ?thesis unfolding in_order_def [of bt'] using increasing_unique by metis
qed

lemma fresh_snoc:
  "fresh_inserts (os @ [op]) K \<longleftrightarrow> fresh_inserts os K \<and> (op_is_delete op \<or> op_key op \<notin> ops_effect os K)"
  by (induction os arbitrary: K) auto

text \<open>Whether an insert is fresh depends on the operations on its own key only.\<close>

lemma fresh_filter:
  "fresh_inserts os K \<longleftrightarrow> (\<forall>k. fresh_inserts (filter (\<lambda>op. op_key op = k) os) K)"
proof (induction os rule: rev_induct)
  case (snoc op os)
  let ?f = "\<lambda>k. filter (\<lambda>op. op_key op = k)"
  have "op_key op \<in> ops_effect os K \<longleftrightarrow> op_key op \<in> ops_effect (?f (op_key op) os) K"
    by (simp add: ops_effect_last last_op_filter)
  moreover have "(\<forall>k. fresh_inserts (?f k (os @ [op])) K) \<longleftrightarrow>
      (\<forall>k. fresh_inserts (?f k os) K) \<and> (op_is_delete op \<or> op_key op \<notin> ops_effect (?f (op_key op) os) K)"
    by (auto simp: fresh_snoc)
  ultimately show ?case using snoc by (simp only: fresh_snoc)
qed simp

section \<open>The simulation relation\<close>

definition owned :: "(int \<Rightarrow> nat) \<Rightarrow> btree \<Rightarrow> bool" where
  "owned own bt \<longleftrightarrow> (\<forall>tid < n_threads bt. \<forall>op \<in> set (producer_ops bt tid). own (op_key op) = tid)"

definition ready :: "EvaluatorPolicy \<Rightarrow> (int \<Rightarrow> nat) \<Rightarrow> btree \<Rightarrow> bool" where
  "ready pol own bt \<longleftrightarrow> (by_key pol \<longrightarrow> owned own bt) \<and>
     (if by_node pol then \<forall>op \<in> set (all_pending bt). op_is_delete op \<or> op_key op \<notin> key_set (bt_tree bt)
      else fresh_inserts (in_order bt) (key_set (bt_tree bt)))"

lemma owned_disjoint: "owned own bt \<Longrightarrow> disjoint_keys bt"
  by (auto simp: owned_def disjoint_keys_def) metis

lemma owned_filter:
  assumes "owned own bt" "seqs_ok bt seq"
  shows "filter (\<lambda>op. op_key op = k) (all_pending bt) = filter (\<lambda>op. op_key op = k) (in_order bt)"
proof -
  let ?P = "\<lambda>op. op_key op = k"
  have d: "distinct (map op_sequence (all_pending bt))" and inc: "\<forall>tid < n_threads bt. increasing (producer_ops bt tid)"
    using assms(2) by (auto simp: seqs_ok_def)
  have "increasing (filter ?P (all_pending bt))" by (rule disjoint_increasing [OF owned_disjoint [OF assms(1)] inc])
  moreover have "distinct (map op_sequence (filter ?P (all_pending bt)))" using d by (rule distinct_map_filter)
  ultimately have "filter ?P (all_pending bt) = sort_key op_sequence (filter ?P (all_pending bt))"
    using increasing_unique by blast
  also have "\<dots> = filter ?P (in_order bt)" by (simp add: in_order_def filter_sort)
  finally show ?thesis .
qed

lemma order_ok:
  assumes o: "replay_order pol bt pids os" and all: "selected bt pids = all_pending bt" and r: "ready pol own bt"
    and sq: "seqs_ok bt seq" and f: "fut_ok bt" "dir_covers bt" "\<forall>pid \<in> set pids. 0 \<le> pid \<and> pid < int (n_threads bt)"
  shows "last_op k os = newest k (all_pending bt)" "fresh_inserts os (key_set (bt_tree bt))"
proof -
  have d: "distinct (map op_sequence (all_pending bt))" and inc: "\<forall>tid < n_threads bt. increasing (producer_ops bt tid)"
    using sq by (auto simp: seqs_ok_def)
  consider "pol = kDeterministicReplay" | "by_key pol" | "by_node pol"
    by (cases pol) (auto simp: by_key_def by_node_def)
  then have "last_op k os = newest k (all_pending bt) \<and> fresh_inserts os (key_set (bt_tree bt))"
  proof cases
    case 1
    then have "os = in_order bt" using o increasing_unique [OF _ _ d] by (auto simp: replay_order_def all in_order_def)
    then show ?thesis using r in_order_last [OF d] 1 by (simp add: ready_def by_node_def)
  next
    case 2
    then have "os = all_pending bt" "owned own bt" "\<not> by_node pol"
      using o r by (auto simp: replay_order_def all ready_def by_key_def by_node_def)
    then show ?thesis
      using r disjoint_last [OF owned_disjoint inc] fresh_filter [of "all_pending bt"] fresh_filter [of "in_order bt"]
        owned_filter [OF _ sq] by (simp add: ready_def)
  next
    case 3
    then obtain l where l: "mset l = mset (selected bt pids)"
      "os = filter (\<lambda>op. is_latest_buffered_op op (collect_latest_lookup_entries bt)) l"
      using o by (auto simp: replay_order_def by_node_def)
    have w: "set os = winners bt pids" unfolding l(2) by (rule latest_winners [OF f(1,3) l(1) f(2) inc d])
    have "distinct (all_pending bt)" using d by (simp add: distinct_map)
    then have "distinct l" using l(1) all mset_eq_imp_distinct_iff by metis
    then have dk: "distinct (map op_key os)" using winners_distinct [of os bt pids] w l(2) by simp
    have "\<forall>op \<in> set os. op_is_delete op \<or> op_key op \<notin> key_set (bt_tree bt)"
      using w r 3 all by (auto simp: winners_def ready_def)
    then have "fresh_inserts os (key_set (bt_tree bt))" by (rule fresh_distinct [OF dk])
    then show ?thesis using winners_last [OF w, of k] all newest_max [of k "all_pending bt"] by (auto split: option.splits)
  qed
  then show "last_op k os = newest k (all_pending bt)" "fresh_inserts os (key_set (bt_tree bt))" by auto
qed

text \<open>The state \<open>im\<close> implements the set \<open>S\<close> after at most \<open>n\<close> buffered operations on keys of \<open>H\<close>.\<close>

definition implements ::
  "EvaluatorPolicy \<Rightarrow> (int \<Rightarrow> nat) \<Rightarrow> int \<Rightarrow> nat \<Rightarrow> int set \<Rightarrow> int set \<Rightarrow> nat \<Rightarrow> Impl \<Rightarrow> bool" where
  "implements pol own base c S H n im \<longleftrightarrow>
     impl_ok base im \<and> covered (tree im) \<and> uniq_tree base (bt_tree (tree im)) \<and> view (tree im) = S \<and>
     key_set (bt_tree (tree im)) \<union> op_key ` set (all_pending (tree im)) \<subseteq> H \<and> load (tree im) c n \<and>
     unat (next_ptfo_sequence im) \<le> n + 2 \<and> evaluator_policy (config im) = pol \<and>
     placement_policy (config im) = kDefault \<and> n_threads (tree im) = producer_threads (config im) \<and>
     ready pol own (tree im)"

lemma view_keys: "view bt \<subseteq> key_set (bt_tree bt) \<union> op_key ` set (all_pending bt)"
  using newest_max [of _ "all_pending bt"] by (fastforce simp: view_def split: option.splits)

lemma small_sequence:
  assumes "unat (x :: 64 word) < 2 ^ 63"
  shows "x \<noteq> -1" "unat (x + 1) = unat x + 1"
proof -
  show x: "x \<noteq> -1" using assms by (auto simp: unsigned_minus_1_eq_mask mask_eq_exp_minus_1)
  show "unat (x + 1) = unat x + 1" using unatSuc [of x] x by (metis Suc_eq_plus1 add.commute add_eq_0_iff)
qed

text \<open>A buffered operation that the policy allows keeps the pending operations ready for replay.\<close>

lemma ready_insert:
  assumes rd: "ready pol own bt" and own: "by_key pol \<Longrightarrow> owned own bt \<Longrightarrow> owned own bt'" and t: "bt_tree bt' = bt_tree bt"
    and m: "mset (all_pending bt') = add_mset op (mset (all_pending bt))"
    and d: "distinct (map op_sequence (all_pending bt))" "\<forall>o' \<in> set (all_pending bt). op_sequence o' < op_sequence op"
    and a: "\<not> op_is_delete op \<Longrightarrow> op_key op \<notin> view bt" "by_node pol \<Longrightarrow> \<not> op_is_delete op \<Longrightarrow> op_key op \<notin> key_set (bt_tree bt)"
  shows "ready pol own bt'"
proof (cases "by_node pol")
  case True
  have "set (all_pending bt') = insert op (set (all_pending bt))" using m by (metis set_mset_add_mset_insert set_mset_mset)
  then show ?thesis using rd own True a(2) t by (auto simp: ready_def)
next
  case False
  have "op_is_delete op \<or> op_key op \<notin> ops_effect (in_order bt) (key_set (bt_tree bt))"
    using a(1) view_effect [OF d(1)] by auto
  then show ?thesis using rd own False t by (auto simp: ready_def in_order_insert [OF m d] fresh_snoc)
qed

lemma buffer_step:
  assumes i: "implements pol own base c S H n im" and n: "n < c" "c < 2 ^ 62"
    and p: "p < length (ptfo_threads im)" "storable base key"
    and a: "\<not> d \<Longrightarrow> key \<notin> S" "by_key pol \<Longrightarrow> own key = p" "by_node pol \<Longrightarrow> \<not> d \<Longrightarrow> key \<notin> H"
  shows "\<exists>im'. buffer_op sys d key p im = Some im' \<and> config im' = config im \<and>
    implements pol own base c (if d then S - {key} else insert key S) (insert key H) (n + 1) im'"
proof -
  have ok: "impl_ok base im" and cov: "covered (tree im)" and sq: "unat (next_ptfo_sequence im) \<le> n + 2"
    and ld: "load (tree im) c n" and rd: "ready pol own (tree im)"
    using i by (auto simp: implements_def)
  have fo: "fut_ok (tree im)" and len: "length (ptfo_threads im) = n_threads (tree im)"
    and so: "seqs_ok (tree im) (next_ptfo_sequence im)"
    using ok by (auto simp: impl_ok_def accounted_def)
  have tid: "p < n_threads (tree im)" using p(1) len by simp
  have rm: "room (tree im) p key" by (rule load_room [OF fo ld n(1) tid])
  have "unat (next_ptfo_sequence im) < 2 ^ 63" using sq n by simp
  note mx = small_sequence [OF this]
  let ?op = "buffered key d (next_ptfo_sequence im) (int p)"
  obtain im' where im': "buffer_op sys d key p im = Some im'" "impl_ok base im'"
    "view (tree im') = (if d then view (tree im) - {key} else insert key (view (tree im)))"
    "covered (tree im) \<Longrightarrow> room (tree im) p key \<Longrightarrow> covered (tree im')"
    "bt_tree (tree im') = bt_tree (tree im)" "config im' = config im"
    "next_ptfo_sequence im' = next_ptfo_sequence im + 1"
    "mset (all_pending (tree im')) = add_mset ?op (mset (all_pending (tree im)))"
    "future_insert (tree im) key (int p) d (next_ptfo_sequence im) = Some (tree im')"
    using buffer_op_ok [OF ok p mx(1)] by blast
  have set: "set (all_pending (tree im')) = insert ?op (set (all_pending (tree im)))"
    using im'(8) by (metis set_mset_add_mset_insert set_mset_mset)
  have sq': "unat (next_ptfo_sequence im') \<le> n + 1 + 2" using sq im'(7) mx(2) by simp
  obtain bt where bt: "future_insert (tree im) key (int p) d (next_ptfo_sequence im) = Some bt"
    "n_threads bt = n_threads (tree im)"
    "\<And>j. j < n_threads (tree im) \<Longrightarrow> producer_ops bt j =
       (if j = p then producer_ops (tree im) p @ [?op] else producer_ops (tree im) j)"
    using future_insert_ok [OF fo tid, of key d "next_ptfo_sequence im"] by blast
  have eq: "bt = tree im'" using bt(1) im'(9) by simp
  then have own': "owned own (tree im')" if "owned own (tree im)" "by_key pol"
    using that bt(2,3) a(2) by (auto simp: owned_def split: if_splits)
  have d: "distinct (map op_sequence (all_pending (tree im)))" "\<forall>o' \<in> set (all_pending (tree im)). op_sequence o' < op_sequence ?op"
    using so by (auto simp: seqs_ok_def)
  have v: "view (tree im) = S" "key_set (bt_tree (tree im)) \<subseteq> H" using i by (auto simp: implements_def)
  have rd': "ready pol own (tree im')"
    by (rule ready_insert [OF rd _ im'(5,8) d]) (use own' a v in auto)
  have "implements pol own base c (if d then S - {key} else insert key S) (insert key H) (n + 1) im'"
    using i im' cov rm sq' rd' set load_insert [OF fo ld tid im'(9)] bt(2) eq by (auto simp: implements_def)
  then show ?thesis using im'(1,6) by blast
qed

lemma drain_step:
  assumes i: "implements pol own base c S H n im"
    and r: "drain_result base im im' (active_producers im) os"
  shows "implements pol own base c S H n im'" "all_pending (tree im') = []"
proof -
  have ok: "impl_ok base im" and cov: "covered (tree im)" and u: "uniq_tree base (bt_tree (tree im))"
    and rd: "ready pol own (tree im)" and pol: "evaluator_policy (config im) = pol"
    using i by (auto simp: implements_def)
  have fo: "fut_ok (tree im)" and so: "seqs_ok (tree im) (next_ptfo_sequence im)" using ok by (auto simp: impl_ok_def)
  note v = active_producers_valid [OF ok]
  have pids: "\<forall>pid \<in> set (active_producers im). 0 \<le> pid \<and> pid < int (n_threads (tree im))"
    using v(1) by (simp add: valid_pids_def)
  have o: "replay_order pol (tree im) (active_producers im) os" using r pol by (simp add: drain_result_def)
  have dc: "dir_covers (tree im)" using cov by (simp add: covered_def)
  note oo = order_ok [OF o selected_active [OF ok] rd so fo dc pids]
  have rep: "replay_ops (bt_tree (tree im)) os = Some (bt_tree (tree im'))" using r by (simp add: drain_result_def)
  have sto: "\<forall>op \<in> set os. storable base (op_key op)"
    using ok replay_order_sub [OF o] selected_active [OF ok] by (auto simp: impl_ok_def replayable_def)
  show ap: "all_pending (tree im') = []"
    using r v(2) by (auto simp: drain_result_def all_pending_def)
  note fd = full_drain_view [OF rep u sto oo(2) ap oo(1)]
  have "view (tree im) = S" "key_set (bt_tree (tree im)) \<union> op_key ` set (all_pending (tree im)) \<subseteq> H"
    using i by (auto simp: implements_def)
  then have "S \<subseteq> H" using view_keys [of "tree im"] by blast
  moreover have "ready pol own (tree im')"
  proof -
    have "owned own (tree im')" using ap by (auto simp: owned_def all_pending_def)
    then show ?thesis using ap by (simp add: ready_def in_order_def)
  qed
  moreover have "load (tree im') c n"
    by (rule load_drain [of "tree im"]) (use i r in \<open>auto simp: implements_def drain_result_def\<close>)
  ultimately show "implements pol own base c S H n im'"
    using i r fd ap by (auto simp: implements_def drain_result_def)
qed

lemma warmup_step:
  assumes i: "implements pol own base c S H n im" and k: "storable base key" "key \<notin> H"
  shows "\<exists>im'. warmup_insert key im = Some im' \<and> config im' = config im \<and> implements pol own base c (insert key S) (insert key H) n im'"
proof -
  let ?t = "bt_tree (tree im)"
  have u: "uniq_tree base ?t" and sub: "key_set ?t \<union> op_key ` set (all_pending (tree im)) \<subseteq> H"
    and ok: "impl_ok base im" and d: "distinct (map op_sequence (all_pending (tree im)))"
    using i by (auto simp: implements_def impl_ok_def seqs_ok_def)
  then have new: "key \<notin> key_set ?t" "\<forall>op \<in> set (all_pending (tree im)). op_key op \<noteq> key" using k(2) by auto
  obtain t where t: "tree_insert ?t key = Some t" "uniq_tree base t" "key_set t = insert key (key_set ?t)"
    using uix.ins_law [OF u k(1) new(1)] by blast
  let ?bt = "(tree im)\<lparr>bt_tree := t\<rparr>" and ?im = "im\<lparr>tree := (tree im)\<lparr>bt_tree := t\<rparr>\<rparr>"
  have "producer_ops ?bt = producer_ops (tree im)" by (simp add: fun_eq_iff)
  then have fr: "all_pending ?bt = all_pending (tree im)" "in_order ?bt = in_order (tree im)"
    by (simp_all only: all_pending_def in_order_def fut_ok_tree)
  have nk: "newest key (all_pending (tree im)) = None" using new(2) by (simp add: newest_None)
  have vw: "view ?bt = insert key (view (tree im))"
    using nk t(3) by (auto simp: view_def fr split: option.splits)
  have fk: "fresh_inserts os (insert key K) = fresh_inserts os K" if "\<forall>op \<in> set os. op_key op \<noteq> key" for os K
    using that by (induction os arbitrary: K) (auto simp: op_effect_def insert_Diff_if insert_commute)
  have rd: "ready pol own ?bt"
    using i new(2) t(3) fk [of "in_order (tree im)" "key_set ?t"]
    by (auto simp: implements_def ready_def fr owned_def in_order_def)
  have cov: "covered ?bt" "load ?bt c n"
    using i by (auto simp: implements_def covered_def hash_covers_def dir_covers_def load_def)
  have "impl_ok base ?im"
    using ok t(2) uniq_tree_ok by (auto simp: impl_ok_def fr replayable_def accounted_def counts_ok_def seqs_ok_def)
  then have "implements pol own base c (insert key S) (insert key H) n ?im"
    using i t(2,3) vw rd cov by (auto simp: implements_def fr)
  moreover have "warmup_insert key im = Some ?im" using t(1) by (simp add: warmup_insert_def)
  moreover have "config ?im = config im" by simp
  ultimately show ?thesis by blast
qed

lemma evaluate_step:
  assumes i: "implements pol own base c S H n im"
  shows "\<exists>im'. evaluator_pass sys 0 1 im = Some im' \<and> config im' = config im \<and> implements pol own base c S H n im'"
proof -
  have ok: "impl_ok base im" and pl: "placement_policy (config im) = kDefault" using i by (auto simp: implements_def)
  have on: "owned_nodes_of im 0 1 = []" using pl by (simp add: owned_nodes_of_def evaluator_binding_enabled_def)
  have op: "producers_for_evaluator 0 1 (length (ptfo_threads im)) = map int [0..<length (ptfo_threads im)]"
    by (simp add: producers_for_evaluator_def Let_def)
  have live: "filter (\<lambda>pid. pid \<ge> 0 \<and> pid < int (length (ptfo_threads im)) \<and> thr_entry_count (ptfo_threads im ! nat pid) > 0)
      (map int [0..<length (ptfo_threads im)]) = active_producers im"
    by (auto simp: active_producers_def filter_map comp_def intro!: arg_cong [of _ _ "map int"] filter_cong)
  obtain im' os where d: "drain_some sys (active_producers im) 1 im = Some im'" "drain_result base im im' (active_producers im) os"
    using drain_some_ok [OF ok active_producers_valid(1) [OF ok]] by blast
  have "evaluator_drain sys [] (map int [0..<length (ptfo_threads im)]) im =
      Some (if active_producers im = [] then im else im')"
    using d(1) by (simp only: evaluator_drain_def drain_locked_for_producers_def live Let_def) simp
  then have "evaluator_pass sys 0 1 im = Some im \<or> evaluator_pass sys 0 1 im = Some im'"
    by (simp only: evaluator_pass_def on op Let_def split: EvalAction.split if_splits) auto
  moreover have "config im' = config im" using d(2) by (simp add: drain_result_def)
  ultimately show ?thesis using i drain_step(1) [OF i d(2)] by blast
qed

lemma drain_pending_step:
  assumes i: "implements pol own base c S H n im"
  obtains im' where "drain_pending sys im = Some im'" "config im' = config im"
    "implements pol own base c S H n im'" "all_pending (tree im') = []"
proof -
  have ok: "impl_ok base im" using i by (simp add: implements_def)
  obtain im' os where d: "drain_locked sys im = Some im'" "drain_result base im im' (active_producers im) os"
    using drain_locked_ok [OF ok] by blast
  then have "config im' = config im" by (simp add: drain_result_def)
  then show thesis using that drain_step [OF i d(2)] d(1) by (simp add: drain_pending_def)
qed

section \<open>Runs\<close>

fun cost :: "request \<Rightarrow> nat" where
  "cost (Insert_key k p) = 1"
| "cost (Erase_key k p) = 1"
| "cost _ = 0"

lemma step_ok:
  assumes i: "implements pol own base c S H n im" and al: "allowed pol own base (producer_threads (config im)) S H r"
    and n: "n + cost r \<le> c" "c < 2 ^ 62"
  shows "\<exists>im'. step sys r im = Some (Inr im') \<and> config im' = config im \<and>
    implements pol own base c (spec_step r S) (H \<union> keys_of r) (n + cost r) im'"
proof -
  have len: "length (ptfo_threads im) = producer_threads (config im)"
    using i by (simp add: implements_def impl_ok_def accounted_def)
  show ?thesis
  proof (cases r)
    case (Insert_key k p)
    then show ?thesis
      using buffer_step [OF i, of p k False sys] al n len by (auto simp: buffered_insert_def)
  next
    case (Erase_key k p)
    then show ?thesis
      using buffer_step [OF i, of p k True sys] al n len by (auto simp: erase_buffered_def)
  next
    case (Warmup k)
    then show ?thesis using warmup_step [OF i, of k] al by auto
  next
    case Drain
    then show ?thesis using drain_pending_step [OF i, of sys] by (metis Un_empty_right add.right_neutral cost.simps(4) keys_of.simps(4) option.simps(9) spec_step.simps(4) step.simps(4))
  next
    case Evaluate
    then show ?thesis using evaluate_step [OF i, of sys] by auto
  qed
qed

lemma run_ok:
  assumes "implements pol own base c S H n im" "allowed_run pol own base (producer_threads (config im)) S H rs"
    "n + sum_list (map cost rs) \<le> c" "c < 2 ^ 62"
  shows "\<exists>im' H' n'. run sys rs im = Some (Inr im') \<and> config im' = config im \<and>
    implements pol own base c (fold spec_step rs S) H' n' im'"
  using assms
proof (induction rs arbitrary: S H n im)
  case (Cons r rs)
  obtain im1 where s: "step sys r im = Some (Inr im1)" "config im1 = config im"
    "implements pol own base c (spec_step r S) (H \<union> keys_of r) (n + cost r) im1"
    using step_ok [OF Cons.prems(1), of r sys] Cons.prems by auto
  have "\<exists>im' H' n'. run sys rs im1 = Some (Inr im') \<and> config im' = config im1 \<and>
      implements pol own base c (fold spec_step rs (spec_step r S)) H' n' im'"
    using Cons.prems s by (intro Cons.IH) auto
  then show ?case using s by simp
qed auto

section \<open>The constructor\<close>

lemma ctor_implements:
  assumes cfg: "0 < producer_threads cfg" "producer_threads cfg < 2 ^ 31" "0 < cfg_hash_capacity cfg"
    "cfg_hash_capacity cfg < 2 ^ 31" "placement_policy cfg = kDefault" and base: "0 < base"
  shows "implements (evaluator_policy cfg) own base (cfg_hash_capacity cfg) {} {} 0 (Impl_ctor base topo cfg)"
proof -
  let ?im = "Impl_ctor base topo cfg" and ?n = "producer_threads cfg" and ?c = "cfg_hash_capacity cfg"
  define bt where "bt = config_btree base cfg"
  have bt: "bt_tree bt = tree_ctor base" "bt_ptfos bt = replicate ?n ptfo_ctor"
    "bt_hash bt = replicate ?n (hash_init HashMapTable_ctor (int ?c))" "bt_dirs bt = replicate ?n (replicate ?c lookup_slot_ctor)"
    using cfg to_int_nat [of ?n] to_int_nat [of ?c]
    by (auto simp: bt_def config_btree_def btree_ctor_def Let_def)
  have n: "n_threads bt = ?n" by (simp add: n_threads_def bt)
  have po: "producer_ops bt j = []" if "j < ?n" for j using that by (simp add: producer_ops_def bt ptfo_ctor_wf)
  then have ap: "all_pending bt = []" by (simp add: all_pending_def n)
  have ld: "load bt ?c 0"
    using cfg(3) by (auto simp: load_def n bt hash_used_def hash_init_def Let_def dir_used_def lookup_slot_ctor_def)
  have "replicate ?c lookup_slot_ctor = clear_directory (replicate ?c lookup_slot_ctor)" by (simp add: clear_directory_def)
  then have dk: "dir_ok (replicate ?c lookup_slot_ctor)" "dir_get (replicate ?c lookup_slot_ctor) k = None" for k
    using clear_directory_ok [of "replicate ?c lookup_slot_ctor"] cfg(3) by auto
  have fo: "fut_ok bt" using dk(1) ptfo_ctor_wf(1) init_ok(1) by (simp add: fut_ok_def n bt)
  have cov: "covered bt" using dk(2) po by (simp add: covered_def hash_covers_def dir_covers_def n bt)
  have u: "uniq_tree base (tree_ctor base)" "key_set (tree_ctor base) = {}"
    using tree_ctor_ok [OF base] by (auto simp: uniq_tree_def uniq_def)
  have "newest k (all_pending bt) = None" for k using ap by (simp add: newest_None)
  then have vw: "view bt = {}" using u(2) by (simp add: view_def bt)
  have t: "tree ?im = bt" by (simp add: Impl_ctor_def Let_def bt_def)
  have "counts_ok ?im"
    by (auto simp: counts_ok_def Impl_ctor_def Let_def sum_filter_if comp_def available_def split: if_splits)
  moreover have "accounted bt (ptfo_threads ?im)" using po by (simp add: accounted_def n Impl_ctor_def Let_def)
  ultimately have "impl_ok base ?im"
    using fo cfg(2) uniq_tree_ok [OF u(1)] po
    by (simp add: impl_ok_def t seqs_ok_def ap n replayable_def bt increasing_def) (simp add: Impl_ctor_def Let_def)
  moreover have "ready (evaluator_policy cfg) own bt" using po by (auto simp: ready_def ap owned_def n in_order_def)
  moreover have "unat (next_ptfo_sequence ?im) \<le> 0 + 2" by (simp add: Impl_ctor_def Let_def seq_counter_resume_def max_def)
  moreover have "config ?im = cfg" by (simp add: Impl_ctor_def Let_def)
  ultimately show ?thesis
    using cov u vw ld cfg(5) n by (simp add: implements_def t ap bt)
qed

lemma start_run:
  assumes cfg: "0 < producer_threads cfg" "producer_threads cfg < 2 ^ 31" "0 < cfg_hash_capacity cfg"
    "cfg_hash_capacity cfg < 2 ^ 31" "placement_policy cfg = kDefault" and base: "0 < base"
    and al: "allowed_run (evaluator_policy cfg) own base (producer_threads cfg) {} {} rs"
    and n: "sum_list (map cost rs) \<le> cfg_hash_capacity cfg"
  shows "\<exists>im H n. run sys rs (Impl_ctor base topo cfg) = Some (Inr im) \<and> config im = cfg \<and>
    implements (evaluator_policy cfg) own base (cfg_hash_capacity cfg) (spec rs) H n im"
proof -
  have c: "config (Impl_ctor base topo cfg) = cfg" by (simp add: Impl_ctor_def Let_def)
  then show ?thesis
    using run_ok [OF ctor_implements [OF cfg base, of own topo], of rs sys] al n cfg(4) by (simp add: spec_def)
qed

section \<open>A sample system\<close>

text \<open>Two producers, small directories, no topology: the systems on which concrete runs are evaluated.\<close>

definition sample_config :: "EvaluatorPolicy \<Rightarrow> RuntimeConfig" where
  "sample_config pol = default_config\<lparr>producer_threads := 2, cfg_hash_capacity := 8, evaluator_policy := pol\<rparr>"

definition no_topology :: NumaTopology where
  "no_topology = \<lparr>node_cpus = []\<rparr>"

definition sample_sys :: Sys where
  "sample_sys = \<lparr>sched_getcpu = - 1, setaffinity = (\<lambda>_. False), set_mempolicy = (\<lambda>_ _. False), elapsed_us = 0\<rparr>"

definition sample_run :: "EvaluatorPolicy \<Rightarrow> request list \<Rightarrow> (error + Impl) option" where
  "sample_run pol rs = run sample_sys rs (Impl_ctor 4096 no_topology (sample_config pol))"

definition sample_allowed :: "EvaluatorPolicy \<Rightarrow> request list \<Rightarrow> bool" where
  "sample_allowed pol rs \<longleftrightarrow> allowed_run pol (\<lambda>_. 0) 4096 2 {} {} rs \<and> sum_list (map cost rs) \<le> 8"

lemma sample_implements:
  assumes "sample_allowed pol rs"
  shows "\<exists>im H n. sample_run pol rs = Some (Inr im) \<and> config im = sample_config pol \<and>
    implements pol (\<lambda>_. 0) 4096 8 (spec rs) H n im"
  using start_run [of "sample_config pol" 4096 "\<lambda>_. 0" rs sample_sys no_topology] assms
  by (simp add: sample_run_def sample_allowed_def sample_config_def default_config_def)

end
