(* ===== verification/Range_Scan.thy ===== *)
theory Range_Scan
  imports Client
begin

text \<open>
  Range queries: \<^verbatim>\<open>page::linear_search_range\<close>, \<^verbatim>\<open>btree::btree_search_range\<close>
  (\<^verbatim>\<open>core/btree.h\<close>) and \<^verbatim>\<open>FutureBTree::scan_range\<close> (\<^verbatim>\<open>src/f3tree.cpp\<close>).  The buckets
  written to the caller's buffer are a list; a write past the end of the buffer has no result.  The
  scan of one page reports whether it returned from the whole query.
\<close>

section \<open>Model\<close>

text \<open>The first record is only compared with the null bucket, the others with their left neighbour.\<close>

definition range_first :: "entry list \<Rightarrow> int \<Rightarrow> int \<Rightarrow> int list \<Rightarrow> bool \<times> int list" where
  "range_first rs mn mx buf =
     (if ekey (slot rs 0) > mn
      then (if ekey (slot rs 0) < mx
            then (False, if eptr (slot rs 0) \<noteq> 0 then buf @ [eptr (slot rs 0)] else buf)
            else (True, buf))
      else (False, buf))"

function range_scan_forward :: "entry list \<Rightarrow> int \<Rightarrow> int \<Rightarrow> nat \<Rightarrow> int list \<Rightarrow> bool \<times> int list" where
  "range_scan_forward rs mn mx i buf =
     (if eptr (slot rs i) = 0 then (False, buf)
      else if ekey (slot rs i) > mn
      then (if ekey (slot rs i) < mx
            then range_scan_forward rs mn mx (i + 1)
                   (if eptr (slot rs i) \<noteq> eptr (slot rs (i - 1)) then buf @ [eptr (slot rs i)] else buf)
            else (True, buf))
      else range_scan_forward rs mn mx (i + 1) buf)"
  by pat_completeness auto
termination
  by (relation "measure (\<lambda>(rs, mn, mx, i, buf). length rs - i)")
    (auto simp: slot_def entry_ctor_def split: if_splits)

declare range_scan_forward.simps [simp del]

text \<open>The loop from \<open>i = n - 1\<close> down to 1.\<close>

fun range_scan_backward :: "entry list \<Rightarrow> int \<Rightarrow> int \<Rightarrow> nat \<Rightarrow> int list \<Rightarrow> bool \<times> int list" where
  "range_scan_backward rs mn mx 0 buf = (False, buf)"
| "range_scan_backward rs mn mx (Suc i) buf =
     (if ekey (slot rs (Suc i)) > mn
      then (if ekey (slot rs (Suc i)) < mx
            then range_scan_backward rs mn mx i
                   (if eptr (slot rs (Suc i)) \<noteq> eptr (slot rs i) \<and> eptr (slot rs (Suc i)) \<noteq> 0
                    then buf @ [eptr (slot rs (Suc i))] else buf)
            else (True, buf))
      else range_scan_backward rs mn mx i buf)"

text \<open>The scan of the page \<open>p\<close>; \<open>n\<close> is \<^verbatim>\<open>this->count()\<close>, the count of the page the query
  started at.\<close>

definition range_page :: "nat \<Rightarrow> page \<Rightarrow> int \<Rightarrow> int \<Rightarrow> int list \<Rightarrow> bool \<times> int list" where
  "range_page n p mn mx buf =
     (let rs = records p in
      if IS_FORWARD (switch_counter p)
      then (case range_first rs mn mx buf of
              (ret, b) \<Rightarrow> if ret then (True, b) else range_scan_forward rs mn mx 1 b)
      else (case range_scan_backward rs mn mx (n - 1) buf of
              (ret, b) \<Rightarrow> if ret then (True, b) else range_first rs mn mx b))"

partial_function (option) range_walk :: "heap \<Rightarrow> nat \<Rightarrow> int \<Rightarrow> int \<Rightarrow> int \<Rightarrow> int list \<Rightarrow> int list option" where
  "range_walk h n mn mx cur buf =
     (if cur = 0 then Some buf
      else do { p \<leftarrow> h cur;
                (case range_page n p mn mx buf of
                   (ret, b) \<Rightarrow> if ret then Some b else range_walk h n mn mx (sibling_ptr p) b) })"

definition linear_search_range :: "heap \<Rightarrow> int \<Rightarrow> int \<Rightarrow> int \<Rightarrow> int list option" where
  "linear_search_range h this mn mx = do { p \<leftarrow> h this; range_walk h (count p) mn mx this [] }"

partial_function (option) range_descend :: "heap \<Rightarrow> int \<Rightarrow> int \<Rightarrow> int \<Rightarrow> int list option" where
  "range_descend h a mn mx =
     (if a = 0 then Some []
      else do { p \<leftarrow> h a;
                (if leftmost_ptr p \<noteq> 0
                 then do { c \<leftarrow> linear_search h p mn; range_descend h c mn mx }
                 else linear_search_range h a mn mx) })"

declare range_walk.simps [code] range_descend.simps [code]

definition btree_search_range :: "tree_state \<Rightarrow> int \<Rightarrow> int \<Rightarrow> int list option" where
  "btree_search_range t mn mx = range_descend (pages t) (root t) mn mx"

text \<open>The result is the number found and the vector \<^verbatim>\<open>out\<close>; a count that is not positive leaves
  \<^verbatim>\<open>out\<close> as it was.\<close>

definition scan_range :: "Sys \<Rightarrow> int \<Rightarrow> int \<Rightarrow> int list \<Rightarrow> Impl \<Rightarrow> (nat \<times> int list \<times> Impl) option" where
  "scan_range sys start cnt out im =
     do { im1 \<leftarrow> drain_locked sys im;
          if cnt \<le> 0 then Some (0, out, im1)
          else do { written \<leftarrow> btree_search_range (bt_tree (tree im1)) start (start + cnt);
                    if length written > nat cnt then None
                    else (let buf = written @ replicate (nat cnt - length written) 0;
                              found = filter (\<lambda>i. buf ! i \<noteq> 0) [0..<nat cnt]
                          in Some (length found, map (\<lambda>i. start + int i) found, im1)) } }"

section \<open>Scanning a leaf\<close>

definition within :: "int \<Rightarrow> int \<Rightarrow> int \<Rightarrow> bool" where
  "within mn mx k \<longleftrightarrow> mn < k \<and> k < mx"

lemma sorted_beyond:
  "sorted (k # ks) \<Longrightarrow> mx \<le> k \<Longrightarrow> filter (within mn mx) ks = []"
  by (auto simp: filter_empty_conv within_def)

text \<open>The keys of the live cells from index \<open>i\<close> on.\<close>

lemma range_forward_spec:
  assumes inv: "page_inv p" and lc: "leaf_cells (live p)" and so: "csorted (live p)" and di: "distinct (map fst (live p))"
    and i: "1 \<le> i" "i \<le> length (live p)"
  shows "range_scan_forward (records p) mn mx i buf =
    (\<exists>k \<in> set (map fst (drop i (live p))). mn < k \<and> mx \<le> k, buf @ filter (within mn mx) (map fst (drop i (live p))))"
  using i
proof (induction "length (live p) - i" arbitrary: i buf)
  case 0
  then have "i = length (live p)" by simp
  then have "eptr (slot (records p) i) = 0" using inv by (simp add: page_inv_def length_live)
  then show ?case using 0 by (simp add: range_scan_forward.simps [of _ _ _ i])
next
  case (Suc d)
  then have lt: "i < length (live p)" by simp
  have dr: "drop i (live p) = live p ! i # drop (Suc i) (live p)" using lt by (simp add: Cons_nth_drop_Suc)
  have k: "fst (live p ! i) = ekey (records p ! i)" using live_nth [OF inv lt] by simp
  note rec = leaf_cells_records [OF inv lc lt] leaf_cells_records [OF inv lc, of "i - 1"]
  have ne: "ekey (records p ! i) \<noteq> ekey (records p ! (i - 1))"
  proof -
    have "i - 1 < length (map fst (live p))" "i < length (map fst (live p))" "i \<noteq> i - 1" using lt Suc.prems(1) by auto
    then have "map fst (live p) ! i \<noteq> map fst (live p) ! (i - 1)" using nth_eq_iff_index_eq [OF di] by blast
    then show ?thesis using lt live_nth [OF inv lt] live_nth [OF inv, of "i - 1"] by simp
  qed
  have srt: "sorted (map fst (drop i (live p)))" using so by (simp add: csorted_def drop_map [symmetric])
  have IH: "range_scan_forward (records p) mn mx (Suc i) b =
      (\<exists>k \<in> set (map fst (drop (Suc i) (live p))). mn < k \<and> mx \<le> k,
       b @ filter (within mn mx) (map fst (drop (Suc i) (live p))))" for b
    using Suc lt by (intro Suc.hyps(1)) auto
  let ?k = "ekey (records p ! i)"
  consider "?k \<le> mn" | "mn < ?k" "?k < mx" | "mn < ?k" "mx \<le> ?k" by linarith
  then show ?case
  proof cases
    case 1
    then show ?thesis using rec k IH by (subst range_scan_forward.simps) (simp add: dr within_def)
  next
    case 2
    then show ?thesis using rec k IH ne lt by (subst range_scan_forward.simps) (simp add: dr within_def)
  next
    case 3
    then have "filter (within mn mx) (map fst (drop (Suc i) (live p))) = []"
      using sorted_beyond [of ?k "map fst (drop (Suc i) (live p))" mx mn] srt dr k by simp
    then show ?thesis using 3 rec k by (subst range_scan_forward.simps) (simp add: dr within_def)
  qed
qed

lemma range_page_spec:
  assumes inv: "page_inv p" and lc: "leaf_cells (live p)" and so: "csorted (live p)" and di: "distinct (map fst (live p))"
    and ne: "live p \<noteq> []" and fw: "IS_FORWARD (switch_counter p)"
  shows "range_page n p mn mx buf =
    (\<exists>k \<in> fst ` set (live p). mn < k \<and> mx \<le> k, buf @ filter (within mn mx) (map fst (live p)))"
proof -
  have l: "0 < length (live p)" using ne by simp
  have dr: "live p = live p ! 0 # drop 1 (live p)" using l by (metis Cons_nth_drop_Suc One_nat_def drop0)
  have k: "fst (live p ! 0) = ekey (records p ! 0)" using live_nth [OF inv l] by simp
  note rec = leaf_cells_records [OF inv lc l]
  have srt: "sorted (map fst (live p ! 0 # drop 1 (live p)))" using so dr by (simp add: csorted_def)
  have fwd: "range_scan_forward (records p) mn mx 1 b =
      (\<exists>k \<in> set (map fst (drop 1 (live p))). mn < k \<and> mx \<le> k, b @ filter (within mn mx) (map fst (drop 1 (live p))))" for b
    using l by (intro range_forward_spec [OF inv lc so di]) (simp_all add: Suc_le_eq)
  let ?k = "ekey (records p ! 0)"
  have set: "fst ` set (live p) = insert ?k (fst ` set (drop 1 (live p)))" using k by (subst dr) simp
  have fil: "filter (within mn mx) (map fst (live p)) =
      (if within mn mx ?k then [?k] else []) @ filter (within mn mx) (map fst (drop 1 (live p)))"
    using k by (subst dr) simp
  consider "?k \<le> mn" | "mn < ?k" "?k < mx" | "mn < ?k" "mx \<le> ?k" by linarith
  then show ?thesis
  proof cases
    case 3
    then have "filter (within mn mx) (map fst (drop 1 (live p))) = []"
      using sorted_beyond [of ?k "map fst (drop 1 (live p))" mx mn] srt k by simp
    then show ?thesis unfolding set fil using 3 rec fw by (auto simp: range_page_def range_first_def Let_def within_def)
  qed (unfold set fil, use rec fw fwd in \<open>auto simp: range_page_def range_first_def Let_def within_def\<close>)
qed

section \<open>Scanning the leaves\<close>

text \<open>No leaf is empty or was last changed by a delete.\<close>

definition scan_ready :: "heap \<Rightarrow> cell list \<Rightarrow> bool" where
  "scan_ready h L \<longleftrightarrow>
     list_all (\<lambda>c. case h (snd c) of None \<Rightarrow> True | Some p \<Rightarrow> IS_FORWARD (switch_counter p) \<and> live p \<noteq> []) L"

lemma range_walk_chain:
  assumes "chain_ok h b 0 L hi 0" "scan_ready h L" "distinct (map fst (content h L))"
  shows "range_walk h n mn mx (hd_adr L 0) buf = Some (buf @ filter (within mn mx) (map fst (content h L)))"
  using assms
proof (induction L arbitrary: buf)
  case Nil
  then show ?case by (simp add: range_walk.simps)
next
  case (Cons c L)
  have n: "node_ok h b 0 (fst c) (snd c) (hd_key L hi) (hd_adr L 0)" and ch: "chain_ok h b 0 L hi 0"
    using Cons.prems(1) by auto
  then obtain p where p: "h (snd c) = Some p" "snd c \<noteq> 0" "page_ok b 0 (fst c) (hd_key L hi) (hd_adr L 0) p"
    by (auto simp: node_ok_def)
  have ok: "page_inv p" "leaf_cells (live p)" "csorted (live p)" "leftmost_ptr p = 0" "sibling_ptr p = hd_adr L 0"
    "\<forall>d \<in> set (live p). fst d \<le> hd_key L hi"
    using p(3) by (auto simp: page_ok_def)
  have rdy: "IS_FORWARD (switch_counter p)" "live p \<noteq> []" "scan_ready h L" using Cons.prems(2) p(1) by (auto simp: scan_ready_def)
  have pc: "page_cells h c = live p" using p(1) ok(4) by (simp add: page_cells_def node_cells_def)
  have di: "distinct (map fst (live p))" "distinct (map fst (content h L))" using Cons.prems(3) pc by auto
  note rp = range_page_spec [OF ok(1-3) di(1) rdy(2,1), of n mn mx buf]
  show ?case
  proof (cases "\<exists>k \<in> fst ` set (live p). mn < k \<and> mx \<le> k")
    case True
    then obtain d where d: "d \<in> set (live p)" "mx \<le> fst d" by auto
    have "mx \<le> fst e" if "e \<in> set (content h L)" for e
      using chain_ok_content(2) [OF ch] that ok(6) d by fastforce
    then have "filter (within mn mx) (map fst (content h L)) = []" by (force simp: filter_empty_conv within_def)
    moreover have "range_page n p mn mx buf = (True, buf @ filter (within mn mx) (map fst (live p)))"
      unfolding rp using True by simp
    ultimately show ?thesis using p(1,2) pc by (subst range_walk.simps) simp
  next
    case False
    then have "range_page n p mn mx buf = (False, buf @ filter (within mn mx) (map fst (live p)))" using rp by simp
    then show ?thesis using p(1,2) pc ok(5) Cons.IH [OF ch rdy(3) di(2)] by (subst range_walk.simps) simp
  qed
qed

lemma range_descend_leaf:
  assumes "find_leaf h r k = Some a" "h 0 = None"
  shows "range_descend h r k mx = linear_search_range h a k mx"
proof -
  have "h' = h \<longrightarrow> range_descend h' r k' mx = linear_search_range h' a k' mx" if "find_leaf h' r k' = Some a" for h' k'
    using that
  proof (rule find_leaf.raw_induct [where P = "\<lambda>h' r k' a. h' = h \<longrightarrow> range_descend h' r k' mx = linear_search_range h' a k' mx", rotated])
    fix f h' r k' a
    assume IH: "\<And>h' r k' a. f h' r k' = Some a \<Longrightarrow> h' = h \<longrightarrow> range_descend h' r k' mx = linear_search_range h' a k' mx"
      and eq: "do { p \<leftarrow> h' r; if leftmost_ptr p = 0 then Some r
        else do { c \<leftarrow> linear_search h' p k'; f h' c k' } } = Some a"
    show "h' = h \<longrightarrow> range_descend h' r k' mx = linear_search_range h' a k' mx"
    proof
      assume h: "h' = h"
      obtain p where p: "h r = Some p" using eq h by (auto simp: bind_eq_Some_conv)
      then have "r \<noteq> 0" using assms(2) by auto
      then have step: "range_descend h r k' mx =
          (if leftmost_ptr p \<noteq> 0 then do { c \<leftarrow> linear_search h p k'; range_descend h c k' mx } else linear_search_range h r k' mx)"
        using p by (subst range_descend.simps) simp
      show "range_descend h' r k' mx = linear_search_range h' a k' mx"
      proof (cases "leftmost_ptr p = 0")
        case True
        then show ?thesis using eq p h step by simp
      next
        case False
        then obtain c where "linear_search h p k' = Some c" "f h c k' = Some a" using eq p h by (auto simp: bind_eq_Some_conv)
        then show ?thesis using step IH h False by simp
      qed
    qed
  qed
  then show ?thesis using assms(1) by blast
qed

lemma search_range_ok:
  assumes ok: "tree_ok base b t" and u: "uniq t" and k: "LONG_MIN \<le> mn" "mn < 2 ^ 63"
    and rdy: "scan_ready (pages t) (leaf_chain t)"
  shows "btree_search_range t mn mx = Some (filter (within mn mx) (map fst (tree_cells t)))"
proof (rule tree_leaf [OF ok k])
  fix us f a vs p
  assume L: "leaf_chain t = us @ (f, a) # vs" and fl: "find_leaf (pages t) (root t) mn = Some a"
    and p: "pages t a = Some p" and fk: "f \<le> mn"
  have "chain_ok (pages t) b 0 (us @ (f, a) # vs) (2 ^ 63) 0" using tree_okE [OF ok] ups_bottom(4) L(1) by metis
  moreover have "pages t 0 = None" using ok by (cases "pages t 0") (force simp: tree_ok_def heap_ok_def)+
  ultimately have ch: "chain_ok (pages t) b 0 (us @ (f, a) # vs) (2 ^ 63) 0" "pages t 0 = None" by blast+
  then have us: "chain_ok (pages t) b 0 us f a" and vs: "chain_ok (pages t) b 0 ((f, a) # vs) (2 ^ 63) 0"
    by (auto simp: chain_ok_append)
  have "\<forall>c \<in> set (content (pages t) us). fst c \<le> mn" using chain_ok_content(2) [OF us] fk by (meson order_trans)
  then have none: "filter (within mn mx) (map fst (content (pages t) us)) = []"
    by (force simp: filter_empty_conv within_def)
  have sub: "scan_ready (pages t) ((f, a) # vs)" "distinct (map fst (content (pages t) ((f, a) # vs)))"
    using rdy u unfolding uniq_def tree_cells_def scan_ready_def L by auto
  show ?thesis
    using range_descend_leaf [OF fl ch(2)] p none range_walk_chain [OF vs sub, of "count p" mn mx "[]"] L
    by (simp add: btree_search_range_def linear_search_range_def tree_cells_def)
qed

section \<open>The scan of the future tree\<close>

lemma within_length:
  assumes "distinct ks" "0 < cnt"
  shows "length (filter (within mn (mn + cnt)) ks) < nat cnt"
proof -
  have "length (filter (within mn (mn + cnt)) ks) = card (set (filter (within mn (mn + cnt)) ks))"
    using distinct_card [OF distinct_filter [OF assms(1)]] by metis
  also have "\<dots> \<le> card {mn <..< mn + cnt}" by (intro card_mono) (auto simp: within_def)
  also have "\<dots> < nat cnt" using assms(2) by simp
  finally show ?thesis .
qed

lemma padded_positions:
  assumes "\<forall>x \<in> set ws. x \<noteq> 0" "length ws \<le> n"
  shows "filter (\<lambda>i. (ws @ replicate (n - length ws) 0) ! i \<noteq> (0::int)) [0..<n] = [0..<length ws]"
proof -
  have "[0..<n] = [0..<length ws] @ [length ws..<n]" using assms(2) upt_add_eq_append [of 0 "length ws" "n - length ws"] by simp
  moreover have "filter (\<lambda>i. (ws @ replicate (n - length ws) 0) ! i \<noteq> (0::int)) [0..<length ws] = [0..<length ws]"
    using assms(1) by (auto simp: filter_id_conv nth_append)
  moreover have "filter (\<lambda>i. (ws @ replicate (n - length ws) 0) ! i \<noteq> (0::int)) [length ws..<n] = []"
    by (auto simp: filter_empty_conv nth_append)
  ultimately show ?thesis by simp
qed

lemma chain_content_leaf:
  "chain_ok h b 0 L hi sib \<Longrightarrow> c \<in> set (content h L) \<Longrightarrow> fst c \<noteq> 0"
proof (induction L)
  case (Cons d L)
  then obtain p where "h (snd d) = Some p" "leaf_cells (live p)" "leftmost_ptr p = 0"
    by (auto simp: node_ok_def page_ok_def)
  then show ?case using Cons by (auto simp: page_cells_def node_cells_def leaf_cells_def)
qed simp

lemma tree_cells_nonzero:
  assumes "tree_ok base b t" "c \<in> set (tree_cells t)"
  shows "fst c \<noteq> 0"
proof -
  have "chain_ok (pages t) b 0 (leaf_chain t) (2 ^ 63) 0" using tree_okE [OF assms(1)] ups_bottom(4) by metis
  then show ?thesis using chain_content_leaf assms(2) by (simp add: tree_cells_def)
qed

lemma within_set:
  assumes "uniq_tree base t" "LONG_MIN \<le> mn" "mx \<le> 2 ^ 63"
  shows "set (filter (within mn mx) (map fst (tree_cells t))) = {k \<in> key_set t. mn < k \<and> k < mx}"
proof -
  have "k \<in> key_set t \<longleftrightarrow> k \<in> fst ` set (tree_cells t)" if "mn < k" "k < mx" for k
    using key_set_cells [of base t k] that assms by (simp add: uniq_tree_def)
  then show ?thesis by (auto simp: within_def)
qed

lemma within_card:
  assumes "uniq_tree base t" "LONG_MIN \<le> mn" "mx \<le> 2 ^ 63"
  shows "length (filter (within mn mx) (map fst (tree_cells t))) = card {k \<in> key_set t. mn < k \<and> k < mx}"
proof -
  have di: "distinct (map fst (tree_cells t))" using assms(1) by (auto simp: uniq_tree_def uniq_def)
  have "{k \<in> key_set t. mn < k \<and> k < mx} = set (filter (within mn mx) (map fst (tree_cells t)))"
    using within_set [OF assms] by simp
  then show ?thesis using distinct_card [OF distinct_filter [OF di]] by metis
qed

text \<open>A leaf read from right to left ends the whole query at its first key that is too large.\<close>

lemma range_page_backward:
  assumes "\<not> IS_FORWARD (switch_counter p)" "2 \<le> n" "mn < ekey (slot (records p) (n - 1))"
    "mx \<le> ekey (slot (records p) (n - 1))"
  shows "range_page n p mn mx buf = (True, buf)"
proof -
  obtain m where "n - 1 = Suc m" using assms(2) by (cases "n - 1") auto
  then show ?thesis using assms by (simp add: range_page_def Let_def)
qed

section \<open>A sample tree\<close>

text \<open>The tree of a sample run in which two leaves hold the keys 2 to 29.\<close>

definition scan_sample :: "(error + Impl) option" where
  "scan_sample = sample_run kF3N (map Warmup [2..29])"

lemma scan_sample_check:
  "(case scan_sample of Some (Inr im) \<Rightarrow>
      pending_operation_count im = 0 \<and> scan_ready (pages (bt_tree (tree im))) (leaf_chain (bt_tree (tree im))) | _ \<Rightarrow> False)"
  by code_simp

lemma scan_sample_ok:
  obtains im :: Impl where "scan_sample = Some (Inr im)" "uniq_tree 4096 (bt_tree (tree im))"
    "scan_ready (pages (bt_tree (tree im))) (leaf_chain (bt_tree (tree im)))" "drain_locked sample_sys im = Some im"
proof -
  have "sample_allowed kF3N (map Warmup [2..29])" by code_simp
  then obtain im H n where im: "scan_sample = Some (Inr im)"
    "implements kF3N (\<lambda>_. 0) 4096 8 (spec (map Warmup [2..29])) H n im"
    unfolding scan_sample_def using sample_implements by blast
  from im(2) have u: "uniq_tree 4096 (bt_tree (tree im))" by (simp add: implements_def)
  have "pending_operation_count im = 0" "scan_ready (pages (bt_tree (tree im))) (leaf_chain (bt_tree (tree im)))"
    using scan_sample_check unfolding im(1) by simp_all
  then show thesis using that [OF im(1) u] by (simp add: drain_locked_def)
qed

section \<open>Properties of range queries\<close>



text \<open>\<^verbatim>\<open>scan_range\<close> counts the stored keys strictly between \<^verbatim>\<open>start\<close> and \<^verbatim>\<open>start + count\<close>, so that
  \<^verbatim>\<open>start\<close> itself is never counted, and whatever these keys are, the vector it fills holds the
  consecutive numbers from \<^verbatim>\<open>start\<close> on; its buffer is never overrun.\<close>

theorem scan_range_positions:
  assumes "drain_locked sys im = Some im'" "uniq_tree base (bt_tree (tree im'))"
    "scan_ready (pages (bt_tree (tree im'))) (leaf_chain (bt_tree (tree im')))"
    "LONG_MIN \<le> start" "0 < cnt" "start + cnt \<le> 2 ^ 63"
  shows "\<exists>n. n = card {k \<in> key_set (bt_tree (tree im')). start < k \<and> k < start + cnt} \<and>
    scan_range sys start cnt out im = Some (n, map (\<lambda>i. start + int i) [0..<n], im')"
proof -
  let ?t = "bt_tree (tree im')" let ?ws = "filter (within start (start + cnt)) (map fst (tree_cells ?t))"
  have di: "distinct (map fst (tree_cells ?t))" and ok: "tree_ok base 0 ?t" "uniq ?t"
    using assms(2) by (auto simp: uniq_tree_def uniq_def)
  have rng: "start < 2 ^ 63" using assms(5,6) by linarith
  have q: "btree_search_range ?t start (start + cnt) = Some ?ws"
    by (rule search_range_ok [OF ok assms(4) rng assms(3)])
  have len: "length ?ws < nat cnt" by (rule within_length [OF di assms(5)])
  have nz: "\<forall>x \<in> set ?ws. x \<noteq> 0" using tree_cells_nonzero [OF ok(1)] by auto
  have pos: "filter (\<lambda>i. (?ws @ replicate (nat cnt - length ?ws) 0) ! i \<noteq> 0) [0..<nat cnt] = [0..<length ?ws]"
    by (rule padded_positions [OF nz less_imp_le [OF len]])
  have "scan_range sys start cnt out im = Some (length ?ws, map (\<lambda>i. start + int i) [0..<length ?ws], im')"
    unfolding scan_range_def assms(1) using q pos len assms(5) by (simp add: Let_def)
  then show ?thesis using within_card [OF assms(2,4,6)] by metis
qed

theorem scan_range_positions_witness:
  "\<exists>im n. scan_sample = Some (Inr im) \<and> n = card {k \<in> key_set (bt_tree (tree im)). 5 < k \<and> k < 5 + 4} \<and>
     scan_range sample_sys 5 4 [] im = Some (n, map (\<lambda>i. 5 + int i) [0..<n], im)"
proof -
  obtain im :: Impl where im: "scan_sample = Some (Inr im)" "uniq_tree 4096 (bt_tree (tree im))"
    "scan_ready (pages (bt_tree (tree im))) (leaf_chain (bt_tree (tree im)))" "drain_locked sample_sys im = Some im"
    by (rule scan_sample_ok)
  have "LONG_MIN \<le> 5" "(0::int) < 4" "(5::int) + 4 \<le> 2 ^ 63" by (simp_all add: LONG_MIN_def)
  from scan_range_positions [OF im(4,2,3) this] show ?thesis using im(1) by blast
qed

text \<open>A delete leaves its leaf in the direction in which a range query reads from the right and
  gives up at the first key that is too large: after the insertion of 1 to 5 and the deletion of 3, the
  query for the keys strictly between 1 and 4 finds nothing, although 2 is stored.\<close>

theorem range_query_misses_after_delete:
  "(do { t \<leftarrow> index_replay btree_search tree_insert tree_delete (tree_ctor 4096) (insert_ops [1..5]);
         t' \<leftarrow> tree_delete t 3;
         before \<leftarrow> btree_search_range t 1 4; after \<leftarrow> btree_search_range t' 1 4; r \<leftarrow> btree_search t' 2;
         Some (before, after, r) }) = Some ([2, 3], [], 2)"
  by code_simp

end
