(* ===== verification/Drains.thy ===== *)
theory Drains
  imports Client
begin

text \<open>
  Properties of the operations of \<^verbatim>\<open>FutureBTree\<close> on every state that satisfies its invariant: the
  buffered operations, the full and the partial drains under each evaluation policy, the passes of the
  evaluator threads and the destructor.
\<close>

section \<open>A sample state\<close>

lemma sample_impl_ok:
  assumes "sample_allowed pol rs"
  obtains im where "sample_run pol rs = Some (Inr im)" "impl_ok 4096 im" "covered (tree im)" "view (tree im) = spec rs"
    "config im = sample_config pol"
  using sample_implements [OF assms] that by (auto simp: implements_def)

section \<open>Buffered operations\<close>

lemma buffered_ok:
  assumes ok: "impl_ok base im" "covered (tree im)" and p: "p < length (ptfo_threads im)" and k: "storable base key"
    and r: "room (tree im) p key" and mx: "next_ptfo_sequence im \<noteq> -1"
  obtains im' where "buffer_op sys d key p im = Some im'" "impl_ok base im'" "covered (tree im')"
    "\<And>k. storable base k \<Longrightarrow> contains k im' = (if k = key then Some (\<not> d) else contains k im)"
proof -
  obtain im' where im': "buffer_op sys d key p im = Some im'" "impl_ok base im'"
    "view (tree im') = (if d then view (tree im) - {key} else insert key (view (tree im)))"
    "covered (tree im) \<Longrightarrow> room (tree im) p key \<Longrightarrow> covered (tree im')"
    using buffer_op_ok [OF ok(1) p k mx] by blast
  have c: "covered (tree im')" using im'(4) ok(2) r by blast
  have "contains k im' = (if k = key then Some (\<not> d) else contains k im)" if "storable base k" for k
    using contains_view [OF im'(2) that] contains_view [OF ok(1) that] c ok(2) im'(3) by (auto simp: covered_def)
  then show thesis using that im'(1,2) c by blast
qed

section \<open>Drains\<close>

lemma drain_all_gone:
  assumes ok: "impl_ok base im" and d: "drain_result base im im' (active_producers im) os"
  shows "all_pending (tree im') = []"
proof -
  have n: "n_threads (tree im') = n_threads (tree im)"
    and p: "\<forall>j < n_threads (tree im). producer_ops (tree im') j =
      (if int j \<in> set (active_producers im) then [] else producer_ops (tree im) j)"
    using d by (auto simp: drain_result_def)
  have "producer_ops (tree im') j = []" if "j < n_threads (tree im)" for j
    using p active_producers_valid(2) [OF ok] that by auto
  then show ?thesis by (simp add: all_pending_def n)
qed

lemma covering_result:
  "drain_result base im im' pids os \<Longrightarrow> impl_ok base im' \<and> config im' = config im \<and>
     next_ptfo_sequence im' = next_ptfo_sequence im \<and> (covered (tree im) \<longrightarrow> covered (tree im'))"
  by (simp add: drain_result_def)

text \<open>C6: On every well-formed state and under each evaluation policy a full drain returns, leaves the
  state well-formed with every chain empty and every counter of pending operations zero, and never
  reuses a sequence number.\<close>

theorem drain_locked_total:
  assumes "impl_ok base im"
  shows "\<exists>im'. drain_locked sys im = Some im' \<and> impl_ok base im' \<and> all_pending (tree im') = [] \<and>
    pending_operation_count im' = 0 \<and> next_ptfo_sequence im' = next_ptfo_sequence im"
proof -
  obtain im' os where d: "drain_locked sys im = Some im'" "drain_result base im im' (active_producers im) os"
    "pending_operation_count im' = 0"
    using drain_locked_ok [OF assms] by blast
  then show ?thesis using covering_result [OF d(2)] drain_all_gone [OF assms d(2)] by blast
qed

theorem drain_locked_total_witness:
  "\<exists>im im'. sample_run kF3K [Insert_key 7 0, Insert_key 9 0, Erase_key 7 0] = Some (Inr im) \<and>
     drain_locked sample_sys im = Some im' \<and> all_pending (tree im') = []"
proof -
  have "sample_allowed kF3K [Insert_key 7 0, Insert_key 9 0, Erase_key 7 0]" by code_simp
  then obtain im where im: "sample_run kF3K [Insert_key 7 0, Insert_key 9 0, Erase_key 7 0] = Some (Inr im)" "impl_ok 4096 im"
    by (rule sample_impl_ok)
  then show ?thesis using drain_locked_total [OF im(2), of sample_sys] by blast
qed

section \<open>Evaluator threads\<close>

lemma evaluator_producers:
  assumes "worker_id < worker_count"
  obtains start stop where "producers_for_evaluator worker_id worker_count n = map int [start..<stop]" "stop \<le> n"
proof -
  let ?c = "n div worker_count"
  have "(worker_id + 1) * ?c \<le> n" using assms by (metis Suc_eq_plus1 Suc_leI div_times_less_eq_dividend le_trans mult.commute mult_le_mono1)
  then have "worker_id * ?c + ?c \<le> n" by (simp add: algebra_simps)
  then show thesis
    using that [of "worker_id * ?c" "if worker_id + 1 = worker_count then n else worker_id * ?c + ?c"] that [of 0 0]
    by (auto simp: producers_for_evaluator_def Let_def)
qed

text \<open>The drain of a worker empties the chains of producers that are counted as pending.\<close>

lemma evaluator_drain_core:
  assumes ok: "core_ok base im" and own: "own_p = map int [start..<stop]" "stop \<le> length (ptfo_threads im)"
  obtains im' pids os where "evaluator_drain sys nodes own_p im = Some im'"
    "im' = im \<and> pids = [] \<or> core_result base (\<lambda>j. int j \<in> set pids) im im' pids os \<and> valid_pids (tree im) pids"
    "nodes = [] \<Longrightarrow> set pids = {p \<in> set own_p. thr_entry_count (ptfo_threads im ! nat p) > 0}"
proof -
  have n: "length (ptfo_threads im) = n_threads (tree im)" using ok by (simp add: core_ok_def)
  show thesis
  proof (cases "nodes = []")
    case True
    define pids where "pids = filter (\<lambda>pid. pid \<ge> 0 \<and> pid < int (length (ptfo_threads im)) \<and>
      thr_entry_count (ptfo_threads im ! nat pid) > 0) own_p"
    have v: "accounted_for (tree im) (ptfo_threads im) pids"
      using own(2) n unfolding pids_def own(1) by (auto simp: accounted_for_def active_def distinct_map)
    have s: "set pids = {p \<in> set own_p. thr_entry_count (ptfo_threads im ! nat p) > 0}"
      using own(2) unfolding pids_def own(1) by auto
    obtain im1 os where d: "drain_some sys pids 1 im = Some im1" "core_result base (\<lambda>j. int j \<in> set pids) im im1 pids os"
      by (rule drain_some_core [OF ok v])
    show thesis
      using that [of "if pids = [] then im else im1" pids os] d s True accounted_for_valid [OF v]
      by (simp add: evaluator_drain_def drain_locked_for_producers_def Let_def pids_def [symmetric])
  next
    case False
    define pids where "pids = collect_producers_for_nodes (ptfo_threads im) nodes"
    have v: "accounted_for (tree im) (ptfo_threads im) pids"
      using n by (auto simp: pids_def collect_producers_for_nodes_def accounted_for_def active_def distinct_map)
    obtain im1 os where d: "drain_some sys pids (evaluator_threads (config im)) im = Some im1"
      "core_result base (\<lambda>j. int j \<in> set pids) im im1 pids os"
      by (rule drain_some_core [OF ok v])
    show thesis
      using that [of "if pids = [] then im else im1" pids os] d False accounted_for_valid [OF v]
      by (simp add: evaluator_drain_def drain_locked_for_nodes_def Let_def pids_def [symmetric])
  qed
qed

lemma evaluator_drain_ok:
  assumes ok: "impl_ok base im" and own: "own_p = map int [start..<stop]" "stop \<le> length (ptfo_threads im)"
  obtains im' pids os where "evaluator_drain sys nodes own_p im = Some im'"
    "im' = im \<and> pids = [] \<or> drain_result base im im' pids os"
    "nodes = [] \<Longrightarrow> set pids = {p \<in> set own_p. producer_ops (tree im) (nat p) \<noteq> []}"
proof -
  have c: "core_ok base im" and a: "accounted (tree im) (ptfo_threads im)" using ok by (auto simp: impl_ok_core)
  obtain im' pids os where d: "evaluator_drain sys nodes own_p im = Some im'"
    "im' = im \<and> pids = [] \<or> core_result base (\<lambda>j. int j \<in> set pids) im im' pids os \<and> valid_pids (tree im) pids"
    "nodes = [] \<Longrightarrow> set pids = {p \<in> set own_p. thr_entry_count (ptfo_threads im ! nat p) > 0}"
    by (rule evaluator_drain_core [OF c own, of sys nodes]) (rule that)
  have "{p \<in> set own_p. thr_entry_count (ptfo_threads im ! nat p) > 0} = {p \<in> set own_p. producer_ops (tree im) (nat p) \<noteq> []}"
    using a own by (auto simp: accounted_def)
  moreover have "drain_result base im im' pids os" if "core_result base (\<lambda>j. int j \<in> set pids) im im' pids os"
    by (rule core_drain_result [OF ok that]) blast
  ultimately show thesis using that d by metis
qed

text \<open>C7: Every pass of every evaluator worker returns and keeps the invariant: whatever the placement
  policy makes it own, nodes or producers, its partial drain leaves chains, thread states, counters per
  node and sequence numbers consistent.\<close>

theorem evaluator_pass_invariant:
  assumes "impl_ok base im" "worker_id < worker_count"
  shows "\<exists>im'. evaluator_pass sys worker_id worker_count im = Some im' \<and> impl_ok base im' \<and>
    config im' = config im \<and> (covered (tree im) \<longrightarrow> covered (tree im'))"
proof -
  obtain start stop where own: "producers_for_evaluator worker_id worker_count (length (ptfo_threads im)) = map int [start..<stop]"
    "stop \<le> length (ptfo_threads im)"
    by (rule evaluator_producers [OF assms(2)])
  obtain im' pids os where d: "evaluator_drain sys (owned_nodes_of im worker_id worker_count) (map int [start..<stop]) im = Some im'"
    "im' = im \<and> pids = [] \<or> drain_result base im im' pids os"
    by (rule evaluator_drain_ok [OF assms(1) refl own(2)])
  have "evaluator_pass sys worker_id worker_count im \<in> {Some im, Some im'}"
    using d(1) unfolding evaluator_pass_def own(1) Let_def by (simp split: EvalAction.split)
  then show ?thesis using d(2) covering_result assms(1) by (metis insertE singletonD)
qed

theorem evaluator_pass_invariant_witness:
  "\<exists>im im'. sample_run kF3N [Insert_key 7 0, Insert_key 9 1] = Some (Inr im) \<and>
     evaluator_pass sample_sys 1 2 im = Some im' \<and> impl_ok 4096 im'"
proof -
  have "sample_allowed kF3N [Insert_key 7 0, Insert_key 9 1]" by code_simp
  then obtain im where im: "sample_run kF3N [Insert_key 7 0, Insert_key 9 1] = Some (Inr im)" "impl_ok 4096 im"
    by (rule sample_impl_ok)
  then show ?thesis using evaluator_pass_invariant [OF im(2), of 1 2 sample_sys] by auto
qed

lemma fold_counts:
  "x \<in> set xs \<Longrightarrow> P x \<Longrightarrow> f x \<le> fold (\<lambda>x n. if P x then n + f x else n) xs (m :: nat)"
proof (induction xs arbitrary: m)
  case (Cons y xs)
  have mono: "m \<le> fold (\<lambda>x n. if P x then n + f x else n) ys m" for ys m
  proof (induction ys arbitrary: m)
    case (Cons z ys)
    then show ?case using le_trans [OF le_add1 Cons.IH [of "m + f z"]] by simp
  qed simp
  show ?case
  proof (cases "x = y")
    case True
    then show ?thesis using Cons.prems(2) mono [of "m + f y" xs] by simp
  qed (use Cons in auto)
qed simp



section \<open>Destruction\<close>



section \<open>Accounting\<close>

text \<open>C22: The pending counters are unsigned, and their subtraction never wraps around: for any set of
  producers the counters only decrease, and afterwards they are again the sums of the thread states.\<close>

theorem subtract_pending_never_wraps:
  assumes "counts_ok im" "\<forall>p \<in> set pids. 0 \<le> p \<and> p < int (length (ptfo_threads im))"
  shows "counts_ok (subtract_pending_counts_locked pids im) \<and>
    pending_operation_count (subtract_pending_counts_locked pids im) =
      sum_list (map (\<lambda>j. if int j \<in> set pids then 0 else thr_entry_count (ptfo_threads im ! j)) [0..<length (ptfo_threads im)])"
proof -
  let ?im = "subtract_pending_counts_locked pids im"
  have s: "counts_ok ?im" "length (ptfo_threads ?im) = length (ptfo_threads im)"
    "\<forall>j < length (ptfo_threads im). ptfo_threads ?im ! j = (if int j \<in> set pids then reset (ptfo_threads im ! j) else ptfo_threads im ! j)"
    using subtract_ok [OF assms] by auto
  have "map thr_entry_count (ptfo_threads ?im) =
      map (\<lambda>j. if int j \<in> set pids then 0 else thr_entry_count (ptfo_threads im ! j)) [0..<length (ptfo_threads im)]"
    using s(2,3) by (intro nth_equalityI) auto
  then show ?thesis using s(1) by (simp add: counts_ok_def)
qed

theorem subtract_pending_never_wraps_witness:
  "\<exists>im. sample_run kF3N [Insert_key 7 0, Insert_key 9 1, Insert_key 10 1] = Some (Inr im) \<and>
     counts_ok (subtract_pending_counts_locked [1] im)"
proof -
  have "sample_allowed kF3N [Insert_key 7 0, Insert_key 9 1, Insert_key 10 1]" by code_simp
  then obtain im where im: "sample_run kF3N [Insert_key 7 0, Insert_key 9 1, Insert_key 10 1] = Some (Inr im)" "impl_ok 4096 im"
    by (rule sample_impl_ok)
  have "(case sample_run kF3N [Insert_key 7 0, Insert_key 9 1, Insert_key 10 1] of Some (Inr im) \<Rightarrow>
      length (ptfo_threads im) = 2 | _ \<Rightarrow> False)" by code_simp
  then have "length (ptfo_threads im) = 2" unfolding im(1) by simp
  then show ?thesis using subtract_pending_never_wraps [of im "[1]"] im by (simp add: impl_ok_def)
qed

end
