(* ===== verification/Workload.thy ===== *)
theory Workload
  imports Numa
begin

text \<open>
  \<^verbatim>\<open>src/workload.cpp\<close>: sequences of keys, generated (shuffled with \<^verbatim>\<open>std::mt19937_64\<close>) or read
  from a file.  A file is its contents, or nothing when it cannot be opened.
\<close>

unbundle bit_operations_syntax

section \<open>Model\<close>

text \<open>The 64-bit Mersenne Twister of the standard library: seeding, the twist of the whole state, and
  tempering.\<close>

fun mt_seed :: "nat \<Rightarrow> nat \<Rightarrow> 64 word \<Rightarrow> 64 word list" where
  "mt_seed 0 i x = []"
| "mt_seed (Suc n) i x = x # mt_seed n (i + 1) (6364136223846793005 * (x XOR drop_bit 62 x) + word_of_nat (i + 1))"

definition mt_twist_at :: "64 word list \<Rightarrow> nat \<Rightarrow> 64 word list" where
  "mt_twist_at x k =
     (let y = (x ! k AND 0xFFFFFFFF80000000) OR (x ! ((k + 1) mod 312) AND 0x7FFFFFFF)
      in x[k := x ! ((k + 156) mod 312) XOR drop_bit 1 y XOR (if bit y 0 then 0xB5026F5AA96619E9 else 0)])"

definition mt_twist :: "64 word list \<Rightarrow> 64 word list" where
  "mt_twist x = fold (\<lambda>k x. mt_twist_at x k) [0..<312] x"

definition mt_temper :: "64 word \<Rightarrow> 64 word" where
  "mt_temper y =
     (let y1 = y XOR (drop_bit 29 y AND 0x5555555555555555);
          y2 = y1 XOR (push_bit 17 y1 AND 0x71D67FFFEDA60000);
          y3 = y2 XOR (push_bit 37 y2 AND 0xFFF7EEE000000000)
      in y3 XOR drop_bit 43 y3)"

type_synonym rng = "64 word list \<times> nat"

definition mt19937_64 :: "64 word \<Rightarrow> rng" where
  "mt19937_64 seed = (mt_seed 312 0 seed, 312)"

definition rng_next :: "rng \<Rightarrow> 64 word \<times> rng" where
  "rng_next g =
     (let (x, i) = (if snd g \<ge> 312 then (mt_twist (fst g), 0) else g)
      in (mt_temper (x ! i), (x, i + 1)))"

definition make_sequential_keys :: "nat \<Rightarrow> int list" where
  "make_sequential_keys n_keys = map (\<lambda>i. int i + 1) [0..<n_keys]"

text \<open>The loop from \<open>i = keys.size()\<close> down to 2.\<close>

fun shuffle :: "nat \<Rightarrow> rng \<Rightarrow> int list \<Rightarrow> int list" where
  "shuffle i g ks =
     (if i > 1
      then (let (r, g') = rng_next g; j = unat (r mod word_of_nat i); tmp = ks ! (i - 1);
                keys1 = ks[i - 1 := ks ! j]
            in shuffle (i - 1) g' (keys1[j := tmp]))
      else ks)"

declare shuffle.simps [simp del]

definition make_shuffled_keys :: "nat \<Rightarrow> 64 word \<Rightarrow> int list" where
  "make_shuffled_keys n_keys seed = (let ks = make_sequential_keys n_keys in shuffle (length ks) (mt19937_64 seed) ks)"

text \<open>\<^verbatim>\<open>input >> key\<close>: white space, a sign, at least one digit; a value outside of 64 bits fails.\<close>

definition read_key :: "string \<Rightarrow> (int \<times> string) option" where
  "read_key s =
     (let s1 = dropWhile is_space s;
          (neg, s2) = (case s1 of [] \<Rightarrow> (False, []) | c # cs \<Rightarrow>
             if c = CHR ''-'' then (True, cs) else if c = CHR ''+'' then (False, cs) else (False, s1));
          ds = takeWhile is_digit s2; v = (if neg then - digits_value 0 ds else digits_value 0 ds)
      in if ds = [] \<or> v < - (2 ^ 63) \<or> v \<ge> 2 ^ 63 then None else Some (v, dropWhile is_digit s2))"

fun read_keys :: "nat \<Rightarrow> string \<Rightarrow> int list" where
  "read_keys 0 s = []"
| "read_keys (Suc n) s = (case read_key s of None \<Rightarrow> [] | Some (k, s') \<Rightarrow> k # read_keys n s')"

datatype workload_error = open_failed string | not_enough_keys string

definition load_keys_from_file :: "string \<Rightarrow> string option \<Rightarrow> nat \<Rightarrow> workload_error + int list" where
  "load_keys_from_file path file n_keys =
     (case file of None \<Rightarrow> Inl (open_failed path)
      | Some contents \<Rightarrow> (let ks = read_keys n_keys contents
                         in if length ks \<noteq> n_keys then Inl (not_enough_keys path) else Inr ks))"

definition load_or_generate_keys :: "string \<Rightarrow> string option \<Rightarrow> nat \<Rightarrow> 64 word \<Rightarrow> workload_error + int list" where
  "load_or_generate_keys path file n_keys seed =
     (if path \<noteq> [] then load_keys_from_file path file n_keys else Inr (make_shuffled_keys n_keys seed))"

definition show_int :: "int \<Rightarrow> string" where
  "show_int k = (if k < 0 then ''-'' @ show_nat (nat (- k)) else show_nat (nat k))"

text \<open>The contents written, when the file can be opened.\<close>

definition write_keys_to_file :: "bool \<Rightarrow> int list \<Rightarrow> string option" where
  "write_keys_to_file opened ks =
     (if \<not> opened then None else Some (concat (map (\<lambda>k. show_int k @ [CHR 0x0A]) ks)))"

section \<open>Generated keys\<close>

lemma swap_mset:
  "i < length xs \<Longrightarrow> j < length xs \<Longrightarrow> mset (xs[i := xs ! j, j := xs ! i]) = mset xs"
  using mset_swap [of i xs j] by (cases "i = j") (simp_all add: list_update_swap)

lemma shuffle_mset:
  assumes "i \<le> length ks" "length ks < 2 ^ 64"
  shows "mset (shuffle i g ks) = mset ks"
  using assms
proof (induction i g ks rule: shuffle.induct)
  case (1 i g ks)
  show ?case
  proof (cases "i > 1")
    case True
    obtain r g' where r: "rng_next g = (r, g')" by (cases "rng_next g")
    let ?j = "unat (r mod word_of_nat i)" and ?k = "ks[i - 1 := ks ! unat (r mod word_of_nat i), unat (r mod word_of_nat i) := ks ! (i - 1)]"
    have i64: "unat (word_of_nat i :: 64 word) = i" using 1(2,3) by (simp add: unat_of_nat)
    have "?j < i" using True i64 by (simp add: unat_mod)
    then have m: "mset ?k = mset ks" using 1(2) True by (intro swap_mset) auto
    have "mset (shuffle (i - 1) g' ?k) = mset ?k"
      by (rule 1(1) [OF True r [symmetric] refl refl refl refl]) (use 1(2,3) in auto)
    then show ?thesis using True r m by (subst shuffle.simps) (simp add: Let_def)
  next
    case False
    then show ?thesis by (simp add: shuffle.simps)
  qed
qed

section \<open>Keys in files\<close>

lemma takeWhile_digits: "takeWhile is_digit (show_nat n @ CHR 0x0A # s) = show_nat n"
  "dropWhile is_digit (show_nat n @ CHR 0x0A # s) = CHR 0x0A # s"
proof -
  have nl: "\<not> is_digit (CHR 0x0A)" by (simp add: is_digit_def)
  show "takeWhile is_digit (show_nat n @ CHR 0x0A # s) = show_nat n"
    "dropWhile is_digit (show_nat n @ CHR 0x0A # s) = CHR 0x0A # s"
    using show_nat_digits [of n] nl by (auto simp: takeWhile_append dropWhile_append)
qed

lemma read_show:
  assumes "- (2 ^ 63) \<le> k" "k < 2 ^ 63"
  shows "read_key (show_int k @ CHR 0x0A # s) = Some (k, CHR 0x0A # s)"
proof -
  obtain c cs where c: "show_nat (nat \<bar>k\<bar>) = c # cs" "is_digit c"
    using show_nat_digits [of "nat \<bar>k\<bar>"] by (cases "show_nat (nat \<bar>k\<bar>)") auto
  note dn = digit_not [OF c(2)] and tw = takeWhile_digits [of "nat \<bar>k\<bar>" s, unfolded c(1)]
  have v: "digits_value 0 (c # cs) = \<bar>k\<bar>" using digits_value_show [of "nat \<bar>k\<bar>"] by (simp add: c(1) del: digits_value.simps)
  have sp: "\<not> is_space (CHR ''-'')" by (simp add: is_space_def)
  show ?thesis
  proof (cases "k < 0")
    case True
    then have "show_int k = CHR ''-'' # c # cs" using c(1) by (simp add: show_int_def)
    then show ?thesis using True tw v assms sp
      by (simp add: read_key_def Let_def del: digits_value.simps takeWhile.simps dropWhile.simps(2)) (simp del: digits_value.simps)
  next
    case False
    then have "show_int k = c # cs" using c(1) by (simp add: show_int_def)
    then show ?thesis using False tw v assms dn
      by (simp add: read_key_def Let_def del: digits_value.simps takeWhile.simps)
  qed
qed

lemma read_space: "is_space c \<Longrightarrow> read_key (c # s) = read_key s"
  by (simp add: read_key_def)

lemma read_written:
  assumes "\<forall>k \<in> set ks. - (2 ^ 63) \<le> k \<and> k < 2 ^ 63"
  shows "read_keys (length ks) (concat (map (\<lambda>k. show_int k @ [CHR 0x0A]) ks)) = ks \<and>
    read_keys (length ks) (CHR 0x0A # concat (map (\<lambda>k. show_int k @ [CHR 0x0A]) ks)) = ks"
  using assms
proof (induction ks)
  case (Cons k ks)
  have nl: "is_space (CHR 0x0A)" by (simp add: is_space_def)
  show ?case using Cons read_show [of k] read_space [OF nl] by simp
qed simp

lemma read_end: "read_key [] = None" "read_key [CHR 0x0A] = None"
  by (simp_all add: read_key_def is_space_def)

lemma read_more:
  assumes "\<forall>k \<in> set ks. - (2 ^ 63) \<le> k \<and> k < 2 ^ 63"
  shows "read_keys (length ks + Suc m) (concat (map (\<lambda>k. show_int k @ [CHR 0x0A]) ks)) = ks \<and>
    read_keys (length ks + Suc m) (CHR 0x0A # concat (map (\<lambda>k. show_int k @ [CHR 0x0A]) ks)) = ks"
  using assms
proof (induction ks)
  case Nil
  then show ?case by (simp add: read_end)
next
  case (Cons k ks)
  have sp: "is_space (CHR 0x0A)" by (simp add: is_space_def)
  have "read_key (show_int k @ CHR 0x0A # s) = Some (k, CHR 0x0A # s)" for s using Cons.prems by (intro read_show) auto
  then show ?case using Cons by (simp add: read_space [OF sp])
qed

section \<open>Properties of the workload\<close>

text \<open>For every seed the shuffled keys are a permutation of 1 to \<^verbatim>\<open>count\<close>: each key once.\<close>

theorem shuffled_keys_permutation:
  assumes "n < 2 ^ 64"
  shows "mset (make_shuffled_keys n seed) = mset [1..int n] \<and> distinct (make_shuffled_keys n seed)"
proof -
  have s: "make_sequential_keys n = [1..int n]"
    by (rule nth_equalityI) (auto simp: make_sequential_keys_def nth_upto)
  have "mset (make_shuffled_keys n seed) = mset [1..int n]"
    unfolding make_shuffled_keys_def s Let_def using assms by (intro shuffle_mset) auto
  then show ?thesis using mset_eq_imp_distinct_iff by fastforce
qed

theorem shuffled_keys_permutation_witness: "distinct (make_shuffled_keys 100 42)"
  using shuffled_keys_permutation [of 100 42] by simp

text \<open>Keys written to a file are read back: loading as many keys as were written, from the text
  \<^verbatim>\<open>write_keys_to_file\<close> produces, gives the same keys, and asking for more is reported as an error.\<close>

theorem key_file_roundtrip:
  assumes "\<forall>k \<in> set ks. - (2 ^ 63) \<le> k \<and> k < 2 ^ 63"
  shows "load_keys_from_file path (write_keys_to_file True ks) (length ks) = Inr ks \<and>
    load_keys_from_file path (write_keys_to_file True ks) (length ks + Suc m) = Inl (not_enough_keys path)"
  using read_written [OF assms] read_more [OF assms] by (simp add: load_keys_from_file_def write_keys_to_file_def Let_def)

theorem key_file_roundtrip_witness:
  "load_keys_from_file ''keys'' (write_keys_to_file True [5, -3, 12]) 3 = Inr [5, -3, 12]"
  using key_file_roundtrip [of "[5, -3, 12]" "''keys''" 0] by (simp add: numeral_3_eq_3)

end
