(* ===== verification/F3Tree_DB.thy ===== *)
theory F3Tree_DB
  imports Range_Scan Drains Workload
begin

text \<open>
  The binding of the tree to the YCSB benchmark (\<^verbatim>\<open>YCSB-cpp/f3tree/f3tree_db.cc\<close>): one shared tree, an
  instance per client thread with a producer number of its own, and the mapping of record names to keys.
  \<^verbatim>\<open>std::hash\<close> of a string, whose value the standard leaves open, is an argument.  A use of the tree
  before the first \<^verbatim>\<open>Init\<close> or after the last \<^verbatim>\<open>Cleanup\<close> dereferences a null pointer and has no result.
\<close>

section \<open>Keys\<close>

definition digits_word :: "string \<Rightarrow> 64 word" where
  "digits_word ds = fold (\<lambda>c v. v * 10 + word_of_int (digit_value c)) ds 0"

text \<open>\<^verbatim>\<open>static_cast<Key>((v >> 1) + 1)\<close>\<close>

definition halve_key :: "64 word \<Rightarrow> int" where
  "halve_key v = sint (drop_bit 1 v + 1)"

definition StringToKey :: "(string \<Rightarrow> 64 word) \<Rightarrow> string \<Rightarrow> int" where
  "StringToKey std_hash key =
     (let suffix = dropWhile (\<lambda>c. \<not> is_digit c) key
      in if suffix = [] then halve_key (std_hash key) else halve_key (digits_word (takeWhile is_digit suffix)))"

section \<open>Configuration\<close>

type_synonym properties = "string \<rightharpoonup> string"

definition GetProperty :: "properties \<Rightarrow> string \<Rightarrow> string \<Rightarrow> string" where
  "GetProperty props key default_value = (case props key of None \<Rightarrow> default_value | Some v \<Rightarrow> v)"

text \<open>The sign and the digits the conversions of the standard library read.\<close>

definition number_prefix :: "string \<Rightarrow> bool \<times> string" where
  "number_prefix s =
     (let s1 = dropWhile is_space s;
          (neg, s2) = (case s1 of [] \<Rightarrow> (False, []) | c # cs \<Rightarrow>
             if c = CHR ''-'' then (True, cs) else if c = CHR ''+'' then (False, cs) else (False, s1))
      in (neg, takeWhile is_digit s2))"

definition stoi :: "string \<Rightarrow> error + int" where
  "stoi s =
     (let (neg, ds) = number_prefix s; v = (if neg then - digits_value 0 ds else digits_value 0 ds)
      in if ds = [] then Inl (invalid_argument ''stoi'')
         else if v < - (2 ^ 31) \<or> v \<ge> 2 ^ 31 then Inl (out_of_range ''stoi'') else Inr v)"

text \<open>\<^verbatim>\<open>stoul\<close> and \<^verbatim>\<open>stoull\<close> accept a minus sign and negate modulo the width.\<close>

definition stoul :: "string \<Rightarrow> string \<Rightarrow> error + nat" where
  "stoul fn s =
     (let (neg, ds) = number_prefix s; v = digits_value 0 ds
      in if ds = [] then Inl (invalid_argument fn)
         else if v \<ge> 2 ^ 64 then Inl (out_of_range fn)
         else Inr (nat ((if neg then - v else v) mod 2 ^ 64)))"

fun and_then :: "error + 'a \<Rightarrow> ('a \<Rightarrow> error + 'b) \<Rightarrow> error + 'b" where
  "and_then (Inl e) f = Inl e"
| "and_then (Inr x) f = f x"

definition size_of_int :: "int \<Rightarrow> nat" where
  "size_of_int v = nat (v mod 2 ^ 64)"

definition BuildConfig :: "properties \<Rightarrow> error + RuntimeConfig" where
  "BuildConfig props =
     and_then (stoi (GetProperty props ''threadcount'' ''1'')) (\<lambda>nthreads.
     and_then (stoi (GetProperty props ''f3tree.evaluator_threads'' ''1'')) (\<lambda>evals.
     and_then (stoul ''stoul'' (GetProperty props ''f3tree.hash_capacity'' ''1024'')) (\<lambda>cap.
     and_then (stoul ''stoul'' (GetProperty props ''f3tree.checkpoint_threshold_ops'' ''0'')) (\<lambda>threshold.
     and_then (stoul ''stoull'' (GetProperty props ''f3tree.checkpoint_interval_us'' ''0'')) (\<lambda>interval.
     let cfg = default_config\<lparr>
           producer_threads := size_of_int nthreads, evaluator_threads := size_of_int evals,
           cfg_hash_capacity := cap, checkpoint_threshold_ops := threshold, checkpoint_interval_us := interval,
           evaluator_policy := (if GetProperty props ''f3tree.evaluator_policy'' ''f3n'' = ''f3k'' then kF3K else kF3N),
           persistent_path := GetProperty props ''f3tree.persistent_path'' ''''\<rparr>
     in if persistent_path cfg \<noteq> []
        then and_then (stoul ''stoull'' (GetProperty props ''f3tree.persistent_pool_bytes'' (show_nat (512 * 1024 * 1024))))
               (\<lambda>pool. Inr (cfg\<lparr>persistent_pool_bytes := word_of_nat pool\<rparr>))
        else Inr cfg)))))"

section \<open>Lifecycle\<close>

text \<open>The static members of the class.\<close>

record F3TreeDB =
  tree_ptr :: "Impl option"
  instance_count :: int
  next_producer_id :: int

definition F3TreeDB_start :: F3TreeDB where
  "F3TreeDB_start = \<lparr>tree_ptr = None, instance_count = 0, next_producer_id = 0\<rparr>"

text \<open>\<^verbatim>\<open>fetch_add\<close> and \<^verbatim>\<open>fetch_sub\<close> of a \<^verbatim>\<open>std::atomic<int>\<close> wrap around.\<close>

definition wrap_int :: "int \<Rightarrow> int" where
  "wrap_int v = sint (word_of_int v :: 32 word)"

text \<open>The producer number of the new instance, and the shared state.\<close>

definition Init :: "int \<Rightarrow> NumaTopology \<Rightarrow> properties \<Rightarrow> F3TreeDB \<Rightarrow> error + nat \<times> F3TreeDB" where
  "Init base topo props db =
     and_then (case tree_ptr db of Some im \<Rightarrow> Inr im
               | None \<Rightarrow> and_then (BuildConfig props) (FutureBTree_ctor base topo))
       (\<lambda>im. Inr (size_of_int (next_producer_id db),
                  db\<lparr>tree_ptr := Some im, next_producer_id := wrap_int (next_producer_id db + 1),
                     instance_count := wrap_int (instance_count db + 1)\<rparr>))"

definition Cleanup :: "Sys \<Rightarrow> F3TreeDB \<Rightarrow> F3TreeDB option" where
  "Cleanup sys db =
     (let db1 = db\<lparr>instance_count := wrap_int (instance_count db - 1)\<rparr>
      in if instance_count db = 1
         then do { im \<leftarrow> tree_ptr db;
                   im1 \<leftarrow> drain_pending sys im;
                   im2 \<leftarrow> FutureBTree_dtor sys im1;
                   Some (db1\<lparr>tree_ptr := None, next_producer_id := 0\<rparr>) }
         else Some db1)"

section \<open>Operations\<close>

datatype Status = kOK | kError | kNotFound | kNotImplemented

type_synonym Field = "string \<times> string"

definition db_Read :: "(string \<Rightarrow> 64 word) \<Rightarrow> string \<Rightarrow> F3TreeDB \<Rightarrow> (Status \<times> Field list) option" where
  "db_Read h key db =
     do { im \<leftarrow> tree_ptr db;
          found \<leftarrow> contains (StringToKey h key) im;
          Some (if \<not> found then (kNotFound, []) else (kOK, [(''value'', key)])) }"

definition db_Scan ::
  "Sys \<Rightarrow> (string \<Rightarrow> 64 word) \<Rightarrow> string \<Rightarrow> int \<Rightarrow> F3TreeDB \<Rightarrow> (Status \<times> Field list list \<times> F3TreeDB) option" where
  "db_Scan sys h key record_count db =
     do { im \<leftarrow> tree_ptr db;
          (n, found, im') \<leftarrow> scan_range sys (StringToKey h key) record_count [] im;
          Some (kOK, map (\<lambda>i. [(''value'', show_int (found ! i))]) [0..<n], db\<lparr>tree_ptr := Some im'\<rparr>) }"

definition db_insert_op ::
  "Sys \<Rightarrow> (string \<Rightarrow> 64 word) \<Rightarrow> string \<Rightarrow> nat \<Rightarrow> F3TreeDB \<Rightarrow> (error + Status \<times> F3TreeDB) option" where
  "db_insert_op sys h key producer_id db =
     do { im \<leftarrow> tree_ptr db;
          r \<leftarrow> buffered_insert sys (StringToKey h key) producer_id im;
          Some (and_then r (\<lambda>im'. Inr (kOK, db\<lparr>tree_ptr := Some im'\<rparr>))) }"

definition db_Update ::
  "Sys \<Rightarrow> (string \<Rightarrow> 64 word) \<Rightarrow> string \<Rightarrow> nat \<Rightarrow> F3TreeDB \<Rightarrow> (error + Status \<times> F3TreeDB) option" where
  "db_Update sys h key producer_id db = db_insert_op sys h key producer_id db"

definition db_Insert ::
  "Sys \<Rightarrow> (string \<Rightarrow> 64 word) \<Rightarrow> string \<Rightarrow> nat \<Rightarrow> F3TreeDB \<Rightarrow> (error + Status \<times> F3TreeDB) option" where
  "db_Insert sys h key producer_id db = db_insert_op sys h key producer_id db"

definition db_Delete ::
  "Sys \<Rightarrow> (string \<Rightarrow> 64 word) \<Rightarrow> string \<Rightarrow> nat \<Rightarrow> F3TreeDB \<Rightarrow> (error + Status \<times> F3TreeDB) option" where
  "db_Delete sys h key producer_id db =
     do { im \<leftarrow> tree_ptr db;
          r \<leftarrow> erase_buffered sys (StringToKey h key) producer_id im;
          Some (and_then r (\<lambda>im'. Inr (kOK, db\<lparr>tree_ptr := Some im'\<rparr>))) }"

section \<open>The keys of records\<close>

lemma digits_word_fold:
  "\<forall>c \<in> set ds. is_digit c \<Longrightarrow>
   fold (\<lambda>c w. w * 10 + word_of_int (digit_value c)) ds (word_of_int v) = (word_of_int (digits_value v ds) :: 64 word)"
proof (induction ds arbitrary: v)
  case (Cons c ds)
  then show ?case using Cons.IH [of "10 * v + digit_value c"] by (simp add: mult.commute)
qed simp

lemma digits_word_show: "digits_word (show_nat n) = word_of_nat n"
  using digits_word_fold [of "show_nat n" 0] show_nat_digits [of n] digits_value_show [of n] by (simp add: digits_word_def)

lemma StringToKey_number:
  assumes "\<forall>c \<in> set prefix. \<not> is_digit c"
  shows "StringToKey h (prefix @ show_nat n) = halve_key (word_of_nat n)"
proof -
  have dr: "dropWhile (\<lambda>c. \<not> is_digit c) (prefix @ show_nat n) = show_nat n"
    using assms show_nat_digits [of n] by (cases "show_nat n") (auto simp: dropWhile_append)
  have tk: "takeWhile is_digit (show_nat n) = show_nat n"
    using show_nat_digits [of n] by (simp add: takeWhile_eq_all_conv del: show_nat.simps)
  show ?thesis
    unfolding StringToKey_def Let_def dr tk digits_word_show using show_nat_digits [of n] by (simp del: show_nat.simps)
qed

lemma sint_word_of_nat: "m < 2 ^ 63 \<Longrightarrow> sint (word_of_nat m :: 64 word) = int m"
proof -
  assume "m < 2 ^ 63"
  then have "signed_take_bit 63 (int m) = int m" by (intro signed_take_bit_int_eq_self) auto
  then show ?thesis by (simp add: signed_of_nat)
qed

lemma halve_small:
  assumes "n + 2 < 2 ^ 64"
  shows "halve_key (word_of_nat n) = int (n div 2) + 1"
proof -
  have "unat (drop_bit 1 (word_of_nat n) :: 64 word) = n div 2"
    using assms by (simp add: unat_drop_bit_eq drop_bit_eq_div unat_of_nat take_bit_nat_eq_self unat_div)
  then have "unat (drop_bit 1 (word_of_nat n) + 1 :: 64 word) = n div 2 + 1"
    using assms by (simp add: unat_word_ariths)
  moreover have "word_of_nat (unat w) = w" for w :: "64 word" by simp
  ultimately have "drop_bit 1 (word_of_nat n) + 1 = (word_of_nat (n div 2 + 1) :: 64 word)" by metis
  moreover have "sint (word_of_nat (n div 2 + 1) :: 64 word) = int (n div 2 + 1)"
    using assms by (intro sint_word_of_nat) simp
  ultimately show ?thesis by (simp only: halve_key_def of_nat_add of_nat_1)
qed

section \<open>Reading what was written\<close>

text \<open>The shared tree is well-formed and the producer has room for the key.\<close>

definition db_ready :: "(string \<Rightarrow> 64 word) \<Rightarrow> int \<Rightarrow> string \<Rightarrow> nat \<Rightarrow> F3TreeDB \<Rightarrow> bool" where
  "db_ready h base key p db \<longleftrightarrow>
     (case tree_ptr db of None \<Rightarrow> False
      | Some im \<Rightarrow> impl_ok base im \<and> covered (tree im) \<and> p < length (ptfo_threads im) \<and>
          storable base (StringToKey h key) \<and> room (tree im) p (StringToKey h key) \<and> next_ptfo_sequence im \<noteq> -1)"

lemma db_buffered:
  assumes "db_ready h base key p db"
  obtains im im' where "tree_ptr db = Some im" "buffer_op sys d (StringToKey h key) p im = Some im'"
    "p < length (ptfo_threads im)" "contains (StringToKey h key) im' = Some (\<not> d)"
    "\<And>k. storable base k \<Longrightarrow> k \<noteq> StringToKey h key \<Longrightarrow> contains k im' = contains k im"
proof -
  obtain im where im: "tree_ptr db = Some im" "impl_ok base im" "covered (tree im)" "p < length (ptfo_threads im)"
    "storable base (StringToKey h key)" "room (tree im) p (StringToKey h key)" "next_ptfo_sequence im \<noteq> -1"
    using assms by (auto simp: db_ready_def split: option.splits)
  obtain im' where "buffer_op sys d (StringToKey h key) p im = Some im'"
    "\<And>k. storable base k \<Longrightarrow> contains k im' = (if k = StringToKey h key then Some (\<not> d) else contains k im)"
    by (rule buffered_ok [OF im(2-7), of sys d]) (rule that)
  then show thesis using that [OF im(1)] im(4,5) by simp
qed

lemma wrap_int_nat: "n < 2 ^ 31 \<Longrightarrow> wrap_int (int n) = int n"
proof -
  assume "n < 2 ^ 31"
  then have "signed_take_bit 31 (int n) = int n" by (intro signed_take_bit_int_eq_self) auto
  then show ?thesis by (simp add: wrap_int_def signed_of_nat)
qed

lemma Init_step:
  assumes "tree_ptr db = Some im \<or> tree_ptr db = None \<and> BuildConfig props = Inr cfg \<and> FutureBTree_ctor base topo cfg = Inr im"
    "next_producer_id db = int k" "instance_count db = int k" "Suc k < 2 ^ 31"
  shows "Init base topo props db = Inr (k, db\<lparr>tree_ptr := Some im, next_producer_id := int (Suc k), instance_count := int (Suc k)\<rparr>)"
proof -
  have "wrap_int (int k + 1) = int (Suc k)" using wrap_int_nat [OF assms(4)] by (simp add: add.commute)
  then show ?thesis using assms by (auto simp: Init_def size_of_int_def nat_mod_distrib)
qed

text \<open>The instances a benchmark creates one after the other.\<close>

fun Init_all :: "int \<Rightarrow> NumaTopology \<Rightarrow> properties \<Rightarrow> nat \<Rightarrow> F3TreeDB \<Rightarrow> error + nat list \<times> F3TreeDB" where
  "Init_all base topo props 0 db = Inr ([], db)"
| "Init_all base topo props (Suc n) db =
     and_then (Init base topo props db) (\<lambda>(pid, db1).
       and_then (Init_all base topo props n db1) (\<lambda>(pids, db2). Inr (pid # pids, db2)))"

lemma Init_all_ids:
  assumes "tree_ptr db = Some im" "next_producer_id db = int k" "instance_count db = int k" "k + n < 2 ^ 31"
  shows "Init_all base topo props n db = Inr ([k..<k + n], db\<lparr>next_producer_id := int (k + n), instance_count := int (k + n)\<rparr>)"
  using assms
proof (induction n arbitrary: k db)
  case (Suc n)
  let ?db = "db\<lparr>tree_ptr := Some im, next_producer_id := int (Suc k), instance_count := int (Suc k)\<rparr>"
  have i: "Init base topo props db = Inr (k, ?db)" using Suc.prems by (intro Init_step) auto
  have "Init_all base topo props n ?db = Inr ([Suc k..<Suc k + n], ?db\<lparr>next_producer_id := int (Suc k + n),
      instance_count := int (Suc k + n)\<rparr>)"
    using Suc.prems by (intro Suc.IH) auto
  then show ?case using i Suc.prems(1) by (simp add: upt_conv_Cons)
qed simp

text \<open>The tree after an operation of an instance.\<close>

definition db_sample_step :: "(F3TreeDB \<Rightarrow> (error + Status \<times> F3TreeDB) option) \<Rightarrow> Impl \<Rightarrow> Impl option" where
  "db_sample_step f im =
     (case f (F3TreeDB_start\<lparr>tree_ptr := Some im\<rparr>) of Some (Inr (_, db)) \<Rightarrow> tree_ptr db | _ \<Rightarrow> None)"

section \<open>Properties of the binding\<close>

text \<open>The key of a record named by a prefix without digits and a number is half the number, rounded
  down, plus one.  It is positive, so never the null key, and every two records whose numbers differ
  in the last bit only share one key.\<close>

theorem record_keys_collide:
  assumes "\<forall>c \<in> set prefix. \<not> is_digit c" "2 * m + 3 < 2 ^ 64"
  shows "StringToKey h (prefix @ show_nat (2 * m)) = int m + 1 \<and>
    StringToKey h (prefix @ show_nat (2 * m + 1)) = StringToKey h (prefix @ show_nat (2 * m))"
proof -
  have "StringToKey h (prefix @ show_nat (2 * m)) = int m + 1"
    using StringToKey_number [OF assms(1), of h "2 * m"] halve_small [of "2 * m"] assms(2) by simp
  moreover have "StringToKey h (prefix @ show_nat (2 * m + 1)) = int m + 1"
    using StringToKey_number [OF assms(1), of h "2 * m + 1"] halve_small [of "2 * m + 1"] assms(2) by simp
  ultimately show ?thesis by metis
qed

theorem record_keys_collide_witness:
  "StringToKey (\<lambda>_. 0) (''user'' @ show_nat 7) = StringToKey (\<lambda>_. 0) (''user'' @ show_nat 6)"
proof -
  have "\<forall>c \<in> set ''user''. \<not> is_digit c" by code_simp
  from record_keys_collide [OF this, of 3 "\<lambda>_. 0"] show ?thesis by simp
qed

text \<open>C32: On a well-formed shared tree with room, inserting or updating a record succeeds and reading it
  then returns the record; deleting it succeeds and reading it then reports that it is not found.\<close>

theorem db_write_then_read:
  assumes "db_ready h base key p db"
  shows "(\<exists>db'. db_Insert sys h key p db = Some (Inr (kOK, db')) \<and> db_Read h key db' = Some (kOK, [(''value'', key)])) \<and>
    (\<exists>db'. db_Update sys h key p db = Some (Inr (kOK, db')) \<and> db_Read h key db' = Some (kOK, [(''value'', key)])) \<and>
    (\<exists>db'. db_Delete sys h key p db = Some (Inr (kOK, db')) \<and> db_Read h key db' = Some (kNotFound, []))"
proof -
  obtain im im1 where i: "tree_ptr db = Some im" "buffer_op sys False (StringToKey h key) p im = Some im1"
    "p < length (ptfo_threads im)" "contains (StringToKey h key) im1 = Some (\<not> False)"
    by (rule db_buffered [OF assms, of sys False])
  obtain im' im2 where d: "tree_ptr db = Some im'" "buffer_op sys True (StringToKey h key) p im' = Some im2"
    "p < length (ptfo_threads im')" "contains (StringToKey h key) im2 = Some (\<not> True)"
    by (rule db_buffered [OF assms, of sys True])
  show ?thesis
    using i d by (simp add: db_Insert_def db_Update_def db_insert_op_def db_Delete_def db_Read_def buffered_insert_def erase_buffered_def)
qed

theorem db_write_then_read_witness:
  "\<exists>im. sample_run kF3N [Insert_key 7 0] = Some (Inr im) \<and>
     (\<exists>db'. db_Insert sample_sys (\<lambda>_. 0) (''user'' @ show_nat 20) 0 (F3TreeDB_start\<lparr>tree_ptr := Some im\<rparr>) = Some (Inr (kOK, db')) \<and>
        db_Read (\<lambda>_. 0) (''user'' @ show_nat 20) db' = Some (kOK, [(''value'', ''user'' @ show_nat 20)]))"
proof -
  have "sample_allowed kF3N [Insert_key 7 0]" by code_simp
  then obtain im where im: "sample_run kF3N [Insert_key 7 0] = Some (Inr im)" "impl_ok 4096 im" "covered (tree im)"
    by (rule sample_impl_ok)
  have "(case sample_run kF3N [Insert_key 7 0] of Some (Inr im) \<Rightarrow>
      \<not> table_full (bt_hash (tree im) ! 0) \<and> \<not> dir_full (bt_dirs (tree im) ! 0) \<and> next_ptfo_sequence im \<noteq> -1 \<and>
      length (ptfo_threads im) = 2 | _ \<Rightarrow> False)"
    by code_simp
  then have c: "\<not> table_full (bt_hash (tree im) ! 0)" "\<not> dir_full (bt_dirs (tree im) ! 0)" "next_ptfo_sequence im \<noteq> -1"
    "length (ptfo_threads im) = 2"
    unfolding im(1) by simp_all
  have "StringToKey (\<lambda>_. 0) (''user'' @ show_nat 20) = 11" by code_simp
  then have "db_ready (\<lambda>_. 0) 4096 (''user'' @ show_nat 20) 0 (F3TreeDB_start\<lparr>tree_ptr := Some im\<rparr>)"
    using im(2,3) c by (simp add: db_ready_def room_def hash_room_def dir_room_def storable_def LONG_MIN_def)
  from db_write_then_read [OF this, of sample_sys] show ?thesis using im(1) by blast
qed



text \<open>A record that is updated after it was stored cannot be deleted: the update is stored as a
  second copy of the key, the delete removes one copy, and a read after the drain still finds the
  record, although a read before the drain did not.\<close>

theorem updated_record_survives_delete:
  "map_option (\<lambda>im. (db_Read (\<lambda>_. 0) ''user20'' (F3TreeDB_start\<lparr>tree_ptr := Some im\<rparr>),
       map_option (\<lambda>im'. db_Read (\<lambda>_. 0) ''user20'' (F3TreeDB_start\<lparr>tree_ptr := Some im'\<rparr>)) (drain_pending sample_sys im)))
     (do { im0 \<leftarrow> db_sample_step (\<lambda>db. db_Insert sample_sys (\<lambda>_. 0) ''user20'' 0 db) (Impl_ctor 4096 no_topology (sample_config kF3N));
           im1 \<leftarrow> drain_pending sample_sys im0;
           im2 \<leftarrow> db_sample_step (\<lambda>db. db_Update sample_sys (\<lambda>_. 0) ''user20'' 0 db) im1;
           im3 \<leftarrow> drain_pending sample_sys im2;
           db_sample_step (\<lambda>db. db_Delete sample_sys (\<lambda>_. 0) ''user20'' 0 db) im3 }) =
   Some (Some (kNotFound, []), Some (Some (kOK, [(''value'', ''user20'')])))"
  by code_simp

end
