(* ===== verification/Searches.thy ===== *)
theory Searches
  imports Client
begin

text \<open>
  The searches over buffered operations (\<^verbatim>\<open>core/btree.h\<close>).  Seven routines answer which operation of a
  key is the newest: by walking every chain, by walking the chains the hash tables name, or by reading
  the lookup directories, for the state or for the owner.  All are equal to one specification.
\<close>

section \<open>Skipping producers whose hash table does not hold the key\<close>

lemma newest_skip:
  "\<forall>op \<in> set os. op_key op \<noteq> key \<Longrightarrow> fold (newest_step key) os acc = acc"
  by (intro fold_invariant [where P = "\<lambda>x. x = acc" and Q = "\<lambda>op. op_key op \<noteq> key"]) (auto simp: newest_step_def)

lemma SearchKey_total:
  assumes "fut_ok bt" "tid < n_threads bt"
  obtains v where "SearchKey (bt_hash bt ! tid) key = Some v"
  using SearchKey_get [of "bt_hash bt ! tid" key] assms by (auto simp: fut_ok_def)

lemma SearchKey_misses:
  assumes "fut_ok bt" "hash_covers bt" "tid < n_threads bt" "SearchKey (bt_hash bt ! tid) key = Some (-1)"
  shows "\<forall>op \<in> set (producer_ops bt tid). op_key op \<noteq> key"
proof -
  have "table_get (bt_hash bt ! tid) key \<noteq> Some (int tid)"
    using assms(4) SearchKey_get [of "bt_hash bt ! tid" key] assms(1,3) by (auto simp: fut_ok_def)
  then show ?thesis using assms(2,3) by (auto simp: hash_covers_def)
qed

lemma hash_directed_step:
  assumes "fut_ok bt" "hash_covers bt" "tid < n_threads bt"
    "g = Some (A (fold (newest_step key) (producer_ops bt tid) acc))"
  shows "(do { v \<leftarrow> SearchKey (bt_hash bt ! tid) key; if v = -1 then Some (A acc) else g }) =
    Some (A (fold (newest_step key) (producer_ops bt tid) acc))"
proof (rule SearchKey_total [OF assms(1,3), of key])
  fix v
  assume v: "SearchKey (bt_hash bt ! tid) key = Some v"
  then show ?thesis
    using newest_skip [OF SearchKey_misses [OF assms(1-3)], of key acc] assms(4) by (cases "v = -1") auto
qed

lemma hash_directed_state_newest:
  assumes "fut_ok bt" "hash_covers bt" "dir_covers bt" "\<forall>tid < n_threads bt. increasing (producer_ops bt tid)"
  shows "future_hash_directed_state bt key = Some (latest_of (newest key (all_pending bt)))"
proof -
  have "(do { v \<leftarrow> SearchKey (bt_hash bt ! tid) key; if v = -1 then Some (latest_of acc) else scan_dir bt key tid (latest_of acc) }) =
      Some (latest_of (fold (newest_step key) (producer_ops bt tid) acc))" if "tid < n_threads bt" for tid acc
    using hash_directed_step [OF assms(1,2) that] scan_dir_of [OF assms(1) that assms(3)] assms(4) that by blast
  then show ?thesis
    unfolding future_hash_directed_state_def latest_none_of
    by (subst for_tids_newest [where os = "producer_ops bt"]) (auto simp: newest_def all_pending_def)
qed

section \<open>Owners\<close>

text \<open>What the owner searches carry along, as a function of the newest operation found so far.\<close>

definition owner_of :: "future_buffered_op option \<Rightarrow> int \<times> 64 word" where
  "owner_of o' = (case o' of None \<Rightarrow> (-1, 0) | Some op \<Rightarrow> (op_producer_id op, op_sequence op))"

definition found_of :: "future_buffered_op option \<Rightarrow> bool \<times> int \<times> 64 word" where
  "found_of o' = (o' \<noteq> None, owner_of o')"

definition has_owner :: "future_buffered_op option \<Rightarrow> bool" where
  "has_owner o' \<longleftrightarrow> (\<forall>op. o' = Some op \<longrightarrow> 0 \<le> op_producer_id op)"

lemma has_owner_fold:
  "has_owner acc \<Longrightarrow> \<forall>op \<in> set os. 0 \<le> op_producer_id op \<Longrightarrow> has_owner (fold (newest_step key) os acc)"
  by (rule fold_invariant [where Q = "\<lambda>op. 0 \<le> op_producer_id op"]) (auto simp: has_owner_def newest_step_def)

lemma owner_update_of:
  "op_key op = key \<Longrightarrow> has_owner acc \<Longrightarrow>
   owner_update (op_sequence op) (op_producer_id op) (owner_of acc) = owner_of (newest_step key op acc)"
  by (cases acc) (auto simp: owner_update_def owner_of_def newest_step_def has_owner_def)

lemma owner_dir_of:
  assumes ok: "fut_ok bt" and tid: "tid < n_threads bt" and dc: "dir_covers bt"
    and inc: "increasing (producer_ops bt tid)" and acc: "has_owner acc"
  shows "owner_dir bt key tid (owner_of acc) = Some (owner_of (fold (newest_step key) (producer_ops bt tid) acc))"
proof -
  have d: "tid < length (bt_dirs bt)" "dir_ok (bt_dirs bt ! tid)" using ok tid by (auto simp: fut_ok_def)
  obtain i where i: "future_lookup_index (bt_dirs bt) key (int tid) False = Some (i, bt_dirs bt)"
    "case dir_get (bt_dirs bt ! tid) key of None \<Rightarrow> i = length (bt_dirs bt ! tid)
     | Some s \<Rightarrow> i < length (bt_dirs bt ! tid) \<and> bt_dirs bt ! tid ! i = s"
    by (rule future_lookup_index_get [OF d, of key])
  have g: "dir_get (bt_dirs bt ! tid) key = map_option dir_slot (last_op key (producer_ops bt tid))"
    using dc tid by (simp add: dir_covers_def)
  show ?thesis
  proof (cases "last_op key (producer_ops bt tid)")
    case None
    then show ?thesis using i g newest_fold_last [OF inc, of key acc] by (simp add: owner_dir_def)
  next
    case (Some op)
    then have k: "op_key op = key" by (simp add: last_op_in)
    show ?thesis
      using i g Some newest_fold_last [OF inc, of key acc] owner_update_of [OF k acc]
      by (simp add: owner_dir_def dir_slot_def)
  qed
qed

lemma producer_ops_owner:
  "fut_ok bt \<Longrightarrow> tid < n_threads bt \<Longrightarrow> \<forall>op \<in> set (producer_ops bt tid). 0 \<le> op_producer_id op"
  using pending_producer by (auto simp: producer_ops_def fut_ok_def)

lemma for_tids_owner:
  assumes "\<And>tid acc. tid \<in> set tids \<Longrightarrow> has_owner acc \<Longrightarrow>
      f tid (A acc) = Some (A (fold (newest_step key) (os tid) acc))"
    "\<And>tid. tid \<in> set tids \<Longrightarrow> \<forall>op \<in> set (os tid). 0 \<le> op_producer_id op" "has_owner acc"
  shows "for_tids f tids (A acc) = Some (A (fold (newest_step key) (concat (map os tids)) acc))"
  using assms
proof (induction tids arbitrary: acc)
  case (Cons tid tids)
  have "\<forall>op \<in> set (os tid). 0 \<le> op_producer_id op" using Cons.prems(2) [of tid] by simp
  then have "has_owner (fold (newest_step key) (os tid) acc)" by (rule has_owner_fold [OF Cons.prems(3)])
  from Cons.IH [OF _ _ this] have "for_tids f tids (A (fold (newest_step key) (os tid) acc)) =
      Some (A (fold (newest_step key) (concat (map os tids)) (fold (newest_step key) (os tid) acc)))"
    using Cons.prems(1,2) by (metis list.set_intros(2))
  then show ?case using Cons.prems(1) [of tid acc] Cons.prems(3) by simp
qed simp

lemma owner_start: "owner_of None = (-1, 0)" "found_of None = (False, -1, 0)" "has_owner None"
  by (simp_all add: owner_of_def found_of_def has_owner_def)

lemma lookup_owner_newest:
  assumes "fut_ok bt" "dir_covers bt" "\<forall>tid < n_threads bt. increasing (producer_ops bt tid)"
  shows "future_lookup_owner bt key = Some (fst (owner_of (newest key (all_pending bt))))"
proof -
  have "for_tids (owner_dir bt key) [0..<n_threads bt] (owner_of None) =
      Some (owner_of (fold (newest_step key) (concat (map (producer_ops bt) [0..<n_threads bt])) None))"
    using owner_dir_of [OF assms(1) _ assms(2)] assms(3) producer_ops_owner [OF assms(1)] owner_start(3)
    by (intro for_tids_owner) auto
  then show ?thesis by (simp add: future_lookup_owner_def owner_start newest_def all_pending_def)
qed

lemma hash_directed_owner_newest:
  assumes "fut_ok bt" "hash_covers bt" "dir_covers bt" "\<forall>tid < n_threads bt. increasing (producer_ops bt tid)"
  shows "future_hash_directed_owner bt key = Some (fst (owner_of (newest key (all_pending bt))))"
proof -
  let ?f = "\<lambda>tid acc. do { v \<leftarrow> SearchKey (bt_hash bt ! tid) key; if v = -1 then Some acc else owner_dir bt key tid acc }"
  have "?f tid (owner_of acc) = Some (owner_of (fold (newest_step key) (producer_ops bt tid) acc))"
    if "tid \<in> set [0..<n_threads bt]" "has_owner acc" for tid acc
  proof -
    have t: "tid < n_threads bt" using that(1) by simp
    then show ?thesis using owner_dir_of [OF assms(1) t assms(3) _ that(2)] assms(4) by (intro hash_directed_step [OF assms(1,2) t]) auto
  qed
  then have "for_tids ?f [0..<n_threads bt] (owner_of None) =
      Some (owner_of (fold (newest_step key) (concat (map (producer_ops bt) [0..<n_threads bt])) None))"
    using producer_ops_owner [OF assms(1)] owner_start(3) by (intro for_tids_owner) auto
  then show ?thesis by (simp add: future_hash_directed_owner_def owner_start newest_def all_pending_def)
qed

text \<open>The search over the chains: the owner it carries is that of the search for the state.\<close>

definition owner_part :: "latest \<Rightarrow> bool \<times> int \<times> 64 word" where
  "owner_part l = (case l of (st, seq, own) \<Rightarrow> (st \<noteq> FUTURE_ABSENT, own, seq))"

lemma owner_node_part: "owner_node key tid n (owner_part l) = owner_part (scan_node key tid n l)"
proof -
  have "fold (\<lambda>i acc. if keys n ! i \<noteq> key then acc
           else (case acc of (found, best_owner, best_seq) \<Rightarrow>
                   if \<not> found \<or> node_sequence n ! i > best_seq then (True, tid, node_sequence n ! i) else acc))
         is (owner_part l) =
      owner_part (fold (\<lambda>i acc. if keys n ! i \<noteq> key then acc
         else latest_update (entry_state (is_delete n ! i)) (node_sequence n ! i) tid acc) is l)" for "is"
  proof (induction "is" arbitrary: l)
    case (Cons i "is")
    have "(case owner_part l of (found, best_owner, best_seq) \<Rightarrow>
        if \<not> found \<or> node_sequence n ! i > best_seq then (True, tid, node_sequence n ! i) else owner_part l) =
      owner_part (latest_update (entry_state (is_delete n ! i)) (node_sequence n ! i) tid l)"
      by (cases l) (auto simp: owner_part_def latest_update_def)
    then show ?case using Cons.IH by simp
  qed simp
  then show ?thesis by (simp add: owner_node_def scan_node_def)
qed

lemma owner_chain_part:
  assumes "ptfo_wf (bt_ptfos bt ! tid)"
  shows "walk (fnodes (bt_ptfos bt ! tid)) (owner_node key (int tid)) (nnext (local_fut (bt_ptfos bt ! tid))) (owner_part l) =
    map_option owner_part (scan_chain bt key tid l)"
proof -
  obtain as where ok: "ptfo_ok (bt_ptfos bt ! tid) as" using assms by (auto simp: ptfo_wf_def)
  have "fold (\<lambda>a. owner_node key t (the (h a))) as (owner_part l) = owner_part (fold (\<lambda>a. scan_node key t (the (h a))) as l)" for h t
    by (induction as arbitrary: l) (simp_all add: owner_node_part)
  then show ?thesis by (simp add: scan_chain_def walk_chain [OF ptfo_frame(1) [OF ok]])
qed

lemma owner_via_ptfo_part:
  assumes "fut_ok bt"
  shows "future_hash_directed_owner_via_ptfo bt key =
    map_option (\<lambda>(st, seq, own). own) (future_hash_directed_state_via_ptfo bt key)"
proof -
  let ?f = "\<lambda>tid acc. do { v \<leftarrow> SearchKey (bt_hash bt ! tid) key; if v = -1 then Some acc
      else walk (fnodes (bt_ptfos bt ! tid)) (owner_node key (int tid)) (nnext (local_fut (bt_ptfos bt ! tid))) acc }"
  let ?g = "\<lambda>tid acc. do { v \<leftarrow> SearchKey (bt_hash bt ! tid) key; if v = -1 then Some acc else scan_chain bt key tid acc }"
  have st: "?f tid (owner_part l) = map_option owner_part (?g tid l)" if "tid < n_threads bt" for tid l
    using owner_chain_part [of bt tid key l] assms that by (cases "SearchKey (bt_hash bt ! tid) key") (auto simp: fut_ok_def)
  have "for_tids ?f tids (owner_part l) = map_option owner_part (for_tids ?g tids l)" if "set tids \<subseteq> {0..<n_threads bt}" for tids l
    using that
  proof (induction tids arbitrary: l)
    case (Cons tid tids)
    then show ?case using st [of tid l] by (cases "?g tid l") auto
  qed simp
  from this [of "[0..<n_threads bt]" latest_none] show ?thesis
    by (simp add: future_hash_directed_owner_via_ptfo_def future_hash_directed_state_via_ptfo_def latest_none_def
        owner_part_def option.map_comp comp_def case_prod_unfold)
qed

lemma owner_via_ptfo_newest:
  assumes "fut_ok bt" "inj_on op_sequence (set (all_pending bt))" "hash_covers bt"
  shows "future_hash_directed_owner_via_ptfo bt key = Some (fst (owner_of (newest key (all_pending bt))))"
  using owner_via_ptfo_part [OF assms(1), of key] via_ptfo_newest [OF assms, of key]
  by (cases "newest key (all_pending bt)") (auto simp: latest_of_def owner_of_def latest_none_def)

section \<open>Properties\<close>

text \<open>C19: Whatever is buffered, the four searches for the state of a key agree: walking every chain,
  walking the chains the hash tables name, reading every lookup directory, and reading the directories
  the hash tables name return the same state, sequence number and owner.\<close>

theorem buffered_searches_agree:
  assumes "impl_ok base im" "covered (tree im)"
  shows "future_latest_state (tree im) key = future_lookup_state (tree im) key \<and>
    future_hash_directed_state_via_ptfo (tree im) key = future_lookup_state (tree im) key \<and>
    future_hash_directed_state (tree im) key = future_lookup_state (tree im) key"
proof -
  have f: "fut_ok (tree im)" "\<forall>tid < n_threads (tree im). increasing (producer_ops (tree im) tid)"
    "inj_on op_sequence (set (all_pending (tree im)))" and c: "hash_covers (tree im)" "dir_covers (tree im)"
    using assms by (auto simp: impl_ok_def seqs_ok_def covered_def distinct_map)
  then show ?thesis
    using future_latest_state_newest [OF f(1,3), of key] via_ptfo_newest [OF f(1,3) c(1), of key]
      hash_directed_state_newest [OF f(1) c f(2), of key] future_lookup_state_newest [OF f(1) c(2) f(2), of key] by simp
qed

theorem buffered_searches_agree_witness:
  "\<exists>im. sample_run kF3N [Insert_key 7 0, Erase_key 7 1] = Some (Inr im) \<and>
     future_latest_state (tree im) 7 = future_lookup_state (tree im) 7"
proof -
  have "sample_allowed kF3N [Insert_key 7 0, Erase_key 7 1]" by code_simp
  then obtain im H n where im: "sample_run kF3N [Insert_key 7 0, Erase_key 7 1] = Some (Inr im)"
    "implements kF3N (\<lambda>_. 0) 4096 8 (spec [Insert_key 7 0, Erase_key 7 1]) H n im"
    using sample_implements by blast
  then show ?thesis using buffered_searches_agree [of 4096 im 7] by (auto simp: implements_def)
qed

text \<open>\<^verbatim>\<open>buffered_owner\<close> and the two searches over the directories name the same producer: the one that
  buffered the newest pending operation on the key, and -1 when no operation on it is pending.\<close>

theorem buffered_owner_newest:
  assumes "impl_ok base im" "covered (tree im)"
  shows "buffered_owner key im = Some (case newest key (all_pending (tree im)) of None \<Rightarrow> -1 | Some op \<Rightarrow> op_producer_id op) \<and>
    future_lookup_owner (tree im) key = buffered_owner key im \<and>
    future_hash_directed_owner (tree im) key = buffered_owner key im"
proof -
  have f: "fut_ok (tree im)" "\<forall>tid < n_threads (tree im). increasing (producer_ops (tree im) tid)"
    "inj_on op_sequence (set (all_pending (tree im)))" and c: "hash_covers (tree im)" "dir_covers (tree im)"
    using assms by (auto simp: impl_ok_def seqs_ok_def covered_def distinct_map)
  have "fst (owner_of (newest key (all_pending (tree im)))) =
      (case newest key (all_pending (tree im)) of None \<Rightarrow> -1 | Some op \<Rightarrow> op_producer_id op)"
    by (simp add: owner_of_def split: option.split)
  then show ?thesis
    unfolding buffered_owner_def
    using owner_via_ptfo_newest [OF f(1,3) c(1), of key] lookup_owner_newest [OF f(1) c(2) f(2), of key]
      hash_directed_owner_newest [OF f(1) c f(2), of key] by simp
qed

theorem buffered_owner_newest_witness:
  "\<exists>im. sample_run kF3N [Insert_key 7 0, Erase_key 7 1] = Some (Inr im) \<and>
     buffered_owner 7 im = Some (case newest 7 (all_pending (tree im)) of None \<Rightarrow> -1 | Some op \<Rightarrow> op_producer_id op)"
proof -
  have "sample_allowed kF3N [Insert_key 7 0, Erase_key 7 1]" by code_simp
  then obtain im H n where im: "sample_run kF3N [Insert_key 7 0, Erase_key 7 1] = Some (Inr im)"
    "implements kF3N (\<lambda>_. 0) 4096 8 (spec [Insert_key 7 0, Erase_key 7 1]) H n im"
    using sample_implements by blast
  then show ?thesis using buffered_owner_newest [of 4096 im 7] by (auto simp: implements_def)
qed

end
