(* ===== verification/Buffered_Hash_Index.thy ===== *)
theory Buffered_Hash_Index
  imports Lookup_Directory
begin

text \<open>
  \<^verbatim>\<open>src/buffered_hash_index.cpp\<close>: a standalone open-addressing table from keys to the owner and the
  state of their latest buffered operation.  A write outside the slot vector has no result.  The
  probing loops are the ones of the lookup directories, which the proofs reuse.
\<close>

section \<open>Model\<close>

datatype BufferedEntryState = kAbsent | kPresent | kTombstone

record Slot =
  bs_occupied :: bool
  bs_key :: int
  bs_owner :: int
  bs_state :: BufferedEntryState
  bs_sequence :: "64 word"

definition Slot_ctor :: Slot where
  "Slot_ctor = \<lparr>bs_occupied = False, bs_key = 0, bs_owner = -1, bs_state = kAbsent, bs_sequence = 0\<rparr>"

record BufferedEntry =
  be_key :: int
  be_owner :: int
  be_state :: BufferedEntryState
  be_sequence :: "64 word"

record BufferedHashIndex =
  bi_slots :: "Slot list"
  bi_size :: nat
  bi_next_sequence :: "64 word"

definition BufferedHashIndex_ctor :: "nat \<Rightarrow> BufferedHashIndex" where
  "BufferedHashIndex_ctor cap =
     \<lparr>bi_slots = replicate (if cap = 0 then 1 else cap) Slot_ctor, bi_size = 0, bi_next_sequence = 1\<rparr>"

definition normalize :: "nat \<Rightarrow> int \<Rightarrow> nat" where
  "normalize n key =
     (let m = int (if n = 0 then 1 else n); normalized = crem key m
      in nat (if normalized < 0 then normalized + m else normalized))"

fun find_loop :: "nat \<Rightarrow> Slot list \<Rightarrow> int \<Rightarrow> nat \<Rightarrow> nat \<Rightarrow> nat option" where
  "find_loop 0 slots key start index = None"
| "find_loop (Suc n) slots key start index =
     (if \<not> bs_occupied (slots ! index) then Some (length slots)
      else if bs_key (slots ! index) = key then Some index
      else (let index' = (index + 1) mod length slots in
            if index' = start then Some (length slots) else find_loop n slots key start index'))"

definition find_slot :: "Slot list \<Rightarrow> int \<Rightarrow> nat option" where
  "find_slot slots key =
     (if slots = [] then Some (length slots)
      else (let start = normalize (length slots) key in find_loop (length slots) slots key start start))"

fun alloc_loop :: "nat \<Rightarrow> Slot list \<Rightarrow> nat \<Rightarrow> nat \<Rightarrow> nat option" where
  "alloc_loop 0 slots start index = None"
| "alloc_loop (Suc n) slots start index =
     (if \<not> bs_occupied (slots ! index) then Some index
      else (let index' = (index + 1) mod length slots in
            if index' \<noteq> start then alloc_loop n slots start index' else Some (length slots)))"

definition find_or_allocate_slot :: "Slot list \<Rightarrow> int \<Rightarrow> nat option" where
  "find_or_allocate_slot slots key =
     do { existing \<leftarrow> find_slot slots key;
          if existing \<noteq> length slots then Some existing
          else (let start = normalize (length slots) key in alloc_loop (length slots) slots start start) }"

text \<open>\<^verbatim>\<open>upsert\<close> and \<^verbatim>\<open>erase\<close> differ in the state they record.\<close>

definition put :: "BufferedEntryState \<Rightarrow> BufferedHashIndex \<Rightarrow> int \<Rightarrow> int \<Rightarrow> BufferedHashIndex option" where
  "put st b key own =
     do { index \<leftarrow> find_or_allocate_slot (bi_slots b) key;
          if index \<ge> length (bi_slots b) then None
          else (let was_new = (\<not> bs_occupied (bi_slots b ! index) \<or> bs_state (bi_slots b ! index) = kAbsent)
                in Some (b\<lparr>bi_slots := (bi_slots b)[index := \<lparr>bs_occupied = True, bs_key = key, bs_owner = own,
                                                        bs_state = st, bs_sequence = bi_next_sequence b\<rparr>],
                           bi_next_sequence := bi_next_sequence b + 1,
                           bi_size := (if was_new then bi_size b + 1 else bi_size b)\<rparr>)) }"

definition upsert :: "BufferedHashIndex \<Rightarrow> int \<Rightarrow> int \<Rightarrow> BufferedHashIndex option" where
  "upsert b key own = put kPresent b key own"

definition erase :: "BufferedHashIndex \<Rightarrow> int \<Rightarrow> int \<Rightarrow> BufferedHashIndex option" where
  "erase b key own = put kTombstone b key own"

definition state_for :: "BufferedHashIndex \<Rightarrow> int \<Rightarrow> BufferedEntryState option" where
  "state_for b key =
     do { index \<leftarrow> find_slot (bi_slots b) key;
          Some (if index = length (bi_slots b) then kAbsent else bs_state (bi_slots b ! index)) }"

definition index_contains :: "BufferedHashIndex \<Rightarrow> int \<Rightarrow> bool option" where
  "index_contains b key = do { st \<leftarrow> state_for b key; Some (st = kPresent) }"

definition has_entry :: "BufferedHashIndex \<Rightarrow> int \<Rightarrow> bool option" where
  "has_entry b key = do { st \<leftarrow> state_for b key; Some (st \<noteq> kAbsent) }"

definition owner_for :: "BufferedHashIndex \<Rightarrow> int \<Rightarrow> int option" where
  "owner_for b key =
     do { index \<leftarrow> find_slot (bi_slots b) key;
          Some (if index = length (bi_slots b) \<or> bs_state (bi_slots b ! index) = kAbsent then -1
                else bs_owner (bi_slots b ! index)) }"

definition entries :: "BufferedHashIndex \<Rightarrow> BufferedEntry list" where
  "entries b =
     map (\<lambda>s. \<lparr>be_key = bs_key s, be_owner = bs_owner s, be_state = bs_state s, be_sequence = bs_sequence s\<rparr>)
       (filter (\<lambda>s. \<not> (\<not> bs_occupied s \<or> bs_state s = kAbsent)) (bi_slots b))"

definition clear_entry :: "BufferedHashIndex \<Rightarrow> int \<Rightarrow> BufferedHashIndex option" where
  "clear_entry b key =
     do { index \<leftarrow> find_slot (bi_slots b) key;
          Some (if index = length (bi_slots b) \<or> bs_state (bi_slots b ! index) = kAbsent then b
                else b\<lparr>bi_slots := (bi_slots b)[index := (bi_slots b ! index)\<lparr>bs_owner := -1, bs_state := kAbsent, bs_sequence := 0\<rparr>],
                       bi_size := (if bi_size b > 0 then bi_size b - 1 else bi_size b)\<rparr>) }"

definition index_clear :: "BufferedHashIndex \<Rightarrow> BufferedHashIndex" where
  "index_clear b = \<lparr>bi_slots = map (\<lambda>_. Slot_ctor) (bi_slots b), bi_size = 0, bi_next_sequence = 1\<rparr>"

section \<open>The table as a map\<close>

definition bs_holds :: "int \<Rightarrow> Slot \<Rightarrow> bool" where
  "bs_holds k s \<longleftrightarrow> bs_occupied s \<and> bs_key s = k"

lemma normalize_home: "0 < n \<Longrightarrow> normalize n key = dir_home n key"
proof -
  assume n: "0 < n"
  let ?c = "crem key (int n)"
  have "(if ?c < 0 then ?c + int n else ?c) = ?c mod int n"
  proof (cases "?c < 0")
    case True
    then have "(?c + int n) mod int n = ?c + int n"
      using crem_bounds [of "int n" key] n by (intro mod_pos_pos_trivial) linarith+
    then show ?thesis using True by simp
  next
    case False
    then show ?thesis using crem_bounds [of "int n" key] n by simp
  qed
  then show ?thesis using n crem_mod [of "int n" key] by (simp add: normalize_def dir_home_mod Let_def)
qed

interpretation bp: probe_table "\<lambda>s. \<not> bs_occupied s" bs_holds normalize
proof unfold_locales
  fix n k assume "0 < (n::nat)"
  then show "normalize n k < n" by (simp add: normalize_home dir_home_mod nat_less_iff)
qed (auto simp: bs_holds_def)

text \<open>A slot seen as a slot of a lookup directory.\<close>

definition as_slot :: "Slot \<Rightarrow> future_lookup_slot" where
  "as_slot s = lookup_slot_ctor\<lparr>occupied := bs_occupied s, slot_key := bs_key s\<rparr>"

lemma find_loop_probe:
  "index < length slots \<Longrightarrow>
   find_loop n slots key start index = lookup_probe n (map as_slot slots) key False start index"
proof (induction n arbitrary: index)
  case (Suc n)
  have "(index + 1) mod length slots < length slots" using Suc.prems(1) by (intro mod_less_divisor) linarith
  note IH = Suc.IH [OF this]
  show ?case using Suc.prems IH by (simp add: as_slot_def Let_def)
qed simp

lemma alloc_loop_probe:
  "index < length slots \<Longrightarrow> \<forall>s \<in> set slots. \<not> bs_holds key s \<Longrightarrow>
   alloc_loop n slots start index = lookup_probe n (map as_slot slots) key True start index"
proof (induction n arbitrary: index)
  case (Suc n)
  have "(index + 1) mod length slots < length slots" using Suc.prems(1) by (intro mod_less_divisor) linarith
  note IH = Suc.IH [OF this Suc.prems(2)]
  have "\<not> bs_holds key (slots ! index)" using Suc.prems by simp
  then show ?case using Suc.prems(1) IH by (auto simp: as_slot_def bs_holds_def Let_def)
qed simp

lemma look_as_slot: "slots \<noteq> [] \<Longrightarrow> dp.look (map as_slot slots) key = bp.look slots key"
proof -
  assume ne: "slots \<noteq> []"
  have "(\<not> occupied (map as_slot slots ! i) \<or> slot_holds key (map as_slot slots ! i)) =
      (\<not> bs_occupied (slots ! i) \<or> bs_holds key (slots ! i))" if "i < length slots" for i
    using that by (simp add: as_slot_def slot_holds_def bs_holds_def)
  then have "find (\<lambda>i. \<not> occupied (map as_slot slots ! i) \<or> slot_holds key (map as_slot slots ! i))
      (circle (length slots) (dir_home (length slots) key)) =
     find (\<lambda>i. \<not> bs_occupied (slots ! i) \<or> bs_holds key (slots ! i)) (circle (length slots) (dir_home (length slots) key))"
    by (intro find_cong_set) (simp add: set_circle)
  then show ?thesis using ne by (simp add: dp.look_def bp.look_def first_stop_def normalize_home)
qed

definition index_ok :: "BufferedHashIndex \<Rightarrow> bool" where
  "index_ok b \<longleftrightarrow> bi_slots b \<noteq> [] \<and> bp.placed (bi_slots b) \<and> bi_size b = length (entries b)"

definition index_full :: "BufferedHashIndex \<Rightarrow> bool" where
  "index_full b \<longleftrightarrow> (\<forall>s \<in> set (bi_slots b). bs_occupied s)"

text \<open>The recorded slot of a key.\<close>

definition index_get :: "BufferedHashIndex \<Rightarrow> int \<Rightarrow> Slot option" where
  "index_get b k = bp.getc (bi_slots b) k"

lemma find_slot_get:
  fixes b :: BufferedHashIndex
  assumes "bi_slots b \<noteq> []"
  obtains i where "find_slot (bi_slots b) key = Some i"
    "case index_get b key of None \<Rightarrow> i = length (bi_slots b) | Some s \<Rightarrow> i < length (bi_slots b) \<and> bi_slots b ! i = s \<and> bp.look (bi_slots b) key = Some i"
proof -
  let ?s = "bi_slots b"
  have n: "0 < length ?s" using assms by simp
  have "find_slot ?s key = Some (case bp.look ?s key of None \<Rightarrow> length ?s
      | Some j \<Rightarrow> if bs_occupied (?s ! j) then j else length ?s)"
    using lookup_probe_ok [of "map as_slot ?s" key False] look_as_slot [OF assms] assms
      find_loop_probe [OF bp.home_less [OF n, of key], where n = "length ?s" and key = key and start = "normalize (length ?s) key"] bp.look_stop [of ?s key]
    by (auto simp: find_slot_def Let_def normalize_home as_slot_def split: option.splits)
  then show thesis
    by (rule that) (use bp.look_stop [of ?s key] in \<open>auto simp: index_get_def bp.getc_def bs_holds_def split: option.splits\<close>)
qed

lemma find_or_allocate_get:
  fixes b :: BufferedHashIndex
  assumes ne: "bi_slots b \<noteq> []" and pl: "bp.placed (bi_slots b)"
  shows "find_or_allocate_slot (bi_slots b) key =
    Some (case bp.look (bi_slots b) key of None \<Rightarrow> length (bi_slots b) | Some j \<Rightarrow> j)"
proof -
  let ?s = "bi_slots b"
  have n: "0 < length ?s" using ne by simp
  obtain i where i: "find_slot ?s key = Some i"
    "case index_get b key of None \<Rightarrow> i = length ?s | Some s \<Rightarrow> i < length ?s \<and> ?s ! i = s \<and> bp.look ?s key = Some i"
    by (rule find_slot_get [OF ne])
  show ?thesis
  proof (cases "index_get b key")
    case None
    then have "\<forall>s \<in> set ?s. \<not> bs_holds key s"
      using bp.getc_None [OF pl, of key] by (auto simp: index_get_def in_set_conv_nth)
    then show ?thesis
      using i None lookup_probe_ok [of "map as_slot ?s" key True] look_as_slot [OF ne] ne
        alloc_loop_probe [OF bp.home_less [OF n, of key], where n = "length ?s" and key = key and start = "normalize (length ?s) key"]
      by (auto simp: find_or_allocate_slot_def Let_def normalize_home split: option.splits)
  next
    case (Some s)
    then show ?thesis using i by (simp add: find_or_allocate_slot_def)
  qed
qed

section \<open>The operations\<close>

lemma ctor_index_ok: "index_ok (BufferedHashIndex_ctor cap)" "index_get (BufferedHashIndex_ctor cap) k = None"
  using bp.placed_free [of "replicate _ Slot_ctor"] bp.getc_free [of "replicate _ Slot_ctor" k]
  by (auto simp: index_ok_def index_get_def BufferedHashIndex_ctor_def entries_def Slot_ctor_def)

lemma filter_update_length:
  "i < length xs \<Longrightarrow> length (filter P (xs[i := x])) + (if P (xs ! i) then 1 else 0) =
     length (filter P xs) + (if P x then 1 else 0)"
proof -
  assume i: "i < length xs"
  have "length (filter P xs) = length (filter P (take i xs @ xs ! i # drop (Suc i) xs))"
    using id_take_nth_drop [OF i] by simp
  then show ?thesis using i by (simp add: upd_conv_take_nth_drop)
qed

lemma put_get:
  assumes ok: "index_ok b" and st: "st \<noteq> kAbsent"
  shows "put st b key own = None \<longleftrightarrow> index_full b \<and> index_get b key = None"
    "put st b key own = Some b' \<Longrightarrow> index_ok b' \<and> length (bi_slots b') = length (bi_slots b) \<and>
       index_get b' k = (if k = key then Some \<lparr>bs_occupied = True, bs_key = key, bs_owner = own, bs_state = st,
         bs_sequence = bi_next_sequence b\<rparr> else index_get b k)"
proof -
  let ?s = "bi_slots b" and ?n = "\<lparr>bs_occupied = True, bs_key = key, bs_owner = own, bs_state = st, bs_sequence = bi_next_sequence b\<rparr>"
  have ne: "?s \<noteq> []" and pl: "bp.placed ?s" and sz: "bi_size b = length (entries b)" using ok by (auto simp: index_ok_def)
  note fa = find_or_allocate_get [OF ne pl, of key]
  show "put st b key own = None \<longleftrightarrow> index_full b \<and> index_get b key = None"
  proof (cases "bp.look ?s key")
    case None
    then have "index_full b" "index_get b key = None"
      using bp.look_room [of _ ?s key] unfolding index_full_def index_get_def bp.getc_def
      by (metis in_set_conv_nth, simp)
    then show ?thesis using fa None by (simp add: put_def)
  next
    case (Some i)
    then have "i < length ?s" "\<not> bs_occupied (?s ! i) \<or> bs_holds key (?s ! i)" using bp.look_stop by blast+
    then have "\<not> (index_full b \<and> index_get b key = None)"
      using Some by (auto simp: index_full_def index_get_def bp.getc_def)
    then show ?thesis using fa Some \<open>i < length ?s\<close> by (auto simp: put_def Let_def)
  qed
  assume p: "put st b key own = Some b'"
  obtain i where i: "bp.look ?s key = Some i" "i < length ?s"
    using p fa bp.look_stop [of ?s key] by (cases "bp.look ?s key") (auto simp: put_def)
  have b': "b' = b\<lparr>bi_slots := ?s[i := ?n], bi_next_sequence := bi_next_sequence b + 1,
      bi_size := (if \<not> bs_occupied (?s ! i) \<or> bs_state (?s ! i) = kAbsent then bi_size b + 1 else bi_size b)\<rparr>"
    using p fa i by (simp add: put_def Let_def)
  have h: "bs_holds key ?n" by (simp add: bs_holds_def)
  have look: "bp.look ?s key = Some i \<or> bp.look ?s key = None \<and> i = normalize (length ?s) key" using i(1) by simp
  have idle: "\<not> bs_holds k (?s ! i)" if "k \<noteq> key" using bp.look_stop [OF i(1)] that by (auto simp: bs_holds_def)
  have "index_get b' k = (if k = key then Some ?n else index_get b k)"
    using bp.getc_update [OF pl i(2) h look, of k] idle by (auto simp: index_get_def b')
  moreover have "bp.placed (?s[i := ?n])" by (rule bp.placed_update(1) [OF pl i(2) h look])
  moreover have "bi_size b' = length (entries b')"
    using filter_update_length [OF i(2), of "\<lambda>s. \<not> (\<not> bs_occupied s \<or> bs_state s = kAbsent)" ?n] sz st
    by (auto simp: b' entries_def split: if_splits)
  ultimately show "index_ok b' \<and> length (bi_slots b') = length ?s \<and> index_get b' k = (if k = key then Some ?n else index_get b k)"
    using ne by (simp add: index_ok_def b')
qed

lemma state_for_get:
  assumes "index_ok b"
  shows "state_for b key = Some (case index_get b key of None \<Rightarrow> kAbsent | Some s \<Rightarrow> bs_state s)"
    "owner_for b key = Some (case index_get b key of None \<Rightarrow> -1 | Some s \<Rightarrow> if bs_state s = kAbsent then -1 else bs_owner s)"
proof -
  have ne: "bi_slots b \<noteq> []" using assms by (simp add: index_ok_def)
  obtain i where "find_slot (bi_slots b) key = Some i"
    "case index_get b key of None \<Rightarrow> i = length (bi_slots b) | Some s \<Rightarrow> i < length (bi_slots b) \<and> bi_slots b ! i = s \<and> bp.look (bi_slots b) key = Some i"
    by (rule find_slot_get [OF ne])
  then show "state_for b key = Some (case index_get b key of None \<Rightarrow> kAbsent | Some s \<Rightarrow> bs_state s)"
    "owner_for b key = Some (case index_get b key of None \<Rightarrow> -1 | Some s \<Rightarrow> if bs_state s = kAbsent then -1 else bs_owner s)"
    by (auto simp: state_for_def owner_for_def split: option.splits)
qed

text \<open>Clearing an entry makes the key absent but keeps its slot occupied.\<close>

lemma clear_entry_get:
  assumes ok: "index_ok b"
  obtains b' where "clear_entry b key = Some b'" "index_ok b'" "index_full b' = index_full b"
    "state_for b' key = Some kAbsent" "\<And>k. k \<noteq> key \<Longrightarrow> index_get b' k = index_get b k"
proof -
  let ?s = "bi_slots b"
  have ne: "?s \<noteq> []" and pl: "bp.placed ?s" and sz: "bi_size b = length (entries b)" using ok by (auto simp: index_ok_def)
  obtain i where i: "find_slot ?s key = Some i"
    "case index_get b key of None \<Rightarrow> i = length ?s | Some s \<Rightarrow> i < length ?s \<and> ?s ! i = s \<and> bp.look ?s key = Some i"
    by (rule find_slot_get [OF ne])
  show thesis
  proof (cases "\<exists>s. index_get b key = Some s \<and> bs_state s \<noteq> kAbsent")
    case False
    then have "clear_entry b key = Some b" using i by (auto simp: clear_entry_def split: option.splits)
    moreover have "state_for b key = Some kAbsent" using False state_for_get(1) [OF ok, of key] by (auto split: option.splits)
    ultimately show ?thesis using that ok by blast
  next
    case True
    then obtain s where s: "index_get b key = Some s" "bs_state s \<noteq> kAbsent" by blast
    then have il: "i < length ?s" "?s ! i = s" "bp.look ?s key = Some i" using i(2) by auto
    let ?n = "s\<lparr>bs_owner := -1, bs_state := kAbsent, bs_sequence := 0\<rparr>"
    have hs: "bs_holds key s" using s(1) bp.getc_iff [OF pl, of key s] by (auto simp: index_get_def)
    then have h: "bs_holds key ?n" by (simp add: bs_holds_def)
    have look: "bp.look ?s key = Some i \<or> bp.look ?s key = None \<and> i = normalize (length ?s) key" using il by simp
    let ?b = "b\<lparr>bi_slots := ?s[i := ?n], bi_size := (if bi_size b > 0 then bi_size b - 1 else bi_size b)\<rparr>"
    have run: "clear_entry b key = Some ?b" using i(1) il s(2) by (simp add: clear_entry_def)
    have get: "index_get ?b k = (if k = key then Some ?n else index_get b k)" for k
      using bp.getc_update [OF pl il(1) h look, of k] hs il(2) by (auto simp: index_get_def bs_holds_def)
    have fl: "length (filter (\<lambda>s. \<not> (\<not> bs_occupied s \<or> bs_state s = kAbsent)) (?s[i := ?n])) + 1 = bi_size b"
      using filter_update_length [OF il(1), of "\<lambda>s. \<not> (\<not> bs_occupied s \<or> bs_state s = kAbsent)" ?n] sz s(2) hs il(2)
      by (simp add: entries_def bs_holds_def)
    have ok': "index_ok ?b"
      using bp.placed_update(1) [OF pl il(1) h look] ne fl by (auto simp: index_ok_def entries_def)
    have "index_full ?b = index_full b"
      using hs il by (auto simp: index_full_def bs_holds_def all_set_conv_all_nth nth_list_update)
    then show ?thesis using that [OF run ok'] get state_for_get(1) [OF ok', of key] by simp
  qed
qed

section \<open>Properties of the buffered hash index\<close>

text \<open>\<^verbatim>\<open>upsert\<close> writes out of bounds exactly when every slot is occupied and the key is new.
  Otherwise it returns, the index then answers that the key is present with the given owner, and
  answers the state of every other key as before.\<close>

theorem upsert_correct:
  assumes "index_ok b"
  shows "if index_full b \<and> index_get b key = None then upsert b key own = None
    else \<exists>b'. upsert b key own = Some b' \<and> index_ok b' \<and> state_for b' key = Some kPresent \<and>
           owner_for b' key = Some own \<and> (\<forall>k. k \<noteq> key \<longrightarrow> state_for b' k = state_for b k)"
proof (cases "index_full b \<and> index_get b key = None")
  case True
  then show ?thesis using put_get(1) [OF assms, of kPresent key own] by (simp add: upsert_def)
next
  case False
  then obtain b' where b': "put kPresent b key own = Some b'" using put_get(1) [OF assms, of kPresent key own] by auto
  have p: "index_ok b'" "index_get b' k = (if k = key then Some \<lparr>bs_occupied = True, bs_key = key, bs_owner = own,
      bs_state = kPresent, bs_sequence = bi_next_sequence b\<rparr> else index_get b k)" for k
    using put_get(2) [OF assms _ b', of k] by auto
  then show ?thesis using False b' state_for_get [OF p(1)] state_for_get [OF assms] by (auto simp: upsert_def)
qed

theorem upsert_correct_witness:
  "\<exists>b'. upsert (BufferedHashIndex_ctor 2) 9 3 = Some b' \<and> state_for b' 9 = Some kPresent"
proof -
  have "\<not> index_full (BufferedHashIndex_ctor 2)"
    by (simp add: index_full_def BufferedHashIndex_ctor_def Slot_ctor_def numeral_eq_Suc)
  then show ?thesis using upsert_correct [OF ctor_index_ok(1), of 2 9 3] by auto
qed

text \<open>Clearing an entry never frees its slot: the key is absent afterwards and every other key
  unchanged, but an index that was full stays full, so that a new key still cannot be inserted.\<close>

theorem clear_entry_keeps_full:
  assumes "index_ok b" "index_full b" "new \<noteq> key" "index_get b new = None"
  shows "\<exists>b'. clear_entry b key = Some b' \<and> index_ok b' \<and> state_for b' key = Some kAbsent \<and>
    upsert b' new own = None"
proof (rule clear_entry_get [OF assms(1), of key])
  fix b'
  assume b': "clear_entry b key = Some b'" "index_ok b'" "index_full b' = index_full b" "state_for b' key = Some kAbsent"
    "\<And>k. k \<noteq> key \<Longrightarrow> index_get b' k = index_get b k"
  then show ?thesis using put_get(1) [OF b'(2), of kPresent new own] assms(2-4) by (simp add: upsert_def)
qed

theorem clear_entry_keeps_full_witness:
  "\<exists>b b'. upsert (BufferedHashIndex_ctor 1) 3 0 = Some b \<and> clear_entry b 3 = Some b' \<and> upsert b' 7 0 = None"
proof -
  have "\<not> index_full (BufferedHashIndex_ctor 1)"
    by (simp add: index_full_def BufferedHashIndex_ctor_def Slot_ctor_def)
  then obtain b where b: "put kPresent (BufferedHashIndex_ctor 1) 3 0 = Some b"
    using put_get(1) [OF ctor_index_ok(1), of kPresent 1 3 0] by auto
  have g: "index_ok b" "index_get b 7 = None"
    using put_get(2) [OF ctor_index_ok(1) _ b, of 7] ctor_index_ok(2) by auto
  have "map_option index_full (put kPresent (BufferedHashIndex_ctor 1) 3 0) = Some True" by code_simp
  then have "index_full b" using b by simp
  then show ?thesis using clear_entry_keeps_full [OF g(1) _ _ g(2), of 3 0] b by (auto simp: upsert_def)
qed

end
