(* ===== verification/Recovery.thy ===== *)
theory Recovery
  imports Drains
begin

text \<open>
  The constructor of the tree in the build with persistent memory (\<^verbatim>\<open>core/btree.h\<close>,
  \<^verbatim>\<open>include/f3tree/pmem_layout.h\<close>): creating a pool, validating an existing one, and the recovery pass
  that rebuilds the hash tables and lookup directories from the durable chains.  The file the pool
  library opens, absent or holding a pool, is an argument, as are the addresses it allocates from.
  Resetting the mutexes of the pages changes no data of the model.
\<close>

section \<open>Pools\<close>

record pool =
  schema_version :: "64 word"
  seq_counter :: "64 word"
  pm_n_threads :: nat
  pm_hash_capacity :: nat
  pm_height :: nat
  root_page :: int
  pm_pages :: heap
  pm_next :: int
  pm_futs :: "ptfo list"

definition kPmemSchemaVersion :: "64 word" where
  "kPmemSchemaVersion = 1"

definition pool_create :: "int \<Rightarrow> nat \<Rightarrow> nat \<Rightarrow> pool" where
  "pool_create base n cap =
     \<lparr>schema_version = kPmemSchemaVersion, seq_counter = 0, pm_n_threads = n, pm_hash_capacity = cap, pm_height = 1,
      root_page = 0, pm_pages = (\<lambda>_. None), pm_next = base, pm_futs = []\<rparr>"

definition pool_validate :: "pool \<Rightarrow> nat \<Rightarrow> error + pool" where
  "pool_validate pl n =
     (if schema_version pl \<noteq> kPmemSchemaVersion
      then Inl (runtime_error ''F3_PMDK: pool schema version mismatch (see DECISION-013)'')
      else if pm_n_threads pl \<noteq> n
      then Inl (runtime_error ''F3_PMDK: pool n_threads mismatch with RuntimeConfig (resize on reopen is not supported)'')
      else Inr pl)"

text \<open>The transaction that allocates the root page and the chains of a pool without a root.\<close>

definition pool_init :: "nat \<Rightarrow> pool \<Rightarrow> pool" where
  "pool_init n pl =
     (let (r, t) = new_page \<lparr>root = 0, height = 1, pages = pm_pages pl, next_page = pm_next pl\<rparr> (page_ctor 0)
      in pl\<lparr>root_page := r, pm_pages := pages t, pm_next := next_page t, pm_futs := replicate n ptfo_ctor\<rparr>)"

section \<open>The recovery pass\<close>

record recovery =
  rv_hash :: HashMapTable
  rv_dirs :: "directory list"
  rv_max :: "64 word"
  rv_entries :: int

definition recover_slot :: "directory list \<Rightarrow> future_buffered_op \<Rightarrow> int \<Rightarrow> directory list option" where
  "recover_slot dirs op tid =
     do { (index, dirs') \<leftarrow> future_lookup_index dirs (op_key op) tid True;
          Some (if index \<noteq> length (dirs' ! nat tid)
                then (if \<not> occupied (dirs' ! nat tid ! index) \<or> op_sequence op > sequence (dirs' ! nat tid ! index)
                      then dirs'[nat tid := (dirs' ! nat tid)[index :=
                             \<lparr>occupied = True, slot_key = op_key op, owner = tid,
                              state = (if op_is_delete op then FUTURE_TOMBSTONE else FUTURE_PRESENT),
                              sequence = op_sequence op\<rparr>]]
                      else dirs')
                else dirs') }"

definition recover_entry :: "int \<Rightarrow> future_buffered_op \<Rightarrow> recovery \<Rightarrow> recovery option" where
  "recover_entry tid op rv =
     do { h \<leftarrow> Insert (rv_hash rv) (op_key op) tid;
          dirs \<leftarrow> recover_slot (rv_dirs rv) op tid;
          Some \<lparr>rv_hash = h, rv_dirs = dirs,
                rv_max = (if op_sequence op > rv_max rv then op_sequence op else rv_max rv),
                rv_entries = rv_entries rv + 1\<rparr> }"

fun recover_ops :: "int \<Rightarrow> future_buffered_op list \<Rightarrow> recovery \<Rightarrow> recovery option" where
  "recover_ops tid [] rv = Some rv"
| "recover_ops tid (op # os) rv = do { rv' \<leftarrow> recover_entry tid op rv; recover_ops tid os rv' }"

definition recover_chain :: "int \<Rightarrow> ptfo \<Rightarrow> recovery \<Rightarrow> recovery option" where
  "recover_chain tid p rv =
     do { rv' \<leftarrow> walk (fnodes p) (\<lambda>n acc. do { r \<leftarrow> acc; recover_ops tid (node_ops tid n) r }) (nnext (local_fut p)) (Some rv);
          rv' }"

fun recover_threads :: "nat list \<Rightarrow> btree \<Rightarrow> 64 word \<Rightarrow> (64 word \<times> btree) option" where
  "recover_threads [] bt max_seq = Some (max_seq, bt)"
| "recover_threads (tid # tids) bt max_seq =
     (let p = bt_ptfos bt ! tid
      in do { rv \<leftarrow> recover_chain (int tid) p
                \<lparr>rv_hash = bt_hash bt ! tid, rv_dirs = bt_dirs bt, rv_max = max_seq, rv_entries = 0\<rparr>;
              recover_threads tids
                (bt\<lparr>bt_hash := (bt_hash bt)[tid := rv_hash rv], bt_dirs := rv_dirs rv,
                    bt_ptfos := (bt_ptfos bt)[tid := p\<lparr>local_fut := (local_fut p)\<lparr>entry_count := rv_entries rv\<rparr>\<rparr>]\<rparr>)
                (rv_max rv) })"

definition resume_sequence :: "64 word \<Rightarrow> 64 word \<Rightarrow> 64 word" where
  "resume_sequence durable_seq max_seq = (if durable_seq > max_seq then durable_seq else max_seq) + 1000000"

text \<open>The constructor; \<open>alive\<close> says that another instance holds the pool context of the process.\<close>

definition pm_btree_ctor ::
  "bool \<Rightarrow> int \<Rightarrow> pool option \<Rightarrow> int \<Rightarrow> int \<Rightarrow> int \<Rightarrow> (error + btree \<times> pool) option" where
  "pm_btree_ctor alive base file num_threads num_eval_threads hash_capacity =
     (let n = (if num_threads > 0 then nat num_threads else 1);
          cap = (if hash_capacity > 0 then hash_capacity else 1)
      in if alive then Some (Inl (runtime_error ''F3_PMDK: only one btree instance per process is supported (DECISION-009). Destroy the first tree before constructing a second, or build without PMDK=1 for multi-instance testing.''))
         else (case (case file of None \<Rightarrow> Inr (pool_create base n (nat cap)) | Some pl \<Rightarrow> pool_validate pl n) of
                 Inl e \<Rightarrow> Some (Inl e)
               | Inr pl \<Rightarrow>
                   (let reopen = (file \<noteq> None \<and> root_page pl \<noteq> 0);
                        pl1 = (if root_page pl = 0 then pool_init n pl else pl);
                        bt = \<lparr>bt_tree = \<lparr>root = root_page pl1, height = (if root_page pl = 0 then 1 else pm_height pl1),
                                         pages = pm_pages pl1, next_page = pm_next pl1\<rparr>,
                              bt_ptfos = pm_futs pl1,
                              bt_hash = replicate n (hash_init HashMapTable_ctor cap),
                              bt_dirs = replicate n (replicate (nat cap) lookup_slot_ctor),
                              bt_eval_threads = (if num_eval_threads > 0 then nat num_eval_threads else 1),
                              bt_is_Done = False\<rparr>
                    in if \<not> reopen then Some (Inr (bt, pl1))
                       else do { (max_seq, bt') \<leftarrow> recover_threads [0..<n] bt 0;
                                 Some (Inr (bt', pl1\<lparr>seq_counter := resume_sequence (seq_counter pl1) max_seq,
                                                      pm_futs := bt_ptfos bt'\<rparr>)) })))"

section \<open>One chain\<close>

lemma recover_slot_get:
  assumes tid: "tid < length dirs" and ok: "dir_ok (dirs ! tid)"
    and room: "\<not> dir_full (dirs ! tid) \<or> dir_get (dirs ! tid) (op_key op) \<noteq> None"
  obtains dir' where "recover_slot dirs op (int tid) = Some (dirs[tid := dir'])" "dir_ok dir'"
    "length dir' = length (dirs ! tid)" "dir_used dir' \<le> dir_used (dirs ! tid) + 1"
    "\<And>k. dir_get dir' k = (if k = op_key op \<and> (case dir_get (dirs ! tid) k of None \<Rightarrow> True | Some s \<Rightarrow> sequence s < op_sequence op)
       then Some \<lparr>occupied = True, slot_key = op_key op, owner = int tid,
         state = (if op_is_delete op then FUTURE_TOMBSTONE else FUTURE_PRESENT), sequence = op_sequence op\<rparr>
       else dir_get (dirs ! tid) k)"
proof -
  let ?d = "dirs ! tid" and ?k = "op_key op"
  have ne: "?d \<noteq> []" using ok by (simp add: dir_ok_def)
  define i where "i = (case dp.look ?d ?k of None \<Rightarrow> length ?d | Some j \<Rightarrow> j)"
  have ix: "future_lookup_index dirs ?k (int tid) True = Some (i, dirs)"
    using ne tid lookup_probe_ok [OF ne, of ?k True] by (simp add: future_lookup_index_def Let_def i_def split: option.splits)
  have get: "dir_get ?d ?k = (if i < length ?d \<and> occupied (?d ! i) then Some (?d ! i) else None)"
    using dp.look_stop [of ?d ?k] by (auto simp: dir_get_def dp.getc_def i_def slot_holds_def split: option.splits)
  show thesis
  proof (cases "i < length ?d \<and> occupied (?d ! i) \<and> \<not> op_sequence op > sequence (?d ! i)")
    case True
    then have "recover_slot dirs op (int tid) = Some (dirs[tid := ?d])" using ix by (simp add: recover_slot_def)
    then show ?thesis by (rule that) (use ok True get in auto)
  next
    case False
    obtain dir' where rec: "record_lookup dirs ?k (int tid) (op_is_delete op) (op_sequence op) = Some (dirs[tid := dir'])" "dir_ok dir'"
      "length dir' = length ?d"
      "\<And>k. \<not> dir_full ?d \<or> dir_get ?d ?k \<noteq> None \<Longrightarrow>
         dir_get dir' k = (if k = ?k then Some \<lparr>occupied = True, slot_key = ?k, owner = int tid,
           state = (if op_is_delete op then FUTURE_TOMBSTONE else FUTURE_PRESENT), sequence = op_sequence op\<rparr>
           else dir_get ?d k)"
      by (rule record_lookup_get [OF tid ok, of ?k "op_is_delete op" "op_sequence op"]) (rule that)
    have same: "recover_slot dirs op (int tid) = record_lookup dirs ?k (int tid) (op_is_delete op) (op_sequence op)"
    proof (cases "i = length ?d")
      case True
      then show ?thesis using ix by (simp add: recover_slot_def record_lookup_def)
    next
      case i: False
      then have "i < length ?d" using dp.look_stop [of ?d ?k] by (auto simp: i_def split: option.splits)
      then show ?thesis using ix False by (auto simp: recover_slot_def record_lookup_def)
    qed
    have "dir_used dir' \<le> dir_used ?d + 1" using record_lookup_used(1) [OF tid ne rec(1)] tid by simp
    then show ?thesis using that [of dir'] rec same False get room by (auto split: if_splits)
  qed
qed

text \<open>What the pass has rebuilt after the operations \<open>os\<close> of producer \<open>tid\<close>.\<close>

definition rebuilt :: "directory list \<Rightarrow> nat \<Rightarrow> nat \<Rightarrow> 64 word \<Rightarrow> future_buffered_op list \<Rightarrow> recovery \<Rightarrow> bool" where
  "rebuilt dirs tid cap mx os rv \<longleftrightarrow>
     length (rv_dirs rv) = length dirs \<and> (\<forall>j. j \<noteq> tid \<longrightarrow> rv_dirs rv ! j = dirs ! j) \<and>
     dir_ok (rv_dirs rv ! tid) \<and> length (rv_dirs rv ! tid) = cap \<and> dir_used (rv_dirs rv ! tid) \<le> length os \<and>
     (\<forall>k. dir_get (rv_dirs rv ! tid) k = map_option dir_slot (newest k os)) \<and>
     table_ok (rv_hash rv) \<and> capacity (rv_hash rv) = cap \<and> hash_used (rv_hash rv) \<le> length os \<and>
     (\<forall>op \<in> set os. table_get (rv_hash rv) (op_key op) = Some (int tid)) \<and>
     rv_max rv = fold max (map op_sequence os) mx \<and> rv_entries rv = int (length os)"

lemma not_full:
  assumes "table_ok h" "hash_used h < capacity h"
  shows "\<not> table_full h"
proof -
  obtain cells where c: "ht h = Some cells" "length cells = capacity h" by (rule table_okE [OF assms(1)])
  then have "length (filter (\<lambda>c. c \<noteq> HNull) cells) < length cells" using assms(2) by (simp add: hash_used_def)
  then show ?thesis using filter_short c(1) by (fastforce simp: table_full_def)
qed

lemma dir_not_full: "dir_used d < length d \<Longrightarrow> \<not> dir_full d"
  using filter_short [of occupied d] by (auto simp: dir_used_def dir_full_def)

lemma recover_entry_ok:
  assumes rv: "rebuilt dirs tid cap mx os rv" and tid: "tid < length dirs" and room: "length os < cap"
    and op: "op_producer_id op = int tid"
  shows "\<exists>rv'. recover_entry (int tid) op rv = Some rv' \<and> rebuilt dirs tid cap mx (os @ [op]) rv'"
proof -
  note R = rv [unfolded rebuilt_def]
  have t: "tid < length (rv_dirs rv)" "dir_ok (rv_dirs rv ! tid)" "table_ok (rv_hash rv)" using R tid by auto
  have nf: "\<not> dir_full (rv_dirs rv ! tid)" "\<not> table_full (rv_hash rv)"
    using R room dir_not_full [of "rv_dirs rv ! tid"] not_full [OF t(3)] by auto
  obtain h where h: "Insert (rv_hash rv) (op_key op) (int tid) = Some h" "table_ok h" "table_get h (op_key op) = Some (int tid)"
    "\<And>k'. k' \<noteq> op_key op \<Longrightarrow> \<not> table_full (rv_hash rv) \<or> table_get (rv_hash rv) (op_key op) \<noteq> None \<Longrightarrow>
       table_get h k' = table_get (rv_hash rv) k'"
    by (rule Insert_get [OF t(3), of "op_key op" "int tid"]) (rule that)
  obtain d where d: "recover_slot (rv_dirs rv) op (int tid) = Some ((rv_dirs rv)[tid := d])" "dir_ok d"
    "length d = length (rv_dirs rv ! tid)" "dir_used d \<le> dir_used (rv_dirs rv ! tid) + 1"
    "\<And>k. dir_get d k = (if k = op_key op \<and> (case dir_get (rv_dirs rv ! tid) k of None \<Rightarrow> True | Some s \<Rightarrow> sequence s < op_sequence op)
       then Some \<lparr>occupied = True, slot_key = op_key op, owner = int tid,
         state = (if op_is_delete op then FUTURE_TOMBSTONE else FUTURE_PRESENT), sequence = op_sequence op\<rparr>
       else dir_get (rv_dirs rv ! tid) k)"
    by (rule recover_slot_get [OF t(1,2) disjI1 [OF nf(1)]]) (rule that)
  have g: "dir_get d k = map_option dir_slot (newest k (os @ [op]))" for k
    using R d(5) [of k] op
    by (cases "newest k os") (auto simp: newest_snoc newest_step_def dir_slot_def entry_state_def)
  have hg: "table_get h (op_key o') = Some (int tid)" if "o' \<in> set (os @ [op])" for o'
    using that R h(3,4) nf(2) by (cases "op_key o' = op_key op") auto
  define rv' where "rv' = \<lparr>rv_hash = h, rv_dirs = (rv_dirs rv)[tid := d],
    rv_max = (if op_sequence op > rv_max rv then op_sequence op else rv_max rv), rv_entries = rv_entries rv + 1\<rparr>"
  have "recover_entry (int tid) op rv = Some rv'" using h(1) d(1) by (simp add: recover_entry_def rv'_def)
  moreover have "(if op_sequence op > rv_max rv then op_sequence op else rv_max rv) = max (op_sequence op) (rv_max rv)"
    by (auto simp: max_def)
  then have "rebuilt dirs tid cap mx (os @ [op]) rv'"
    unfolding rebuilt_def rv'_def using R g hg d(2-4) h(2) tid Insert_used [OF t(3) h(1)] by simp
  ultimately show ?thesis by blast
qed

lemma recover_ops_ok:
  assumes "rebuilt dirs tid cap mx os rv" "tid < length dirs" "length os + length os' \<le> cap"
    "\<forall>op \<in> set os'. op_producer_id op = int tid"
  shows "\<exists>rv'. recover_ops (int tid) os' rv = Some rv' \<and> rebuilt dirs tid cap mx (os @ os') rv'"
  using assms
proof (induction os' arbitrary: os rv)
  case (Cons op os')
  obtain rv1 where "recover_entry (int tid) op rv = Some rv1" "rebuilt dirs tid cap mx (os @ [op]) rv1"
    using recover_entry_ok [OF Cons.prems(1,2), of op] Cons.prems(3,4) by auto
  then show ?case using Cons.IH [of "os @ [op]" rv1] Cons.prems by auto
qed simp

lemma recover_ops_append:
  "recover_ops tid (os @ os') rv = Option.bind (recover_ops tid os rv) (recover_ops tid os')"
  by (induction os arbitrary: rv) (auto simp: bind_assoc Option.bind_eq_None_conv split: Option.bind_split)

lemma recover_chain_ops:
  assumes "ptfo_wf p"
  shows "recover_chain tid p rv = recover_ops tid (chain_order tid p) rv"
proof -
  obtain as where ok: "ptfo_ok p as" using assms by (auto simp: ptfo_wf_def)
  have "fold (\<lambda>a acc. do { r \<leftarrow> acc; recover_ops tid (node_ops tid (the (h a))) r }) as acc =
      Option.bind acc (recover_ops tid (concat (map (\<lambda>a. node_ops tid (the (h a))) as)))" for h acc
  proof (induction as arbitrary: acc)
    case Nil
    then show ?case by (cases acc) simp_all
  next
    case (Cons a as)
    then show ?case by (cases acc) (simp_all add: recover_ops_append)
  qed
  then show ?thesis
    by (simp add: recover_chain_def walk_chain [OF ptfo_frame(1) [OF ok]] chain_order_def collect_ops_ok [OF ok])
qed

section \<open>All chains\<close>

lemma entry_count_frame:
  "ptfo_wf (p\<lparr>local_fut := (local_fut p)\<lparr>entry_count := c\<rparr>\<rparr>) = ptfo_wf p"
  "pending tid (p\<lparr>local_fut := (local_fut p)\<lparr>entry_count := c\<rparr>\<rparr>) = pending tid p"
  by (simp_all add: ptfo_wf_def ptfo_ok_def pending_def)

lemma chain_order_newest:
  assumes "ptfo_wf p" "increasing (pending tid p)"
  shows "newest k (chain_order tid p) = last_op k (pending tid p)"
proof -
  have m: "mset (chain_order tid p) = mset (pending tid p)" by (rule chain_order_mset [OF assms(1)])
  have "sorted_wrt (<) (map op_sequence (pending tid p))" using assms(2) by (simp add: increasing_def sorted_wrt_map)
  then have "inj_on op_sequence (set (pending tid p))" using strict_sorted_iff distinct_map by blast
  then have "newest k (chain_order tid p) = newest k (pending tid p)"
    using newest_set [of "chain_order tid p" "pending tid p" k] mset_eq_setD [OF m] by simp
  then show ?thesis using newest_last assms(2) by (simp add: increasing_def)
qed

lemma recover_one:
  assumes p: "ptfo_wf p" "increasing (pending (int tid) p)" "length (pending (int tid) p) \<le> cap" and tid: "tid < length dirs"
    and fresh: "dirs ! tid = replicate cap lookup_slot_ctor" "h = hash_init HashMapTable_ctor (int cap)" "0 < cap"
  obtains rv where "recover_chain (int tid) p \<lparr>rv_hash = h, rv_dirs = dirs, rv_max = mx, rv_entries = 0\<rparr> = Some rv"
    "length (rv_dirs rv) = length dirs" "\<And>j. j \<noteq> tid \<Longrightarrow> rv_dirs rv ! j = dirs ! j" "dir_ok (rv_dirs rv ! tid)"
    "\<And>k. dir_get (rv_dirs rv ! tid) k = map_option dir_slot (last_op k (pending (int tid) p))"
    "table_ok (rv_hash rv)" "\<And>op. op \<in> set (pending (int tid) p) \<Longrightarrow> table_get (rv_hash rv) (op_key op) = Some (int tid)"
    "rv_max rv = Max (insert mx (op_sequence ` set (pending (int tid) p)))"
proof -
  let ?rv = "\<lparr>rv_hash = h, rv_dirs = dirs, rv_max = mx, rv_entries = 0\<rparr>" and ?os = "chain_order (int tid) p"
  have m: "mset ?os = mset (pending (int tid) p)" by (rule chain_order_mset [OF p(1)])
  then have set: "set ?os = set (pending (int tid) p)" "length ?os = length (pending (int tid) p)"
    by (auto dest: mset_eq_setD mset_eq_length)
  have "replicate cap lookup_slot_ctor = clear_directory (replicate cap lookup_slot_ctor)" by (simp add: clear_directory_def)
  then have dk: "dir_ok (replicate cap lookup_slot_ctor)" "dir_get (replicate cap lookup_slot_ctor) k = None" for k
    using clear_directory_ok [of "replicate cap lookup_slot_ctor"] fresh(3) by auto
  have "rebuilt dirs tid cap mx [] ?rv"
    unfolding rebuilt_def using fresh dk init_ok(1) [of HashMapTable_ctor "int cap"] tid
    by (simp add: dir_used_def lookup_slot_ctor_def newest_def hash_used_def hash_init_def Let_def)
  moreover have "\<forall>op \<in> set ?os. op_producer_id op = int tid" using pending_producer [OF p(1)] set(1) by simp
  ultimately obtain rv where rv: "recover_ops (int tid) ?os ?rv = Some rv" "rebuilt dirs tid cap mx ?os rv"
    using recover_ops_ok [of dirs tid cap mx "[]" ?rv ?os] tid p(3) set(2) by auto
  note R = rv(2) [unfolded rebuilt_def]
  have "rv_max rv = Max (insert mx (op_sequence ` set (pending (int tid) p)))"
    using R set(1) Max.set_eq_fold [of mx "map op_sequence ?os"] by simp
  moreover have "recover_chain (int tid) p ?rv = Some rv" using recover_chain_ops [OF p(1)] rv(1) by simp
  ultimately show thesis using that [of rv] R chain_order_newest [OF p(1,2)] set(1) by simp
qed

text \<open>The first \<open>m\<close> producers are rebuilt; the others are as the constructor left them.\<close>

definition ready_for :: "btree \<Rightarrow> nat \<Rightarrow> nat \<Rightarrow> btree \<Rightarrow> bool" where
  "ready_for bt0 cap j bt \<longleftrightarrow> table_ok (bt_hash bt ! j) \<and> dir_ok (bt_dirs bt ! j) \<and>
     (\<forall>op \<in> set (producer_ops bt0 j). table_get (bt_hash bt ! j) (op_key op) = Some (int j)) \<and>
     (\<forall>k. dir_get (bt_dirs bt ! j) k = map_option dir_slot (last_op k (producer_ops bt0 j)))"

definition recovered_upto :: "btree \<Rightarrow> nat \<Rightarrow> nat \<Rightarrow> btree \<Rightarrow> bool" where
  "recovered_upto bt0 cap m bt \<longleftrightarrow>
     bt_tree bt = bt_tree bt0 \<and> n_threads bt = n_threads bt0 \<and> length (bt_hash bt) = n_threads bt \<and> length (bt_dirs bt) = n_threads bt \<and>
     (\<forall>j < n_threads bt. ptfo_wf (bt_ptfos bt ! j) \<and> producer_ops bt j = producer_ops bt0 j) \<and>
     (\<forall>j < n_threads bt. if j < m then ready_for bt0 cap j bt
        else bt_hash bt ! j = hash_init HashMapTable_ctor (int cap) \<and> bt_dirs bt ! j = replicate cap lookup_slot_ctor)"

lemma recovered_step:
  assumes R: "recovered_upto bt0 cap m bt" and m: "m < n_threads bt0" and cap: "0 < cap"
    and os: "increasing (producer_ops bt0 m)" "length (producer_ops bt0 m) \<le> cap"
  obtains mx' bt' where "recover_threads (m # tids) bt mx = recover_threads tids bt' mx'" "recovered_upto bt0 cap (Suc m) bt'"
    "mx' = Max (insert mx (op_sequence ` set (producer_ops bt0 m)))"
proof -
  note R = R [unfolded recovered_upto_def]
  let ?p = "bt_ptfos bt ! m"
  have po: "pending (int m) ?p = producer_ops bt0 m" using R m by (simp add: producer_ops_def)
  have mb: "m < length (bt_dirs bt)" "ptfo_wf ?p" "increasing (pending (int m) ?p)" "length (pending (int m) ?p) \<le> cap"
    "bt_hash bt ! m = hash_init HashMapTable_ctor (int cap)" "bt_dirs bt ! m = replicate cap lookup_slot_ctor"
    using R m os by (auto simp: po)
  obtain rv where rv: "recover_chain (int m) ?p \<lparr>rv_hash = bt_hash bt ! m, rv_dirs = bt_dirs bt, rv_max = mx, rv_entries = 0\<rparr> = Some rv"
    "length (rv_dirs rv) = length (bt_dirs bt)" "\<And>j. j \<noteq> m \<Longrightarrow> rv_dirs rv ! j = bt_dirs bt ! j" "dir_ok (rv_dirs rv ! m)"
    "\<And>k. dir_get (rv_dirs rv ! m) k = map_option dir_slot (last_op k (pending (int m) ?p))"
    "table_ok (rv_hash rv)" "\<And>op. op \<in> set (pending (int m) ?p) \<Longrightarrow> table_get (rv_hash rv) (op_key op) = Some (int m)"
    "rv_max rv = Max (insert mx (op_sequence ` set (pending (int m) ?p)))"
    by (rule recover_one [OF mb(2-4,1,6,5) cap]) (rule that)
  define bt1 where "bt1 = bt\<lparr>bt_hash := (bt_hash bt)[m := rv_hash rv], bt_dirs := rv_dirs rv,
    bt_ptfos := (bt_ptfos bt)[m := ?p\<lparr>local_fut := (local_fut ?p)\<lparr>entry_count := rv_entries rv\<rparr>\<rparr>]\<rparr>"
  have n1: "n_threads bt1 = n_threads bt" "m < length (bt_ptfos bt)" using R m by (simp_all add: bt1_def n_threads_def)
  have po1: "producer_ops bt1 j = producer_ops bt j" for j
    using n1(2) by (cases "j = m") (auto simp: producer_ops_def bt1_def entry_count_frame)
  have wf1: "ptfo_wf (bt_ptfos bt1 ! j)" if "j < n_threads bt" for j
    using that R n1(2) by (cases "j = m") (auto simp: bt1_def entry_count_frame)
  have other: "bt_hash bt1 ! j = bt_hash bt ! j \<and> bt_dirs bt1 ! j = bt_dirs bt ! j" if "j \<noteq> m" for j
    using rv(3) that by (simp add: bt1_def)
  have "ready_for bt0 cap m bt1" using rv(4-7) R m po by (simp add: ready_for_def bt1_def)
  then have "recovered_upto bt0 cap (Suc m) bt1"
    unfolding recovered_upto_def using R n1 rv(2) po1 wf1 other by (auto simp: less_Suc_eq ready_for_def bt1_def)
  moreover have "recover_threads (m # tids) bt mx = recover_threads tids bt1 (rv_max rv)"
    using rv(1) by (simp add: Let_def bt1_def)
  ultimately show thesis using that rv(8) po by simp
qed

lemma recover_threads_ok:
  assumes "recovered_upto bt0 cap m bt" "m \<le> n_threads bt0" "0 < cap"
    "\<forall>j < n_threads bt0. increasing (producer_ops bt0 j) \<and> length (producer_ops bt0 j) \<le> cap"
  shows "\<exists>mx' bt'. recover_threads [m..<n_threads bt0] bt mx = Some (mx', bt') \<and> recovered_upto bt0 cap (n_threads bt0) bt' \<and>
    mx \<le> mx' \<and> (\<forall>j. m \<le> j \<and> j < n_threads bt0 \<longrightarrow> (\<forall>op \<in> set (producer_ops bt0 j). op_sequence op \<le> mx')) \<and>
    (mx < b \<and> (\<forall>j < n_threads bt0. \<forall>op \<in> set (producer_ops bt0 j). op_sequence op < b) \<longrightarrow> mx' < b)"
  using assms
proof (induction "n_threads bt0 - m" arbitrary: m bt mx)
  case 0
  then have "m = n_threads bt0" by simp
  then show ?case using 0 by auto
next
  case (Suc d)
  have m: "m < n_threads bt0" and d: "d = n_threads bt0 - Suc m" using Suc.hyps(2) by auto
  have os: "increasing (producer_ops bt0 m)" "length (producer_ops bt0 m) \<le> cap" using Suc.prems(4) m by auto
  obtain mx1 bt1 where s: "recover_threads (m # [Suc m..<n_threads bt0]) bt mx = recover_threads [Suc m..<n_threads bt0] bt1 mx1"
    "recovered_upto bt0 cap (Suc m) bt1" "mx1 = Max (insert mx (op_sequence ` set (producer_ops bt0 m)))"
    by (rule recovered_step [OF Suc.prems(1) m Suc.prems(3) os])
  obtain mx' bt' where ih: "recover_threads [Suc m..<n_threads bt0] bt1 mx1 = Some (mx', bt')"
    "recovered_upto bt0 cap (n_threads bt0) bt'" "mx1 \<le> mx'"
    "\<forall>j. Suc m \<le> j \<and> j < n_threads bt0 \<longrightarrow> (\<forall>op \<in> set (producer_ops bt0 j). op_sequence op \<le> mx')"
    "mx1 < b \<and> (\<forall>j < n_threads bt0. \<forall>op \<in> set (producer_ops bt0 j). op_sequence op < b) \<longrightarrow> mx' < b"
    using Suc.hyps(1) [OF d s(2) Suc_leI [OF m] Suc.prems(3,4), of mx1] by blast
  have "mx \<le> mx1" "\<forall>op \<in> set (producer_ops bt0 m). op_sequence op \<le> mx1" unfolding s(3) by simp_all
  then have "mx \<le> mx'" "\<forall>op \<in> set (producer_ops bt0 m). op_sequence op \<le> mx'" using ih(3) by auto
  moreover have "mx1 < b" if "mx < b" "\<forall>j < n_threads bt0. \<forall>op \<in> set (producer_ops bt0 j). op_sequence op < b"
    unfolding s(3) using that m by auto
  moreover have "\<forall>j. m \<le> j \<and> j < n_threads bt0 \<longrightarrow> j = m \<or> Suc m \<le> j" by auto
  ultimately show ?case using ih(1,2,4,5) s(1) m by (metis upt_conv_Cons)
qed

section \<open>Reopening a pool\<close>

text \<open>A pool that a tree with \<open>n\<close> producers and directories of \<open>cap\<close> slots can be reopened from.\<close>

definition pool_ok :: "nat \<Rightarrow> nat \<Rightarrow> pool \<Rightarrow> bool" where
  "pool_ok n cap pl \<longleftrightarrow>
     schema_version pl = kPmemSchemaVersion \<and> pm_n_threads pl = n \<and> root_page pl \<noteq> 0 \<and> length (pm_futs pl) = n \<and>
     (\<forall>j < n. ptfo_wf (pm_futs pl ! j) \<and> increasing (pending (int j) (pm_futs pl ! j)) \<and>
        length (pending (int j) (pm_futs pl ! j)) \<le> cap)"

text \<open>No durable sequence number is within the safety gap of the largest word.\<close>

definition sequences_below :: "pool \<Rightarrow> bool" where
  "sequences_below pl \<longleftrightarrow> seq_counter pl < - 1000000 \<and>
     (\<forall>j < length (pm_futs pl). \<forall>op \<in> set (pending (int j) (pm_futs pl ! j)). op_sequence op < - 1000000)"

lemma resume_above:
  assumes "d < - 1000000" "m < (- 1000000 :: 64 word)" "s \<le> m"
  shows "s < resume_sequence d m"
proof -
  have "x < x + 1000000" if "x < - 1000000" for x :: "64 word"
    using that by (simp add: word_less_nat_alt unat_word_ariths)
  from this [OF assms(1)] this [OF assms(2)] show ?thesis
    using assms(3) unfolding resume_sequence_def by (cases "m < d") (auto intro: le_less_trans less_trans)
qed

text \<open>C24: Reopening a pool returns a tree whose hash tables and lookup directories are again those of the
  durable chains: every pending operation is kept in order, each hash table leads to every buffered
  key, each directory records the newest operation per key, so that every search over buffered
  operations is right again, and the sequence counter is above every sequence number in use.\<close>

theorem recovery_rebuilds_directories:
  assumes pl: "pool_ok n cap pl" "sequences_below pl" and n: "0 < n" "0 < cap"
  shows "\<exists>bt pl'. pm_btree_ctor False base (Some pl) (int n) evals (int cap) = Some (Inr (bt, pl')) \<and>
    fut_ok bt \<and> covered bt \<and> n_threads bt = n \<and> root (bt_tree bt) = root_page pl \<and> pages (bt_tree bt) = pm_pages pl \<and>
    (\<forall>j < n. producer_ops bt j = pending (int j) (pm_futs pl ! j)) \<and>
    (\<forall>op \<in> set (all_pending bt). op_sequence op < seq_counter pl')"
proof -
  define bt0 where "bt0 = \<lparr>bt_tree = \<lparr>root = root_page pl, height = pm_height pl, pages = pm_pages pl, next_page = pm_next pl\<rparr>,
      bt_ptfos = pm_futs pl, bt_hash = replicate n (hash_init HashMapTable_ctor (int cap)),
      bt_dirs = replicate n (replicate cap lookup_slot_ctor),
      bt_eval_threads = (if evals > 0 then nat evals else 1), bt_is_Done = False\<rparr>"
  have nt: "n_threads bt0 = n" and po: "producer_ops bt0 j = pending (int j) (pm_futs pl ! j)" for j
    using pl(1) by (simp_all add: bt0_def n_threads_def producer_ops_def pool_ok_def)
  have "recovered_upto bt0 cap 0 bt0"
    unfolding recovered_upto_def nt using pl(1) by (simp add: bt0_def pool_ok_def)
  moreover have "\<forall>j < n_threads bt0. increasing (producer_ops bt0 j) \<and> length (producer_ops bt0 j) \<le> cap"
    using pl(1) by (simp add: pool_ok_def nt po)
  moreover have "(0 :: 64 word) < - 1000000" by code_simp
  ultimately obtain mx bt where r: "recover_threads [0..<n] bt0 0 = Some (mx, bt)" "recovered_upto bt0 cap n bt"
    "\<forall>j < n. \<forall>op \<in> set (producer_ops bt0 j). op_sequence op \<le> mx"
    "(\<forall>j < n. \<forall>op \<in> set (producer_ops bt0 j). op_sequence op < - 1000000) \<longrightarrow> mx < - 1000000"
    using recover_threads_ok [of bt0 cap 0 bt0 0 "- 1000000"] n(2) nt by auto
  note R = r(2) [unfolded recovered_upto_def nt]
  have mx: "mx < - 1000000" using r(4) pl by (simp add: po sequences_below_def pool_ok_def)
  let ?pl = "pl\<lparr>seq_counter := resume_sequence (seq_counter pl) mx, pm_futs := bt_ptfos bt\<rparr>"
  have "pm_btree_ctor False base (Some pl) (int n) evals (int cap) = Some (Inr (bt, ?pl))"
    using pl(1) n r(1) unfolding bt0_def by (simp add: pm_btree_ctor_def pool_validate_def pool_ok_def Let_def)
  moreover have "fut_ok bt" "covered bt"
    using R by (auto simp: fut_ok_def covered_def hash_covers_def dir_covers_def ready_for_def)
  moreover have "op_sequence op < seq_counter ?pl" if "op \<in> set (all_pending bt)" for op
  proof -
    have "\<exists>j < n. op \<in> set (producer_ops bt0 j)" using that R by (auto simp: all_pending_def)
    then have "op_sequence op \<le> mx" using r(3) by blast
    then show ?thesis using resume_above mx pl(2) by (simp add: sequences_below_def)
  qed
  ultimately show ?thesis using R po by (auto simp: bt0_def)
qed

text \<open>A pool with one producer that has buffered the insertion of 5.\<close>

definition sample_chain :: ptfo where
  "sample_chain = (case chain_insert ptfo_ctor 5 False 2 of Some p \<Rightarrow> p | None \<Rightarrow> ptfo_ctor)"

definition sample_pool :: pool where
  "sample_pool = (pool_init 1 (pool_create 4096 1 4))\<lparr>pm_futs := [sample_chain]\<rparr>"

lemma sample_pool_ok: "pool_ok 1 4 sample_pool" "sequences_below sample_pool"
proof -
  obtain p where p: "chain_insert ptfo_ctor 5 False 2 = Some p" "ptfo_wf p"
    "\<And>tid. pending tid p = pending tid ptfo_ctor @ [buffered 5 False 2 tid]"
    by (rule chain_insert_wf [OF ptfo_ctor_wf(1), of 5 False 2]) (rule that)
  have c: "ptfo_wf sample_chain" "pending 0 sample_chain = [buffered 5 False 2 0]"
    using p ptfo_ctor_wf(2) by (simp_all add: sample_chain_def)
  have s: "schema_version sample_pool = 1" "pm_n_threads sample_pool = 1" "root_page sample_pool = 4096"
    "seq_counter sample_pool = 0" "pm_futs sample_pool = [sample_chain]"
    by (simp_all add: sample_pool_def pool_init_def pool_create_def new_page_def kPmemSchemaVersion_def)
  show "pool_ok 1 4 sample_pool" using c s by (simp add: pool_ok_def kPmemSchemaVersion_def increasing_def)
  have "(0 :: 64 word) < - 1000000" "(2 :: 64 word) < - 1000000" by code_simp+
  then show "sequences_below sample_pool" using c s by (simp add: sequences_below_def)
qed

theorem recovery_rebuilds_directories_witness:
  "\<exists>bt pl'. pm_btree_ctor False 4096 (Some sample_pool) (int 1) 1 (int 4) = Some (Inr (bt, pl')) \<and> covered bt"
  using recovery_rebuilds_directories [OF sample_pool_ok, of 4096 1] by auto

section \<open>The wrapper on a reopened pool\<close>

text \<open>\<^verbatim>\<open>FutureBTree::Impl\<close> of this build: the tree is the reopened one, and sequence numbers continue above
  the durable counter.\<close>

definition pm_Impl_ctor :: "int \<Rightarrow> pool option \<Rightarrow> NumaTopology \<Rightarrow> RuntimeConfig \<Rightarrow> (error + Impl \<times> pool) option" where
  "pm_Impl_ctor base file topo cfg =
     do { r \<leftarrow> pm_btree_ctor False base file (to_int (producer_threads cfg)) (to_int (evaluator_threads cfg))
                (to_int (cfg_hash_capacity cfg));
          Some (case r of Inl e \<Rightarrow> Inl e
                | Inr (bt, pl) \<Rightarrow> Inr ((Impl_ctor base topo cfg)\<lparr>tree := bt,
                                        next_ptfo_sequence := max 1 (seq_counter pl + 1)\<rparr>, pl)) }"


text \<open>What the pool holds when the process ends: pages and chains live in it, and the recorded root page
  and height are those the constructor wrote.\<close>

definition pool_at_exit :: "pool \<Rightarrow> btree \<Rightarrow> pool" where
  "pool_at_exit pl bt = pl\<lparr>pm_pages := pages (bt_tree bt), pm_next := next_page (bt_tree bt), pm_futs := bt_ptfos bt\<rparr>"

definition root_level :: "tree_state \<Rightarrow> nat option" where
  "root_level t = map_option level (pages t (root t))"

text \<open>The new root of a tree that grew is not recorded in the pool: after 29 inserts the root is an
  internal page, and the reopened tree starts at the leftmost leaf, with height 1.\<close>

theorem reopened_root_is_stale:
  "(do { r \<leftarrow> pm_btree_ctor False 4096 None 1 1 4;
         (case r of Inl e \<Rightarrow> None | Inr (bt, pl) \<Rightarrow>
            do { t \<leftarrow> index_replay btree_search tree_insert tree_delete (bt_tree bt) (insert_ops [1..29]);
                 r' \<leftarrow> pm_btree_ctor False 4096 (Some (pool_at_exit pl (bt\<lparr>bt_tree := t\<rparr>))) 1 1 4;
                 (case r' of Inl e \<Rightarrow> None | Inr (bt', _) \<Rightarrow>
                    Some (root_level t, height t, root_level (bt_tree bt'), height (bt_tree bt'), btree_search (bt_tree bt') 29)) }) }) =
   Some (Some 1, 2, Some 0, 1, Some 29)"
  by code_simp

end
