(* ===== verification/Interleaving.thy ===== *)
theory Interleaving
  imports Drains
begin

text \<open>
  Producers and drains as interleaved threads (\<^verbatim>\<open>src/f3tree.cpp\<close>).  A buffered operation is not atomic:
  it fetches a sequence number from the atomic counter, then appends to its chain, hash table and
  directory under \<^verbatim>\<open>ptfo_mu[producer]\<close>, and only then does its accounting under the lock of the wrapper;
  other threads may run in between.  A full drain holds the lock of the wrapper, that of the tree and
  those of all chains, a partial drain those of the chains it empties, which the other producers do not
  touch; each is one step.  There is one thread per producer number.
\<close>

section \<open>The step relation\<close>

datatype phase = Idle | Fetched int bool "64 word" | Unaccounted

text \<open>The \<open>history\<close> lists the operations buffered so far; no step depends on it.\<close>

record cstate =
  shared :: Impl
  phases :: "phase list"
  history :: "future_buffered_op list"

definition cstart :: "Impl \<Rightarrow> cstate" where
  "cstart im = \<lparr>shared = im, phases = replicate (length (ptfo_threads im)) Idle, history = all_pending (tree im)\<rparr>"

datatype event = Fetch nat int bool | Buffer nat | Account nat | Drain_all | Pass nat nat

definition fetched :: "Sys \<Rightarrow> nat \<Rightarrow> int \<Rightarrow> bool \<Rightarrow> cstate \<Rightarrow> cstate" where
  "fetched sys p key d c =
     (let (seq, im) = fetch_sequence (bind_producer sys p (shared c))
      in c\<lparr>shared := im, phases := (phases c)[p := Fetched key d seq]\<rparr>)"

definition chained :: "nat \<Rightarrow> int \<Rightarrow> bool \<Rightarrow> 64 word \<Rightarrow> btree \<Rightarrow> cstate \<Rightarrow> cstate" where
  "chained p key d seq bt c =
     c\<lparr>shared := (shared c)\<lparr>tree := bt\<rparr>, phases := (phases c)[p := Unaccounted],
       history := history c @ [buffered key d seq (int p)]\<rparr>"

definition counted :: "Sys \<Rightarrow> nat \<Rightarrow> cstate \<Rightarrow> cstate" where
  "counted sys p c = c\<lparr>shared := account sys p (shared c), phases := (phases c)[p := Idle]\<rparr>"

inductive tstep :: "Sys \<Rightarrow> int \<Rightarrow> event \<Rightarrow> cstate \<Rightarrow> cstate \<Rightarrow> bool" for sys base where
  fetch: "p < length (phases c) \<Longrightarrow> phases c ! p = Idle \<Longrightarrow> storable base key \<Longrightarrow>
    tstep sys base (Fetch p key d) c (fetched sys p key d c)"
| buffer: "p < length (phases c) \<Longrightarrow> phases c ! p = Fetched key d seq \<Longrightarrow>
    future_insert (tree (shared c)) key (to_int p) d seq = Some bt \<Longrightarrow>
    tstep sys base (Buffer p) c (chained p key d seq bt c)"
| account: "p < length (phases c) \<Longrightarrow> phases c ! p = Unaccounted \<Longrightarrow> tstep sys base (Account p) c (counted sys p c)"
| drain: "drain_pending sys (shared c) = Some im \<Longrightarrow> tstep sys base Drain_all c (c\<lparr>shared := im\<rparr>)"
| evaluate: "w < wc \<Longrightarrow> evaluator_pass sys w wc (shared c) = Some im \<Longrightarrow> tstep sys base (Pass w wc) c (c\<lparr>shared := im\<rparr>)"

inductive trun :: "Sys \<Rightarrow> int \<Rightarrow> cstate \<Rightarrow> event list \<Rightarrow> cstate \<Rightarrow> bool" for sys base c0 where
  start: "trun sys base c0 [] c0"
| next_step: "trun sys base c0 es c \<Longrightarrow> tstep sys base e c c' \<Longrightarrow> trun sys base c0 (es @ [e]) c'"

inductive_simps tstep_simps:
  "tstep sys base (Fetch p key d) c c'" "tstep sys base (Buffer p) c c'" "tstep sys base (Account p) c c'"
  "tstep sys base Drain_all c c'" "tstep sys base (Pass w wc) c c'"

text \<open>The same steps as a function, to run an interleaving.\<close>

fun exec :: "Sys \<Rightarrow> event \<Rightarrow> cstate \<Rightarrow> cstate option" where
  "exec sys (Fetch p key d) c =
     (if p < length (phases c) \<and> phases c ! p = Idle then Some (fetched sys p key d c) else None)"
| "exec sys (Buffer p) c =
     (if p < length (phases c)
      then (case phases c ! p of
              Fetched key d seq \<Rightarrow> do { bt \<leftarrow> future_insert (tree (shared c)) key (to_int p) d seq; Some (chained p key d seq bt c) }
            | _ \<Rightarrow> None)
      else None)"
| "exec sys (Account p) c =
     (if p < length (phases c) \<and> phases c ! p = Unaccounted then Some (counted sys p c) else None)"
| "exec sys Drain_all c = do { im \<leftarrow> drain_pending sys (shared c); Some (c\<lparr>shared := im\<rparr>) }"
| "exec sys (Pass w wc) c =
     (if w < wc then do { im \<leftarrow> evaluator_pass sys w wc (shared c); Some (c\<lparr>shared := im\<rparr>) } else None)"

fun execs :: "Sys \<Rightarrow> event list \<Rightarrow> cstate \<Rightarrow> cstate option" where
  "execs sys [] c = Some c"
| "execs sys (e # es) c = do { c' \<leftarrow> exec sys e c; execs sys es c' }"

fun fetches_storable :: "int \<Rightarrow> event \<Rightarrow> bool" where
  "fetches_storable base (Fetch p key d) = storable base key"
| "fetches_storable base e = True"

text \<open>The function computes exactly the steps of the relation.\<close>

lemma tstep_exec: "tstep sys base e c c' \<longleftrightarrow> exec sys e c = Some c' \<and> fetches_storable base e"
  by (cases e) (auto simp: tstep_simps bind_eq_Some_conv split: if_splits phase.splits)

lemma trun_Cons: "trun sys base c' es c'' \<Longrightarrow> tstep sys base e c c' \<Longrightarrow> trun sys base c (e # es) c''"
proof (induction rule: trun.induct)
  case start
  then show ?case using trun.next_step [OF trun.start, of sys base e c c'] by simp
next
  case (next_step es d e' d')
  then show ?case using trun.next_step [of sys base c "e # es" d e' d'] by simp
qed

lemma execs_trun: "execs sys es c = Some c' \<Longrightarrow> list_all (fetches_storable base) es \<Longrightarrow> trun sys base c es c'"
proof (induction es arbitrary: c)
  case Nil
  then show ?case by (simp add: trun.start)
next
  case (Cons e es)
  then obtain d where "exec sys e c = Some d" "execs sys es d = Some c'" by (auto split: bind_splits)
  moreover have "fetches_storable base e" "list_all (fetches_storable base) es" using Cons.prems(2) by simp_all
  ultimately show ?case using Cons.IH tstep_exec trun_Cons by blast
qed

section \<open>The invariant\<close>

definition slack :: "phase \<Rightarrow> nat" where
  "slack ph = (if ph = Unaccounted then 1 else 0)"

text \<open>The number a thread has fetched and not yet used.\<close>

fun in_flight :: "phase \<Rightarrow> 64 word option" where
  "in_flight (Fetched key d seq) = Some seq"
| "in_flight _ = None"

definition fetch_ok :: "int \<Rightarrow> Impl \<Rightarrow> nat \<Rightarrow> phase \<Rightarrow> bool" where
  "fetch_ok base im j ph \<longleftrightarrow>
     (case ph of Fetched key d seq \<Rightarrow> storable base key \<and> seq < next_ptfo_sequence im \<and>
        seq \<notin> op_sequence ` set (all_pending (tree im)) \<and> (\<forall>op \<in> set (producer_ops (tree im) j). op_sequence op < seq)
      | _ \<Rightarrow> True)"

definition conc_ok :: "int \<Rightarrow> cstate \<Rightarrow> bool" where
  "conc_ok base c \<longleftrightarrow>
     core_ok base (shared c) \<and> length (phases c) = length (ptfo_threads (shared c)) \<and>
     (\<forall>j < length (phases c). length (producer_ops (tree (shared c)) j) \<le>
        thr_entry_count (ptfo_threads (shared c) ! j) + slack (phases c ! j)) \<and>
     (\<forall>j < length (phases c). fetch_ok base (shared c) j (phases c ! j)) \<and>
     (\<forall>i < length (phases c). \<forall>j < length (phases c). i \<noteq> j \<longrightarrow> in_flight (phases c ! i) \<noteq> None \<longrightarrow>
        in_flight (phases c ! i) \<noteq> in_flight (phases c ! j))"

lemma conc_okD:
  assumes "conc_ok base c"
  shows "core_ok base (shared c)" "length (phases c) = length (ptfo_threads (shared c))"
    "length (phases c) = n_threads (tree (shared c))"
    "\<And>j. j < length (phases c) \<Longrightarrow> length (producer_ops (tree (shared c)) j) \<le>
        thr_entry_count (ptfo_threads (shared c) ! j) + slack (phases c ! j)"
    "\<And>j. j < length (phases c) \<Longrightarrow> fetch_ok base (shared c) j (phases c ! j)"
    "\<And>i j. i < length (phases c) \<Longrightarrow> j < length (phases c) \<Longrightarrow> i \<noteq> j \<Longrightarrow> in_flight (phases c ! i) \<noteq> None \<Longrightarrow>
        in_flight (phases c ! i) \<noteq> in_flight (phases c ! j)"
  using assms by (auto simp: conc_ok_def core_ok_def)

lemma conc_okI:
  assumes "core_ok base (shared c)" "length (phases c) = length (ptfo_threads (shared c))"
    "\<And>j. j < length (phases c) \<Longrightarrow> length (producer_ops (tree (shared c)) j) \<le>
        thr_entry_count (ptfo_threads (shared c) ! j) + slack (phases c ! j)"
    "\<And>j. j < length (phases c) \<Longrightarrow> fetch_ok base (shared c) j (phases c ! j)"
    "\<And>i j. i < length (phases c) \<Longrightarrow> j < length (phases c) \<Longrightarrow> i \<noteq> j \<Longrightarrow> in_flight (phases c ! i) \<noteq> None \<Longrightarrow>
        in_flight (phases c ! i) \<noteq> in_flight (phases c ! j)"
  shows "conc_ok base c"
  using assms by (simp add: conc_ok_def)

text \<open>A phase that is not the fetch of a number keeps the numbers in flight apart.\<close>

lemma in_flight_update:
  assumes "\<And>i j. i < length phs \<Longrightarrow> j < length phs \<Longrightarrow> i \<noteq> j \<Longrightarrow> in_flight (phs ! i) \<noteq> None \<Longrightarrow>
      in_flight (phs ! i) \<noteq> in_flight (phs ! j)" "in_flight ph = None"
    "i < length phs" "j < length phs" "i \<noteq> j" "in_flight (phs[p := ph] ! i) \<noteq> None"
  shows "in_flight (phs[p := ph] ! i) \<noteq> in_flight (phs[p := ph] ! j)"
  using assms(1) [OF assms(3-5)] assms(2-6) by (cases "i = p"; cases "j = p") simp_all

lemma cstart_ok: "impl_ok base im \<Longrightarrow> conc_ok base (cstart im)"
  by (auto simp: conc_ok_def cstart_def impl_ok_core accounted_def slack_def fetch_ok_def)

section \<open>Steps of a producer\<close>

lemma next_above: "(s :: 64 word) \<noteq> -1 \<Longrightarrow> s < s + 1" "s \<noteq> -1 \<Longrightarrow> x < s \<Longrightarrow> x < s + 1"
proof -
  assume "s \<noteq> -1"
  then show "s < s + 1" using inc_less_eq_triv_imp [of s] by (meson not_le)
  then show "x < s \<Longrightarrow> x < s + 1" by (rule less_trans [rotated])
qed

lemma fetch_keeps:
  assumes ok: "conc_ok base c" and p: "p < length (phases c)" "phases c ! p = Idle" and k: "storable base key"
    and mx: "next_ptfo_sequence (shared c) \<noteq> -1"
  shows "conc_ok base (fetched sys p key d c)"
proof -
  let ?im = "shared c" and ?c = "fetched sys p key d c"
  let ?seq = "next_ptfo_sequence ?im"
  note C = conc_okD [OF ok]
  have s: "tree (shared ?c) = tree ?im" "ptfo_threads (shared ?c) = ptfo_threads ?im"
    "next_ptfo_sequence (shared ?c) = ?seq + 1" "phases ?c = (phases c)[p := Fetched key d ?seq]"
    by (simp_all add: fetched_def fetch_sequence_def)
  have "core_ok base (shared ?c)"
    using C(1) next_above(2) [OF mx]
    by (auto simp: core_ok_def counts_ok_def seqs_ok_def fetched_def fetch_sequence_def)
  moreover have below: "seq < ?seq" if "in_flight (phases c ! j) = Some seq" "j < length (phases c)" for j seq
    using C(5) [OF that(2)] that(1) by (cases "phases c ! j") (auto simp: fetch_ok_def)
  moreover have "fetch_ok base (shared ?c) j (phases ?c ! j)" if "j < length (phases c)" for j
  proof (cases "j = p")
    case True
    have old: "\<forall>op \<in> set (all_pending (tree ?im)). op_sequence op < ?seq"
      using C(1) by (simp add: core_ok_def seqs_ok_def)
    then have "?seq \<notin> op_sequence ` set (all_pending (tree ?im))" by auto
    moreover have "set (producer_ops (tree ?im) p) \<subseteq> set (all_pending (tree ?im))"
      using p C(3) by (auto simp: all_pending_def)
    ultimately show ?thesis using True p k old next_above(1) [OF mx] by (auto simp: fetch_ok_def s)
  next
    case False
    then show ?thesis using C(5) [OF that] next_above(2) [OF mx] by (auto simp: fetch_ok_def s split: phase.splits)
  qed
  moreover have "length (producer_ops (tree ?im) j) \<le>
      thr_entry_count (ptfo_threads ?im ! j) + slack ((phases c)[p := Fetched key d ?seq] ! j)" if j: "j < length (phases c)" for j
    using C(4) [OF j] p by (cases "j = p") (simp_all add: slack_def)
  moreover have "in_flight ((phases c)[p := Fetched key d ?seq] ! i) \<noteq> in_flight ((phases c)[p := Fetched key d ?seq] ! j)"
    if ij: "i < length (phases c)" "j < length (phases c)" "i \<noteq> j" "in_flight ((phases c)[p := Fetched key d ?seq] ! i) \<noteq> None" for i j
    using C(6) [OF ij(1-3)] ij below [of i ?seq] below [of j ?seq] by (cases "i = p"; cases "j = p") auto
  ultimately show ?thesis using C(2) by (intro conc_okI) (simp_all add: s)
qed

lemma seqs_insert_fresh:
  assumes sq: "seqs_ok bt next_seq" and n: "n_threads bt' = n_threads bt" and tid: "tid < n_threads bt"
    and new: "\<And>j. j < n_threads bt \<Longrightarrow> producer_ops bt' j =
      (if j = tid then producer_ops bt tid @ [buffered key d seq (int tid)] else producer_ops bt j)"
    and fresh: "seq < next_seq" "seq \<notin> op_sequence ` set (all_pending bt)" "\<forall>op \<in> set (producer_ops bt tid). op_sequence op < seq"
  shows "seqs_ok bt' next_seq"
proof -
  have m: "mset (all_pending bt') = add_mset (buffered key d seq (int tid)) (mset (all_pending bt))"
    by (rule all_pending_insert [OF n tid new])
  then have st: "set (all_pending bt') = insert (buffered key d seq (int tid)) (set (all_pending bt))"
    by (metis set_mset_add_mset_insert set_mset_mset)
  have "mset (map op_sequence (all_pending bt')) = mset (seq # map op_sequence (all_pending bt))" using m by simp
  then have "distinct (map op_sequence (all_pending bt')) \<longleftrightarrow> distinct (seq # map op_sequence (all_pending bt))"
    using mset_eq_imp_distinct_iff by blast
  then have "distinct (map op_sequence (all_pending bt'))" using sq fresh(2) by (simp add: seqs_ok_def)
  moreover have "increasing (producer_ops bt' j)" if "j < n_threads bt" for j
    using new [OF that] sq fresh(3) that by (auto simp: seqs_ok_def increasing_def sorted_wrt_append)
  ultimately show ?thesis using sq n st fresh(1) by (simp add: seqs_ok_def)
qed

lemma buffer_keeps:
  assumes ok: "conc_ok base c" and p: "p < length (phases c)" "phases c ! p = Fetched key d seq"
    and ins: "future_insert (tree (shared c)) key (to_int p) d seq = Some bt"
  shows "conc_ok base (chained p key d seq bt c)"
    "mset (all_pending bt) = add_mset (buffered key d seq (int p)) (mset (all_pending (tree (shared c))))"
    "bt_tree bt = bt_tree (tree (shared c))"
proof -
  let ?im = "shared c" and ?c = "chained p key d seq bt c" and ?op = "buffered key d seq (int p)"
  note C = conc_okD [OF ok]
  have pn: "p < n_threads (tree ?im)" "to_int p = int p"
    using p C(1-3) by (auto simp: core_ok_def to_int_nat)
  have fo: "fut_ok (tree ?im)" using C(1) by (simp add: core_ok_def)
  have bt: "fut_ok bt" "bt_tree bt = bt_tree (tree ?im)" "n_threads bt = n_threads (tree ?im)"
    "\<And>j. j < n_threads (tree ?im) \<Longrightarrow> producer_ops bt j =
       (if j = p then producer_ops (tree ?im) p @ [?op] else producer_ops (tree ?im) j)"
    by (rule future_insert_ok [OF fo pn(1), of key d seq]; use ins pn(2) in force)+
  show m: "mset (all_pending bt) = add_mset ?op (mset (all_pending (tree ?im)))"
    by (rule all_pending_insert [OF bt(3) pn(1) bt(4)])
  show "bt_tree bt = bt_tree (tree ?im)" by (rule bt(2))
  have st: "set (all_pending bt) = insert ?op (set (all_pending (tree ?im)))"
    using m by (metis set_mset_add_mset_insert set_mset_mset)
  have F: "storable base key" "seq < next_ptfo_sequence ?im" "seq \<notin> op_sequence ` set (all_pending (tree ?im))"
    "\<forall>op \<in> set (producer_ops (tree ?im) p). op_sequence op < seq"
    using C(5) [OF p(1)] p(2) by (auto simp: fetch_ok_def)
  have "seqs_ok bt (next_ptfo_sequence ?im)"
    by (rule seqs_insert_fresh [OF _ bt(3) pn(1) bt(4) F(2-4)]) (use C(1) in \<open>simp add: core_ok_def\<close>)
  then have "core_ok base (shared ?c)"
    using C(1) bt(1-3) F(1) st by (auto simp: core_ok_def chained_def counts_ok_def replayable_def)
  moreover have "fetch_ok base (shared ?c) j (phases ?c ! j)" if j: "j < length (phases c)" for j
  proof (cases "j = p")
    case True
    then show ?thesis using p by (simp add: fetch_ok_def chained_def)
  next
    case False
    have "in_flight (phases c ! j) \<noteq> Some seq" using C(6) [OF p(1) j] False p(2) by auto
    then show ?thesis
      using C(5) [OF j] False st bt(4) j C(3) by (auto simp: fetch_ok_def chained_def split: phase.splits)
  qed
  moreover have "length (producer_ops bt j) \<le> thr_entry_count (ptfo_threads ?im ! j) + slack ((phases c)[p := Unaccounted] ! j)"
    if j: "j < length (phases c)" for j
    using bt(4) [of j] C(4) [OF j] C(3) j p by (cases "j = p") (auto simp: slack_def)
  moreover note in_flight_update [OF C(6), of Unaccounted]
  ultimately show "conc_ok base ?c" using C(2) by (intro conc_okI) (simp_all add: chained_def)
qed

lemma account_keeps:
  assumes ok: "conc_ok base c" and p: "p < length (phases c)" "phases c ! p = Unaccounted"
  shows "conc_ok base (counted sys p c)"
proof -
  note C = conc_okD [OF ok]
  have "counts_ok (account sys p (shared c))"
    using C(1,2) p by (intro counts_account) (auto simp: core_ok_def)
  then have "core_ok base (shared (counted sys p c))" using C(1) by (simp add: core_ok_def counted_def)
  moreover have "length (producer_ops (tree (shared c)) j) \<le>
      thr_entry_count ((ptfo_threads (shared c))[p := bump (ptfo_threads (shared c) ! p)] ! j) + slack ((phases c)[p := Idle] ! j)"
    if j: "j < length (phases c)" for j
    using C(4) [OF j] C(2) j p by (cases "j = p") (auto simp: slack_def)
  moreover have "fetch_ok base (account sys p (shared c)) j ((phases c)[p := Idle] ! j)" if j: "j < length (phases c)" for j
    using C(5) [OF j] j by (cases "j = p") (auto simp: fetch_ok_def split: phase.splits)
  moreover note in_flight_update [OF C(6), of Idle]
  ultimately show ?thesis using C(2) by (intro conc_okI) (simp_all add: counted_def)
qed

section \<open>Steps of a drain\<close>

lemma core_result_frame:
  "core_result base cl im im' pids os \<Longrightarrow> config im' = config im \<and> next_ptfo_sequence im' = next_ptfo_sequence im"
  by (simp add: core_result_def)

lemma drain_keeps:
  assumes ok: "conc_ok base c" and r: "core_result base cl (shared c) im pids os"
  shows "conc_ok base (c\<lparr>shared := im\<rparr>)"
proof -
  note C = conc_okD [OF ok] and R = r [unfolded core_result_def]
  have po: "producer_ops (tree im) j = (if int j \<in> set pids then [] else producer_ops (tree (shared c)) j)"
    if "j < length (phases c)" for j using R that C(3) by simp
  have sub: "set (all_pending (tree im)) \<subseteq> set (all_pending (tree (shared c)))"
    by (rule seqs_cleared(2)) (use R C(1) in \<open>auto simp: core_ok_def\<close>)
  have "length (producer_ops (tree im) j) \<le> thr_entry_count (ptfo_threads im ! j) + slack (phases c ! j)"
    if j: "j < length (phases c)" for j
    using po [OF j] C(4) [OF j] C(3) R j by simp
  moreover have "fetch_ok base im j (phases c ! j)" if j: "j < length (phases c)" for j
    using C(5) [OF j] po [OF j] sub R by (auto simp: fetch_ok_def split: phase.splits)
  moreover have "length (phases c) = length (ptfo_threads im)" using R C(3) by (simp add: core_ok_def)
  ultimately show ?thesis using R C(6) by (intro conc_okI) simp_all
qed

text \<open>The operations of the drained producers and those that stay pending are all there were.\<close>

lemma selected_rest:
  assumes v: "valid_pids bt pids" and n: "n_threads bt' = n_threads bt"
    and po: "\<And>j. j < n_threads bt \<Longrightarrow> producer_ops bt' j = (if int j \<in> set pids then [] else producer_ops bt j)"
  shows "mset (selected bt pids) + mset (all_pending bt') = mset (all_pending bt)"
proof -
  let ?n = "n_threads bt"
  have all: "mset (all_pending bt) = (\<Sum>j \<in> {0..<?n}. mset (producer_ops bt j))"
    by (simp add: all_pending_def mset_concat comp_def sum_list_distinct_conv_sum_set)
  have rest: "mset (all_pending bt') = (\<Sum>j \<in> {0..<?n}. mset (if int j \<in> set pids then [] else producer_ops bt j))"
    using cleared_pending [of bt' bt pids, OF n po] by (simp add: mset_concat comp_def sum_list_distinct_conv_sum_set)
  have "mset (selected bt pids) = (\<Sum>pid \<in> set pids. mset (producer_ops bt (nat pid)))"
    using v by (simp add: selected_def mset_concat comp_def sum_list_distinct_conv_sum_set valid_pids_def)
  also have "\<dots> = (\<Sum>j \<in> {j \<in> {0..<?n}. int j \<in> set pids}. mset (producer_ops bt j))"
    by (rule sum.reindex_bij_witness [of _ int nat]) (use v in \<open>auto simp: valid_pids_def\<close>)
  also have "\<dots> = (\<Sum>j \<in> {0..<?n}. if int j \<in> set pids then mset (producer_ops bt j) else {#})"
    by (subst sum.inter_filter) (simp_all add: zero_multiset_def)
  finally show ?thesis unfolding all rest by (auto simp: sum.distrib [symmetric] intro!: sum.cong)
qed

lemma evaluate_result:
  assumes ok: "core_ok base im" and w: "w < wc"
  obtains im' pids os where "evaluator_pass sys w wc im = Some im'"
    "im' = im \<or> core_result base (\<lambda>j. int j \<in> set pids) im im' pids os \<and> valid_pids (tree im) pids"
proof -
  obtain start stop where own: "producers_for_evaluator w wc (length (ptfo_threads im)) = map int [start..<stop]"
    "stop \<le> length (ptfo_threads im)"
    by (rule evaluator_producers [OF w])
  obtain im' pids os where d: "evaluator_drain sys (owned_nodes_of im w wc) (map int [start..<stop]) im = Some im'"
    "im' = im \<and> pids = [] \<or> core_result base (\<lambda>j. int j \<in> set pids) im im' pids os \<and> valid_pids (tree im) pids"
    by (rule evaluator_drain_core [OF ok refl own(2)])
  have "evaluator_pass sys w wc im \<in> {Some im, Some im'}"
    using d(1) unfolding evaluator_pass_def own(1) Let_def by (simp split: EvalAction.split)
  then show thesis using d(2) that by blast
qed

section \<open>Runs\<close>

lemma step_keeps:
  assumes "tstep sys base e c c'" "conc_ok base c" "next_ptfo_sequence (shared c) \<noteq> -1"
  shows "conc_ok base c' \<and> unat (next_ptfo_sequence (shared c')) \<le> unat (next_ptfo_sequence (shared c)) + 1 \<and>
    config (shared c') = config (shared c)"
  using assms
proof (induction rule: tstep.induct)
  case (fetch p c key d)
  have "next_ptfo_sequence (shared (fetched sys p key d c)) = next_ptfo_sequence (shared c) + 1"
    "config (shared (fetched sys p key d c)) = config (shared c)"
    by (simp_all add: fetched_def fetch_sequence_def)
  then show ?case using fetch_keeps [OF fetch(4,1,2,3,5), of sys d] by (simp add: unat_word_ariths)
next
  case (buffer p c key d seq bt)
  then show ?case using buffer_keeps(1) [OF buffer(4,1,2,3)] by (simp add: chained_def)
next
  case (account p c)
  then show ?case using account_keeps [OF account(3,1,2), of sys] by (simp add: counted_def)
next
  case (drain c im)
  obtain im' os where d: "drain_locked sys (shared c) = Some im'"
    "core_result base (\<lambda>_. pending_operation_count (shared c) \<noteq> 0) (shared c) im' (active_producers (shared c)) os"
    by (rule drain_locked_core [OF conc_okD(1) [OF drain(2)], of sys]) (rule that)
  then have "im' = im" using drain(1) by (simp add: drain_pending_def)
  then show ?case using core_result_frame [OF d(2)] drain_keeps [OF drain(2) d(2)] by simp
next
  case (evaluate w wc c im)
  obtain im' pids os where d: "evaluator_pass sys w wc (shared c) = Some im'"
    "im' = shared c \<or> core_result base (\<lambda>j. int j \<in> set pids) (shared c) im' pids os \<and> valid_pids (tree (shared c)) pids"
    by (rule evaluate_result [OF conc_okD(1) [OF evaluate(3)] evaluate(1), of sys]) (rule that)
  then have "im' = im" using evaluate(2) by simp
  then show ?case using d(2) drain_keeps [OF evaluate(3)] core_result_frame evaluate(3) by auto
qed

lemma run_keeps:
  assumes "trun sys base c0 es c" "conc_ok base c0" "unat (next_ptfo_sequence (shared c0)) + length es < 2 ^ 64"
  shows "conc_ok base c \<and> unat (next_ptfo_sequence (shared c)) \<le> unat (next_ptfo_sequence (shared c0)) + length es \<and>
    config (shared c) = config (shared c0)"
  using assms
proof (induction rule: trun.induct)
  case (next_step es c e c')
  then have ih: "conc_ok base c" "unat (next_ptfo_sequence (shared c)) \<le> unat (next_ptfo_sequence (shared c0)) + length es"
    "config (shared c) = config (shared c0)" by simp_all
  then have "unat (next_ptfo_sequence (shared c)) < 2 ^ 64 - 1" using next_step.prems(2) by simp
  moreover have "unat (-1 :: 64 word) = 2 ^ 64 - 1" by (simp add: unsigned_minus_1_eq_mask mask_eq_exp_minus_1)
  ultimately have "next_ptfo_sequence (shared c) \<noteq> -1" by auto
  then show ?case using step_keeps [OF next_step.hyps(2) ih(1)] ih by simp
qed simp

text \<open>The policies that replay every operation of the producers they drain.\<close>

definition replays_all :: "EvaluatorPolicy \<Rightarrow> bool" where
  "replays_all pol \<longleftrightarrow> pol \<noteq> kF3N \<and> pol \<noteq> kLegacyNodePartitioned"

lemma replay_order_all: "replay_order pol bt pids os \<Longrightarrow> replays_all pol \<Longrightarrow> mset os = mset (selected bt pids)"
  by (cases pol) (simp_all add: replay_order_def replays_all_def)

definition applied_once :: "tree_state \<Rightarrow> cstate \<Rightarrow> bool" where
  "applied_once t0 c \<longleftrightarrow> (\<exists>os. replay_ops t0 os = Some (bt_tree (tree (shared c))) \<and>
     mset os + mset (all_pending (tree (shared c))) = mset (history c))"

lemma applied_drain:
  assumes "applied_once t0 c" "core_result base cl (shared c) im pids os" "valid_pids (tree (shared c)) pids"
    "replays_all (evaluator_policy (config (shared c)))"
  shows "applied_once t0 (c\<lparr>shared := im\<rparr>)"
proof -
  note R = assms(2) [unfolded core_result_def]
  obtain ps where ps: "replay_ops t0 ps = Some (bt_tree (tree (shared c)))"
    "mset ps + mset (all_pending (tree (shared c))) = mset (history c)"
    using assms(1) by (auto simp: applied_once_def)
  have "mset os = mset (selected (tree (shared c)) pids)" using replay_order_all R assms(4) by blast
  moreover have "mset (selected (tree (shared c)) pids) + mset (all_pending (tree im)) = mset (all_pending (tree (shared c)))"
    by (rule selected_rest [OF assms(3)]) (use R in auto)
  ultimately have "mset (ps @ os) + mset (all_pending (tree im)) = mset (history c)" using ps(2) by (simp add: ac_simps)
  moreover have "replay_ops t0 (ps @ os) = Some (bt_tree (tree im))" using ps(1) R by (simp add: replay_ops_append)
  ultimately show ?thesis unfolding applied_once_def by fastforce
qed

lemma applied_step:
  assumes "tstep sys base e c c'" "conc_ok base c" "applied_once t0 c" "replays_all (evaluator_policy (config (shared c)))"
  shows "applied_once t0 c'"
  using assms
proof (induction rule: tstep.induct)
  case (fetch p c key d)
  then show ?case by (simp add: applied_once_def fetched_def fetch_sequence_def)
next
  case (buffer p c key d seq bt)
  then show ?case using buffer_keeps(2,3) [OF buffer(4,1,2,3)] by (simp add: applied_once_def chained_def)
next
  case (account p c)
  then show ?case by (simp add: applied_once_def counted_def)
next
  case (drain c im)
  have n: "length (ptfo_threads (shared c)) = n_threads (tree (shared c))" using conc_okD(2,3) [OF drain(2)] by simp
  obtain im' os where d: "drain_locked sys (shared c) = Some im'"
    "core_result base (\<lambda>_. pending_operation_count (shared c) \<noteq> 0) (shared c) im' (active_producers (shared c)) os"
    by (rule drain_locked_core [OF conc_okD(1) [OF drain(2)], of sys]) (rule that)
  then have "im' = im" using drain(1) by (simp add: drain_pending_def)
  then show ?case
    using applied_drain [OF drain(3) d(2) accounted_for_valid [OF active_accounted [OF n]] drain(4)] by simp
next
  case (evaluate w wc c im)
  obtain im' pids os where d: "evaluator_pass sys w wc (shared c) = Some im'"
    "im' = shared c \<or> core_result base (\<lambda>j. int j \<in> set pids) (shared c) im' pids os \<and> valid_pids (tree (shared c)) pids"
    by (rule evaluate_result [OF conc_okD(1) [OF evaluate(3)] evaluate(1), of sys]) (rule that)
  then have "im' = im" using evaluate(2) by simp
  then show ?case using d(2) applied_drain [OF evaluate(4) _ _ evaluate(5)] evaluate(4) by auto
qed

lemma applied_run:
  assumes "trun sys base c0 es c" "conc_ok base c0" "unat (next_ptfo_sequence (shared c0)) + length es < 2 ^ 64"
    "applied_once t0 c0" "replays_all (evaluator_policy (config (shared c0)))"
  shows "applied_once t0 c"
  using assms
proof (induction rule: trun.induct)
  case (next_step es c e c')
  then show ?case using run_keeps [OF next_step.hyps(1)] applied_step [OF next_step.hyps(2)] by simp
qed

lemma cstart_applied: "applied_once (bt_tree (tree im)) (cstart im)"
  unfolding applied_once_def by (rule exI [of _ "[]"]) (simp add: cstart_def)

lemma quiescent_drain:
  assumes ok: "conc_ok base c" and q: "\<forall>ph \<in> set (phases c). ph \<noteq> Unaccounted"
  obtains im where "drain_pending sys (shared c) = Some im" "all_pending (tree im) = []" "pending_operation_count im = 0"
proof -
  note C = conc_okD [OF ok]
  obtain im os where d: "drain_locked sys (shared c) = Some im" "pending_operation_count im = 0"
    "core_result base (\<lambda>_. pending_operation_count (shared c) \<noteq> 0) (shared c) im (active_producers (shared c)) os"
    by (rule drain_locked_core [OF C(1), of sys]) (rule that)
  note R = d(3) [unfolded core_result_def]
  have "producer_ops (tree im) j = []" if j: "j < n_threads (tree (shared c))" for j
  proof (cases "int j \<in> set (active_producers (shared c))")
    case True
    then show ?thesis using R j by simp
  next
    case False
    then have "thr_entry_count (ptfo_threads (shared c) ! j) = 0" using j C(2,3) by (auto simp: active_producers_def)
    moreover have "slack (phases c ! j) = 0" using q j C(3) by (simp add: slack_def)
    ultimately have "producer_ops (tree (shared c)) j = []" using C(4) [of j] C(3) j by simp
    then show ?thesis using R j False by simp
  qed
  then have "all_pending (tree im) = []" using R by (simp add: all_pending_def)
  then show thesis using that d by (simp add: drain_pending_def)
qed

section \<open>Searches during a run\<close>

text \<open>The hash tables lead to every buffered key and have room for all but \<open>n\<close> operations.\<close>

definition loaded :: "nat \<Rightarrow> nat \<Rightarrow> cstate \<Rightarrow> bool" where
  "loaded cap n c \<longleftrightarrow> hash_covers (tree (shared c)) \<and> load (tree (shared c)) cap n"

lemma load_mono: "load bt c n \<Longrightarrow> n \<le> n' \<Longrightarrow> load bt c n'"
  by (auto simp: load_def intro: le_trans)

lemma loaded_drain:
  assumes "loaded cap n c" "core_result base cl (shared c) im pids os"
  shows "loaded cap (n + 1) (c\<lparr>shared := im\<rparr>)"
proof -
  note R = assms(2) [unfolded core_result_def]
  have "hash_covers (tree im)"
    by (rule hash_covers_drain [of "tree (shared c)" _ pids]) (use assms(1) R in \<open>auto simp: loaded_def\<close>)
  moreover have "load (tree im) cap n"
    by (rule load_drain [of "tree (shared c)"]) (use assms(1) R in \<open>auto simp: loaded_def\<close>)
  ultimately show ?thesis using load_mono by (simp add: loaded_def)
qed

lemma loaded_step:
  assumes "tstep sys base e c c'" "conc_ok base c" "loaded cap n c" "n < cap"
  shows "loaded cap (n + 1) c'"
  using assms
proof (induction rule: tstep.induct)
  case (fetch p c key d)
  then show ?case using load_mono by (auto simp: loaded_def fetched_def fetch_sequence_def)
next
  case (buffer p c key d seq bt)
  note C = conc_okD [OF buffer(4)]
  have f: "fut_ok (tree (shared c))" "p < n_threads (tree (shared c))" "to_int p = int p"
    using C(1-3) buffer(1) by (auto simp: core_ok_def to_int_nat)
  have i: "future_insert (tree (shared c)) key (int p) d seq = Some bt" using buffer(3) f(3) by simp
  have "room (tree (shared c)) p key" using load_room [OF f(1), of cap n p key] buffer(5,6) f(2) by (simp add: loaded_def)
  then have "hash_room (tree (shared c)) p key" "hash_covers (tree (shared c))" using buffer(5) by (auto simp: room_def loaded_def)
  moreover obtain bt' where "future_insert (tree (shared c)) key (int p) d seq = Some bt'"
    "hash_covers (tree (shared c)) \<Longrightarrow> hash_room (tree (shared c)) p key \<Longrightarrow> hash_covers bt'"
    by (rule future_insert_ok [OF f(1,2), of key d seq]) (rule that)
  ultimately have "hash_covers bt" using i by simp
  moreover have "load bt cap (n + 1)" using load_insert [OF f(1) _ f(2) i] buffer(5) by (simp add: loaded_def)
  ultimately show ?case by (simp add: loaded_def chained_def)
next
  case (account p c)
  then show ?case using load_mono by (auto simp: loaded_def counted_def)
next
  case (drain c im)
  obtain im' os where d: "drain_locked sys (shared c) = Some im'"
    "core_result base (\<lambda>_. pending_operation_count (shared c) \<noteq> 0) (shared c) im' (active_producers (shared c)) os"
    by (rule drain_locked_core [OF conc_okD(1) [OF drain(2)], of sys]) (rule that)
  then have "im' = im" using drain(1) by (simp add: drain_pending_def)
  then show ?case using loaded_drain [OF drain(3) d(2)] by simp
next
  case (evaluate w wc c im)
  obtain im' pids os where d: "evaluator_pass sys w wc (shared c) = Some im'"
    "im' = shared c \<or> core_result base (\<lambda>j. int j \<in> set pids) (shared c) im' pids os \<and> valid_pids (tree (shared c)) pids"
    by (rule evaluate_result [OF conc_okD(1) [OF evaluate(3)] evaluate(1), of sys]) (rule that)
  then have "im' = im" using evaluate(2) by simp
  then show ?case using d(2) loaded_drain [OF evaluate(4)] evaluate(4) load_mono by (auto simp: loaded_def)
qed

lemma loaded_run:
  assumes "trun sys base c0 es c" "conc_ok base c0" "unat (next_ptfo_sequence (shared c0)) + length es < 2 ^ 64"
    "loaded cap n c0" "n + length es \<le> cap"
  shows "loaded cap (n + length es) c"
  using assms
proof (induction rule: trun.induct)
  case (next_step es c e c')
  then show ?case using run_keeps [OF next_step.hyps(1)] loaded_step [OF next_step.hyps(2), of cap "n + length es"] by simp
qed simp

section \<open>Properties of all interleavings\<close>

text \<open>However the three steps of buffered operations, full drains and passes of evaluator workers are
  interleaved, drains always return, the counters stay the sums of the thread states, sequence numbers
  stay unique and increase along every chain, and no chain is longer than its accounting admits: at most
  the one operation its producer has not yet accounted for is missing from the count.\<close>

theorem interleaving_invariant:
  assumes "impl_ok base im0" "trun sys base (cstart im0) es c" "unat (next_ptfo_sequence im0) + length es < 2 ^ 64"
  shows "core_ok base (shared c) \<and> (\<exists>im. drain_pending sys (shared c) = Some im) \<and>
    list_all2 (\<lambda>ph (th, j). length (producer_ops (tree (shared c)) j) \<le> thr_entry_count th + (if ph = Unaccounted then 1 else 0))
      (phases c) (zip (ptfo_threads (shared c)) [0..<length (phases c)])"
proof -
  have "shared (cstart im0) = im0" by (simp add: cstart_def)
  then have ok: "conc_ok base c" using run_keeps [OF assms(2) cstart_ok [OF assms(1)]] assms(3) by simp
  note C = conc_okD [OF ok]
  have "\<exists>im. drain_pending sys (shared c) = Some im"
    by (rule drain_locked_core [OF C(1), of sys]) (auto simp: drain_pending_def)
  moreover have "list_all2 (\<lambda>ph (th, j). length (producer_ops (tree (shared c)) j) \<le> thr_entry_count th + (if ph = Unaccounted then 1 else 0))
      (phases c) (zip (ptfo_threads (shared c)) [0..<length (phases c)])"
    using C(2,4) by (simp add: list_all2_conv_all_nth slack_def)
  ultimately show ?thesis using C(1) by blast
qed

text \<open>Two producers at work, one of them between buffering and accounting during a drain.\<close>

definition racing :: "event list" where
  "racing = [Fetch 0 7 False, Buffer 0, Account 0, Fetch 1 9 False, Buffer 1, Drain_all, Account 1]"

definition sample_start :: "EvaluatorPolicy \<Rightarrow> cstate" where
  "sample_start pol = cstart (Impl_ctor 4096 no_topology (sample_config pol))"

lemma sample_start_ok:
  "impl_ok 4096 (Impl_ctor 4096 no_topology (sample_config pol))"
  "unat (next_ptfo_sequence (Impl_ctor 4096 no_topology (sample_config pol))) \<le> 2"
  "evaluator_policy (config (Impl_ctor 4096 no_topology (sample_config pol))) = pol"
  using ctor_implements [of "sample_config pol" 4096 "\<lambda>_. 0" no_topology]
  by (simp_all add: implements_def sample_config_def default_config_def)

lemma racing_run:
  obtains c where "trun sample_sys 4096 (sample_start kF3K) racing c" "phases c = [Idle, Idle]"
    "history c = [buffered 7 False 2 0, buffered 9 False 3 1]"
proof -
  have "list_all (fetches_storable 4096) racing" by code_simp
  moreover have "(case execs sample_sys racing (sample_start kF3K) of Some c \<Rightarrow>
      phases c = [Idle, Idle] \<and> history c = [buffered 7 False 2 0, buffered 9 False 3 1] | None \<Rightarrow> False)" by code_simp
  ultimately show thesis using that execs_trun [of sample_sys racing "sample_start kF3K"] by (auto split: option.splits)
qed

theorem interleaving_invariant_witness:
  "\<exists>c. trun sample_sys 4096 (sample_start kF3K) racing c \<and> core_ok 4096 (shared c)"
proof -
  obtain c where c: "trun sample_sys 4096 (sample_start kF3K) racing c" by (rule racing_run)
  have "unat (next_ptfo_sequence (Impl_ctor 4096 no_topology (sample_config kF3K))) + length racing < 2 ^ 64"
    using sample_start_ok(2) [of kF3K] by (simp add: racing_def)
  then show ?thesis
    using interleaving_invariant [OF sample_start_ok(1) c [unfolded sample_start_def]] c by blast
qed

text \<open>C10: No operation is stranded by a race: in any interleaving, once no producer is between buffering and
  accounting, \<^verbatim>\<open>drain_pending\<close> empties every chain and every counter.\<close>

theorem interleaved_drain_completes:
  assumes "impl_ok base im0" "trun sys base (cstart im0) es c" "unat (next_ptfo_sequence im0) + length es < 2 ^ 64"
    "\<forall>ph \<in> set (phases c). ph \<noteq> Unaccounted"
  shows "\<exists>im. drain_pending sys (shared c) = Some im \<and> all_pending (tree im) = [] \<and> pending_operation_count im = 0"
proof -
  have "shared (cstart im0) = im0" by (simp add: cstart_def)
  then have "conc_ok base c" using run_keeps [OF assms(2) cstart_ok [OF assms(1)]] assms(3) by simp
  then show ?thesis using quiescent_drain [OF _ assms(4), of base sys] by metis
qed

theorem interleaved_drain_completes_witness:
  "\<exists>c im. trun sample_sys 4096 (sample_start kF3K) racing c \<and> drain_pending sample_sys (shared c) = Some im \<and>
     all_pending (tree im) = []"
proof -
  obtain c where c: "trun sample_sys 4096 (sample_start kF3K) racing c" "phases c = [Idle, Idle]" by (rule racing_run)
  have "unat (next_ptfo_sequence (Impl_ctor 4096 no_topology (sample_config kF3K))) + length racing < 2 ^ 64"
    using sample_start_ok(2) [of kF3K] by (simp add: racing_def)
  then show ?thesis
    using interleaved_drain_completes [OF sample_start_ok(1) c(1) [unfolded sample_start_def]] c by auto
qed

text \<open>C9: Under the policies that replay every operation, F3-K and the deterministic replay, every
  interleaving applies each buffered operation exactly once: the global tree is the replay of operations
  that together with the pending ones are exactly those buffered so far.\<close>

theorem interleaving_applies_once:
  assumes "impl_ok base im0" "trun sys base (cstart im0) es c" "unat (next_ptfo_sequence im0) + length es < 2 ^ 64"
    "replays_all (evaluator_policy (config im0))"
  shows "\<exists>os. replay_ops (bt_tree (tree im0)) os = Some (bt_tree (tree (shared c))) \<and>
    mset os + mset (all_pending (tree (shared c))) = mset (history c)"
proof -
  have "shared (cstart im0) = im0" by (simp add: cstart_def)
  then have "applied_once (bt_tree (tree im0)) c"
    using applied_run [OF assms(2) cstart_ok [OF assms(1)] _ cstart_applied] assms(3,4) by simp
  then show ?thesis by (simp add: applied_once_def)
qed

theorem interleaving_applies_once_witness:
  "\<exists>c os. trun sample_sys 4096 (sample_start kF3K) racing c \<and>
     mset os + mset (all_pending (tree (shared c))) = {#buffered 7 False 2 0, buffered 9 False 3 1#}"
proof -
  obtain c where c: "trun sample_sys 4096 (sample_start kF3K) racing c"
    "history c = [buffered 7 False 2 0, buffered 9 False 3 1]" by (rule racing_run)
  have u: "unat (next_ptfo_sequence (Impl_ctor 4096 no_topology (sample_config kF3K))) + length racing < 2 ^ 64"
    using sample_start_ok(2) [of kF3K] by (simp add: racing_def)
  have "replays_all (evaluator_policy (config (Impl_ctor 4096 no_topology (sample_config kF3K))))"
    using sample_start_ok(3) [of kF3K] by (simp add: replays_all_def)
  from interleaving_applies_once [OF sample_start_ok(1) c(1) [unfolded sample_start_def] u this] show ?thesis
    using c by auto
qed




end
