(* ===== verification/Legacy_Evaluator.thy ===== *)
theory Legacy_Evaluator
  imports Drains
begin

text \<open>
  The evaluator loop inside the tree (\<^verbatim>\<open>core/btree.h\<close>, \<^verbatim>\<open>future_evaluate\<close> and
  \<^verbatim>\<open>future_evaluate_execute\<close>), which the wrapper replaced by its own worker threads: it applies nodes
  from the tail of a chain and stops in front of the newest one.  A dereference of a null or dangling
  link, freeing the dummy head and an index behind the array of chains have no result.
\<close>

section \<open>Model\<close>

text \<open>The loop over one chain; \<open>seen\<close> is the local \<^verbatim>\<open>last_node\<close>.\<close>

partial_function (option) execute_loop :: "tree_state \<Rightarrow> ptfo \<Rightarrow> future_ref \<Rightarrow> (tree_state \<times> ptfo) option" where
  "execute_loop t p seen =
     (if seen = nnext (local_fut p) then Some (t, p)
      else (case nnext (local_fut_tail p) of
              FNull \<Rightarrow> None
            | FHead \<Rightarrow> None
            | FNode a \<Rightarrow>
                do { n \<leftarrow> fnodes p a;
                     t' \<leftarrow> replay_ops t (node_ops 0 n);
                     let hd = (local_fut p)\<lparr>entry_count := entry_count (local_fut p) - 1\<rparr>;
                         p' = p\<lparr>local_fut_tail := (local_fut_tail p)\<lparr>nnext := nprev n\<rparr>,
                                local_fut := (if entry_count hd = 0 then hd\<lparr>is_done := True\<rparr> else hd),
                                fnodes := (fnodes p)(a := None)\<rparr>
                     in if entry_count hd = 0 then Some (t', p') else execute_loop t' p' (nprev n) }))"

declare execute_loop.simps [code]

fun execute_chains :: "btree \<Rightarrow> nat list \<Rightarrow> btree option" where
  "execute_chains bt [] = Some bt"
| "execute_chains bt (i # is) =
     (if i < n_threads bt
      then do { (t, p) \<leftarrow> execute_loop (bt_tree bt) (bt_ptfos bt ! i) FNull;
                execute_chains (bt\<lparr>bt_tree := t, bt_ptfos := (bt_ptfos bt)[i := p]\<rparr>) is }
      else None)"

definition future_evaluate_execute :: "btree \<Rightarrow> nat \<Rightarrow> nat \<Rightarrow> btree option" where
  "future_evaluate_execute bt tid total_t = execute_chains bt [tid * total_t..<(tid + 1) * total_t]"

definition prod_to_cons :: "btree \<Rightarrow> nat \<Rightarrow> nat" where
  "prod_to_cons bt tid =
     (if tid = 0 then n_threads bt div bt_eval_threads bt + n_threads bt mod bt_eval_threads bt
      else n_threads bt div bt_eval_threads bt)"

text \<open>The body of the loop of \<^verbatim>\<open>future_evaluate\<close>.\<close>

definition evaluate_body :: "btree \<Rightarrow> nat \<Rightarrow> btree option" where
  "evaluate_body bt tid =
     (if entry_count (local_fut (bt_ptfos bt ! tid)) = 0 then Some bt
      else do { bt' \<leftarrow> future_evaluate_execute bt tid (prod_to_cons bt tid);
                Some (if \<exists>i \<in> {tid..<n_threads bt'}. is_done (local_fut (bt_ptfos bt' ! i))
                      then bt'\<lparr>bt_is_Done := True\<rparr> else bt') })"

partial_function (option) future_evaluate :: "btree \<Rightarrow> nat \<Rightarrow> btree option" where
  "future_evaluate bt tid =
     do { bt' \<leftarrow> evaluate_body bt tid;
          if bt_is_Done bt' then Some bt' else future_evaluate bt' tid }"

declare future_evaluate.simps [code]

section \<open>One chain\<close>

text \<open>What the loop relies on: the links towards the head, the tail and the number of nodes.  Links away
  from the head are not among it, since the loop leaves them dangling.\<close>

definition back_ok :: "ptfo \<Rightarrow> nat list \<Rightarrow> bool" where
  "back_ok p as \<longleftrightarrow>
     back_links (fnodes p) FHead as \<and> distinct as \<and> as \<noteq> [] \<and> nnext (local_fut_tail p) = FNode (last as) \<and>
     nnext (local_fut p) = FNode (hd as) \<and> entry_count (local_fut p) = int (length as)"

lemma execute_step:
  assumes ok: "back_ok p (as @ [a])" and l: "seen \<noteq> nnext (local_fut p)"
    and r: "replay_ops t (node_ops tid (the (fnodes p a))) = Some t'" and ne: "as \<noteq> []"
  obtains p' where "execute_loop t p seen = execute_loop t' p' (FNode (last as))" "back_ok p' as"
    "\<And>x. x \<noteq> a \<Longrightarrow> fnodes p' x = fnodes p x" "is_done (local_fut p') = is_done (local_fut p)"
proof -
  obtain n where n: "fnodes p a = Some n" "nprev n = FNode (last as)"
    using ok ne by (auto simp: back_ok_def back_links_snoc)
  let ?p = "p\<lparr>local_fut_tail := (local_fut_tail p)\<lparr>nnext := FNode (last as)\<rparr>,
      local_fut := (local_fut p)\<lparr>entry_count := entry_count (local_fut p) - 1\<rparr>, fnodes := (fnodes p)(a := None)\<rparr>"
  have "execute_loop t p seen = execute_loop t' ?p (FNode (last as))"
    using ok l r n ne replay_node_ops [of t tid n 0]
    by (subst execute_loop.simps) (simp add: back_ok_def Let_def)
  moreover have "back_links (fnodes ?p) FHead as"
    by (rule back_links_frame [of "fnodes p"]) (use ok in \<open>auto simp: back_ok_def back_links_snoc\<close>)
  then have "back_ok ?p as" using ok ne by (simp add: back_ok_def)
  ultimately show thesis using that [of ?p] by simp
qed

text \<open>A chain of several nodes is applied except for the newest one.\<close>

lemma execute_all_but_newest:
  assumes "back_ok p (b # bs)" "bs \<noteq> []" "seen \<noteq> FNode b" "replay_ops t (ops_of tid (fnodes p) bs) = Some t'"
  shows "\<exists>p'. execute_loop t p seen = Some (t', p') \<and> back_ok p' [b] \<and> fnodes p' b = fnodes p b \<and>
    is_done (local_fut p') = is_done (local_fut p)"
  using assms
proof (induction bs arbitrary: p t seen rule: rev_induct)
  case (snoc a bs)
  obtain t1 where t1: "replay_ops t (node_ops tid (the (fnodes p a))) = Some t1" "replay_ops t1 (ops_of tid (fnodes p) bs) = Some t'"
    using snoc.prems(4) by (auto simp: replay_ops_append bind_eq_Some_conv)
  have l: "seen \<noteq> nnext (local_fut p)" using snoc.prems(1,3) by (simp add: back_ok_def)
  obtain p1 where p1: "execute_loop t p seen = execute_loop t1 p1 (FNode (last (b # bs)))" "back_ok p1 (b # bs)"
    "\<And>x. x \<noteq> a \<Longrightarrow> fnodes p1 x = fnodes p x" "is_done (local_fut p1) = is_done (local_fut p)"
    using execute_step [of p "b # bs" a seen t tid t1] snoc.prems(1) l t1(1) by auto
  have d: "a \<noteq> b" "a \<notin> set bs" "b \<notin> set bs" using snoc.prems(1) by (auto simp: back_ok_def)
  then have ops: "ops_of tid (fnodes p1) bs = ops_of tid (fnodes p) bs" by (intro ops_of_frame) (metis p1(3))
  show ?case
  proof (cases "bs = []")
    case True
    then have "execute_loop t1 p1 (FNode b) = Some (t1, p1)" "t1 = t'"
      using p1(2) t1(2) by (auto simp: back_ok_def execute_loop.simps)
    then show ?thesis using p1 True d by auto
  next
    case False
    then have "FNode (last (b # bs)) \<noteq> FNode b" using d(3) last_in_set by fastforce
    from snoc.IH [OF p1(2) False this] t1(2) ops show ?thesis using p1 d(1) by auto
  qed
qed simp

text \<open>The newest node is applied when it is the only one, and the chain is marked as done.\<close>

lemma execute_single:
  assumes "back_ok p [b]" "replay_ops t (ops_of tid (fnodes p) [b]) = Some t'"
  shows "\<exists>p'. execute_loop t p FNull = Some (t', p') \<and> is_done (local_fut p') \<and> entry_count (local_fut p') = 0 \<and>
    nnext (local_fut p') = FNode b \<and> fnodes p' b = None"
proof -
  obtain n where n: "fnodes p b = Some n" using assms(1) by (auto simp: back_ok_def)
  then have "replay_ops t (node_ops 0 n) = Some t'" using assms(2) replay_node_ops [of t tid n 0] by simp
  then show ?thesis using assms(1) n by (subst execute_loop.simps) (simp add: back_ok_def Let_def)
qed

section \<open>The evaluator of one producer\<close>

lemma single_range:
  assumes "n_threads bt = 1" "bt_eval_threads bt = 1"
  shows "future_evaluate_execute bt 0 (prod_to_cons bt 0) = execute_chains bt [0]"
  using assms by (simp add: future_evaluate_execute_def prod_to_cons_def)

lemma evaluate_once:
  assumes one: "n_threads bt = 1" "bt_eval_threads bt = 1"
    and ex: "execute_loop (bt_tree bt) (bt_ptfos bt ! 0) FNull = Some (t, p)"
    and ne: "entry_count (local_fut (bt_ptfos bt ! 0)) \<noteq> 0"
  shows "evaluate_body bt 0 = Some (bt\<lparr>bt_tree := t, bt_ptfos := [p], bt_is_Done := bt_is_Done bt \<or> is_done (local_fut p)\<rparr>)"
proof -
  have "bt_ptfos bt = [bt_ptfos bt ! 0]" using one(1) by (cases "bt_ptfos bt") (auto simp: n_threads_def)
  then have l: "(bt_ptfos bt)[0 := p] = [p]" by (metis list_update_code(2))
  have "future_evaluate_execute bt 0 (prod_to_cons bt 0) = Some (bt\<lparr>bt_tree := t, bt_ptfos := [p]\<rparr>)"
    unfolding single_range [OF one] using one(1) ex l by simp
  then show ?thesis using ne by (simp add: evaluate_body_def n_threads_def)
qed

text \<open>With one producer and one evaluator the legacy loop ends and has applied the whole chain, in the
  order of buffering: a first pass leaves the newest node, a second one applies it and sets the flag that
  ends the loop.\<close>

theorem legacy_evaluator_drains:
  assumes one: "n_threads bt = 1" "bt_eval_threads bt = 1"
    and p: "ptfo_ok (bt_ptfos bt ! 0) as" "as \<noteq> []" "entry_count (local_fut (bt_ptfos bt ! 0)) = int (length as)"
    and nd: "\<not> is_done (local_fut (bt_ptfos bt ! 0))" "\<not> bt_is_Done bt"
    and r: "replay_ops (bt_tree bt) (producer_ops bt 0) = Some t'"
  shows "\<exists>bt'. future_evaluate bt 0 = Some bt' \<and> bt_tree bt' = t' \<and> bt_is_Done bt'"
proof -
  let ?p = "bt_ptfos bt ! 0"
  have ops: "producer_ops bt 0 = ops_of 0 (fnodes ?p) as" using pending_ops_of [OF p(1)] by (simp add: producer_ops_def)
  obtain b bs where as: "as = b # bs" using p(2) by (cases as) auto
  have bk: "back_ok ?p (b # bs)"
    using p unfolding as by (auto simp: ptfo_ok_def back_ok_def)
  have finish: "\<exists>bt'. future_evaluate bt1 0 = Some bt' \<and> bt_tree bt' = t' \<and> bt_is_Done bt'"
    if b1: "n_threads bt1 = 1" "bt_eval_threads bt1 = 1" "back_ok (bt_ptfos bt1 ! 0) [b]"
      "replay_ops (bt_tree bt1) (ops_of 0 (fnodes (bt_ptfos bt1 ! 0)) [b]) = Some t'" for bt1
  proof -
    obtain p' where "execute_loop (bt_tree bt1) (bt_ptfos bt1 ! 0) FNull = Some (t', p')" "is_done (local_fut p')"
      using execute_single [OF b1(3,4)] by blast
    then have "evaluate_body bt1 0 = Some (bt1\<lparr>bt_tree := t', bt_ptfos := [p'], bt_is_Done := True\<rparr>)"
      using evaluate_once [OF b1(1,2)] b1(3) by (simp add: back_ok_def)
    then show ?thesis by (subst future_evaluate.simps) simp
  qed
  show ?thesis
  proof (cases "bs = []")
    case True
    then show ?thesis using finish [OF one] bk r ops as by simp
  next
    case False
    obtain t1 where t1: "replay_ops (bt_tree bt) (ops_of 0 (fnodes ?p) bs) = Some t1"
      "replay_ops t1 (ops_of 0 (fnodes ?p) [b]) = Some t'"
      using r unfolding ops as by (auto simp: replay_ops_append bind_eq_Some_conv)
    obtain p1 where p1: "execute_loop (bt_tree bt) ?p FNull = Some (t1, p1)" "back_ok p1 [b]" "fnodes p1 b = fnodes ?p b"
      "\<not> is_done (local_fut p1)"
      using execute_all_but_newest [OF bk False _ t1(1), of FNull] nd(1) by auto
    let ?bt = "bt\<lparr>bt_tree := t1, bt_ptfos := [p1]\<rparr>"
    have ec: "entry_count (local_fut ?p) \<noteq> 0" using bk by (simp add: back_ok_def)
    have "evaluate_body bt 0 = Some ?bt"
      using evaluate_once [OF one p1(1) ec] p1(4) nd(2) by simp
    then have "future_evaluate bt 0 = future_evaluate ?bt 0" using nd(2) by (subst future_evaluate.simps) simp
    moreover have "ops_of 0 (fnodes p1) [b] = ops_of 0 (fnodes ?p) [b]" using p1(3) by simp
    ultimately show ?thesis using finish [of ?bt] one p1(2) t1(2) by (simp add: n_threads_def)
  qed
qed

section \<open>The ranges of the evaluators\<close>

definition legacy_range :: "btree \<Rightarrow> nat \<Rightarrow> nat set" where
  "legacy_range bt tid = {tid * prod_to_cons bt tid..<(tid + 1) * prod_to_cons bt tid}"

lemma even_ranges:
  assumes "(q :: nat) > 0"
  shows "p \<in> {tid * q..<(tid + 1) * q} \<longleftrightarrow> tid = p div q"
proof
  assume "p \<in> {tid * q..<(tid + 1) * q}"
  then show "tid = p div q" using div_nat_eqI [of q tid p] by (simp add: mult.commute)
next
  assume "tid = p div q"
  moreover have "p div q * q \<le> p" by simp
  moreover have "p < p div q * q + q" using dividend_less_div_times [OF assms, of p] by (simp add: mult.commute)
  ultimately show "p \<in> {tid * q..<(tid + 1) * q}" by simp
qed

text \<open>The ranges of producers that the legacy evaluators apply cover every producer exactly once only if
  the number of evaluators divides that of the producers or exceeds it.  Otherwise the last producers
  belong to no evaluator, since only the range of evaluator 0 is widened by the remainder.\<close>

theorem legacy_ranges_cover:
  assumes "0 < bt_eval_threads bt"
  shows "(\<forall>p < n_threads bt. \<exists>!tid. tid < bt_eval_threads bt \<and> p \<in> legacy_range bt tid) \<longleftrightarrow>
    n_threads bt mod bt_eval_threads bt = 0 \<or> n_threads bt < bt_eval_threads bt"
proof -
  define n e where "n = n_threads bt" and "e = bt_eval_threads bt"
  define q r where "q = n div e" and "r = n mod e"
  have ne: "n = q * e + r" "r < e" "0 < e" using assms by (auto simp: q_def r_def e_def)
  have rg: "legacy_range bt tid = (if tid = 0 then {0..<q + r} else {tid * q..<(tid + 1) * q})" for tid
    by (simp add: legacy_range_def prod_to_cons_def q_def r_def n_def e_def)
  consider "q = 0" | "q > 0" "r = 0" | "q > 0" "r > 0" by linarith
  then have "(\<forall>p < n. \<exists>!tid. tid < e \<and> p \<in> legacy_range bt tid) \<longleftrightarrow> r = 0 \<or> n < e"
  proof cases
    case 1
    then have "p \<in> legacy_range bt tid \<longleftrightarrow> tid = 0 \<and> p < n" for p tid using ne by (auto simp: rg)
    then show ?thesis using ne 1 by auto
  next
    case 2
    have "p \<in> legacy_range bt tid \<longleftrightarrow> tid = p div q" for p tid
      using even_ranges [OF 2(1), of p tid] 2(2) by (auto simp: rg)
    moreover have "p div q < e" if "p < n" for p using that ne 2 by (simp add: less_mult_imp_div_less mult.commute)
    ultimately show ?thesis using 2 by auto
  next
    case 3
    have "n - 1 \<notin> legacy_range bt tid" if t: "tid < e" for tid
    proof -
      have "(tid + 1) * q \<le> e * q" using t by (intro mult_right_mono) auto
      moreover have "e > 1" using 3 ne by simp
      then have "2 * q \<le> e * q" by (intro mult_right_mono) auto
      then have "q + q \<le> e * q" by linarith
      ultimately show ?thesis using ne 3 by (auto simp: rg mult.commute)
    qed
    moreover have "e \<le> q * e" using 3 by (cases q) auto
    then have "n - 1 < n" "\<not> n < e" using ne(1) 3(2) by linarith+
    ultimately show ?thesis using 3 by blast
  qed
  then show ?thesis by (simp add: n_def e_def r_def)
qed

section \<open>Samples\<close>

text \<open>A tree with one producer that has buffered the insertions of 1 to \<open>n\<close>.\<close>

definition legacy_sample :: "nat \<Rightarrow> btree" where
  "legacy_sample n = fold (\<lambda>i bt. case future_insert bt (int i) 0 False (word_of_nat i) of Some bt' \<Rightarrow> bt' | None \<Rightarrow> bt)
     [1..<n + 1] (btree_ctor 4096 1 1 32)"

definition one_node :: btree where
  "one_node = (btree_ctor 4096 1 1 64)\<lparr>bt_ptfos := [case chain_insert ptfo_ctor 1 False 1 of Some p \<Rightarrow> p | None \<Rightarrow> ptfo_ctor]\<rparr>"

theorem legacy_evaluator_drains_witness: "\<exists>bt'. future_evaluate one_node 0 = Some bt' \<and> bt_is_Done bt'"
proof -
  have h: "n_threads one_node = 1" "bt_eval_threads one_node = 1" "ptfo_ok (bt_ptfos one_node ! 0) [0]"
    "entry_count (local_fut (bt_ptfos one_node ! 0)) = int (length [0 :: nat])" "\<not> is_done (local_fut (bt_ptfos one_node ! 0))"
    "\<not> bt_is_Done one_node"
    by (simp_all add: one_node_def btree_ctor_def n_threads_def chain_insert_def ptfo_ctor_def future_Node_ctor_def
        put_entry_def ptfo_ok_def node_wf_def cardinality_val)
  have "replay_ops (bt_tree one_node) (producer_ops one_node 0) \<noteq> None" by code_simp
  then obtain t where "replay_ops (bt_tree one_node) (producer_ops one_node 0) = Some t" by blast
  then show ?thesis using legacy_evaluator_drains [OF h(1-3) _ h(4-6)] by auto
qed

theorem legacy_ranges_cover_witness:
  "\<not> (\<forall>p < 3. \<exists>!tid. tid < 2 \<and> p \<in> legacy_range (btree_ctor 4096 3 2 8) tid)"
proof -
  have "n_threads (btree_ctor 4096 3 2 8) = 3" "bt_eval_threads (btree_ctor 4096 3 2 8) = 2"
    by (simp_all add: btree_ctor_def n_threads_def)
  then show ?thesis using legacy_ranges_cover [of "btree_ctor 4096 3 2 8"] by simp
qed

text \<open>The links the legacy loop leaves behind: after a pass over two nodes a search for a key that is
  not in the remaining node runs into the freed one, and after the last node has been applied the next
  insert does.\<close>

theorem legacy_evaluator_dangles:
  "(case future_evaluate (legacy_sample 1) 0 of Some bt \<Rightarrow> future_insert bt 5 0 False 9 = None | None \<Rightarrow> False) \<and>
   (case future_evaluate_execute (legacy_sample 29) 0 1 of Some bt \<Rightarrow>
      future_state (legacy_sample 29) 77 0 = Some FUTURE_ABSENT \<and> future_state bt 77 0 = None | None \<Rightarrow> False)"
  by code_simp

end
