(* ===== verification/Rebalance.thy ===== *)
theory Rebalance
  imports BTree_Ops
begin

text \<open>
  Deletion with rebalancing (\<^verbatim>\<open>core/btree.h\<close>, \<^verbatim>\<open>page::remove_rebalancing\<close> and
  \<^verbatim>\<open>btree::btree_delete_internal\<close>), which the code keeps beside the plain removal and does not call.
  The page mutexes matter here, since the operations nest: locking a mutex the thread holds has no result
  (a deadlock), and so has the use of the pointer \<^verbatim>\<open>left_sibling\<close> before it was assigned.
  \<^verbatim>\<open>btree_insert_internal\<close> locks and unlocks pages of the level above only and leaves the locks as they
  were.
\<close>

section \<open>Locks\<close>

type_synonym locks = "int list"

definition lock :: "int \<Rightarrow> locks \<Rightarrow> locks option" where
  "lock a L = (if a \<in> set L then None else Some (a # L))"

definition unlock :: "int \<Rightarrow> locks \<Rightarrow> locks option" where
  "unlock a L = (if a \<in> set L then Some (remove1 a L) else None)"

definition lock_if :: "bool \<Rightarrow> int \<Rightarrow> locks \<Rightarrow> locks option" where
  "lock_if b a L = (if b then lock a L else Some L)"

definition unlock_if :: "bool \<Rightarrow> int \<Rightarrow> locks \<Rightarrow> locks option" where
  "unlock_if b a L = (if b then unlock a L else Some L)"

lemma unlock_lock [simp]: "lock a L = Some L1 \<Longrightarrow> unlock a L1 = Some L"
  by (auto simp: lock_def unlock_def split: if_splits)

text \<open>\<^verbatim>\<open>page::remove\<close>, which takes the lock whatever its parameters say.\<close>

definition remove_locked :: "tree_state \<Rightarrow> locks \<Rightarrow> int \<Rightarrow> entry_key_t \<Rightarrow> (bool \<times> tree_state \<times> locks) option" where
  "remove_locked t L a key =
     do { L1 \<leftarrow> lock a L; (r, t') \<leftarrow> remove_page t a key; L2 \<leftarrow> unlock a L1; Some (r, t', L2) }"

section \<open>Removing a page from its parent\<close>

record parent_out =
  deleted_key :: entry_key_t
  is_leftmost_node :: bool
  left_sibling :: "int option"

text \<open>The loop for the record of the child; a record whose pointer equals the one before is dead.\<close>

function find_child :: "entry list \<Rightarrow> entry_ptr_t \<Rightarrow> entry_ptr_t \<Rightarrow> nat \<Rightarrow> nat option" where
  "find_child rs lm ptr i =
     (if eptr (slot rs i) = 0 then None
      else if eptr (slot rs i) = ptr \<and> (if i = 0 then lm else eptr (slot rs (i - 1))) \<noteq> eptr (slot rs i) then Some i
      else find_child rs lm ptr (i + 1))"
  by pat_completeness auto
termination
  by (relation "measure (\<lambda>(rs, lm, ptr, i). length rs - i)")
    (auto simp: slot_def entry_ctor_def split: if_splits)

declare find_child.simps [simp del]

definition btree_delete_internal ::
  "tree_state \<Rightarrow> locks \<Rightarrow> entry_key_t \<Rightarrow> entry_ptr_t \<Rightarrow> nat \<Rightarrow> parent_out \<Rightarrow> (parent_out \<times> tree_state \<times> locks) option" where
  "btree_delete_internal t L key ptr lvl out =
     do { r \<leftarrow> pages t (root t);
          (if lvl > level r then Some (out, t, L)
           else do { a \<leftarrow> find_level (pages t) (root t) key lvl;
                     L1 \<leftarrow> lock a L;
                     p \<leftarrow> pages t a;
                     (if leftmost_ptr p = ptr
                      then do { L2 \<leftarrow> unlock a L1; Some (out\<lparr>is_leftmost_node := True\<rparr>, t, L2) }
                      else (case find_child (records p) (leftmost_ptr p) ptr 0 of
                              None \<Rightarrow> do { L2 \<leftarrow> unlock a L1; Some (out\<lparr>is_leftmost_node := False\<rparr>, t, L2) }
                            | Some i \<Rightarrow>
                                do { (_, t', L2) \<leftarrow> remove_locked t L1 a (ekey (slot (records p) i));
                                     L3 \<leftarrow> unlock a L2;
                                     Some (out\<lparr>is_leftmost_node := False, deleted_key := ekey (slot (records p) i),
                                               left_sibling := Some (if i = 0 then leftmost_ptr p else eptr (slot (records p) (i - 1)))\<rparr>,
                                           t', L3) })) }) }"

section \<open>Merging and redistribution\<close>

text \<open>Moving records to the front of a page, from the highest index down to \<open>m\<close>; \<open>k\<close> records are left.\<close>

fun move_down :: "entry list \<Rightarrow> nat \<Rightarrow> nat \<Rightarrow> page \<times> nat \<Rightarrow> page \<times> nat" where
  "move_down rs m 0 acc = acc"
| "move_down rs m (Suc k) acc =
     move_down rs m k (insert_key (fst acc) (ekey (slot rs (m + k))) (eptr (slot rs (m + k))) (snd acc) True)"

text \<open>\<^verbatim>\<open>for (i = from; records[i].ptr != NULL; i++)\<close>\<close>

definition rest_count :: "entry list \<Rightarrow> nat \<Rightarrow> nat" where
  "rest_count rs i = count_up rs i - i"

definition truncate_at :: "nat \<Rightarrow> page \<Rightarrow> page" where
  "truncate_at m p = p\<lparr>records := set_ptr (records p) m 0, last_index := int m - 1\<rparr>"

text \<open>The pages after rebalancing: records moved to the right page, to the left one with the rest in a
  new sibling, or all to the left one; the key is the new separator of the parent.\<close>

datatype rebalanced = To_right page page entry_key_t | To_left page page page entry_key_t | Merged page page

definition redistribute_right :: "page \<Rightarrow> page \<Rightarrow> entry_key_t \<Rightarrow> nat \<Rightarrow> rebalanced" where
  "redistribute_right l p dkey m =
     (if leftmost_ptr p = 0
      then (let p' = fst (move_down (records l) m (count l - m) (p, count p))
            in To_right (truncate_at m l) p' (ekey (slot (records p') 0)))
      else (let acc = insert_key p dkey (leftmost_ptr p) (count p) True;
                p' = fst (move_down (records l) (m + 1) (count l - (m + 1)) acc)
            in To_right (truncate_at m l) (p'\<lparr>leftmost_ptr := eptr (slot (records l) m)\<rparr>) (ekey (slot (records l) m))))"

definition redistribute_left :: "page \<Rightarrow> page \<Rightarrow> entry_key_t \<Rightarrow> nat \<Rightarrow> int \<Rightarrow> rebalanced option" where
  "redistribute_left l p dkey m sib =
     (let new_sibling = (page_ctor (level p))\<lparr>sibling_ptr := sibling_ptr p\<rparr>;
          num_dist_entries = count p - m;
          q = fst (migrate (records p) num_dist_entries (rest_count (records p) num_dist_entries) (new_sibling, 0));
          p' = p\<lparr>is_deleted := True\<rparr>
      in if leftmost_ptr p = 0
         then (let l' = fst (migrate (records p) 0 num_dist_entries (l, count l))
               in Some (To_left (l'\<lparr>sibling_ptr := sib\<rparr>) p' q (ekey (slot (records q) 0))))
         else if num_dist_entries = 0 then None
         else (let acc = insert_key l dkey (leftmost_ptr p) (count l) True;
                   l' = fst (migrate (records p) 0 (num_dist_entries - 1) acc)
               in Some (To_left (l'\<lparr>sibling_ptr := sib\<rparr>) p' (q\<lparr>leftmost_ptr := eptr (slot (records p) (num_dist_entries - 1))\<rparr>)
                          (ekey (slot (records p) (num_dist_entries - 1))))))"

definition merge_pages :: "page \<Rightarrow> page \<Rightarrow> entry_key_t \<Rightarrow> rebalanced" where
  "merge_pages l p dkey =
     (let acc = (if leftmost_ptr p \<noteq> 0 then insert_key l dkey (leftmost_ptr p) (count l) True else (l, count l));
          l' = fst (migrate (records p) 0 (rest_count (records p) 0) acc)
      in Merged (l'\<lparr>sibling_ptr := sibling_ptr p\<rparr>) (p\<lparr>is_deleted := True\<rparr>))"

definition rebalance :: "page \<Rightarrow> page \<Rightarrow> entry_key_t \<Rightarrow> int \<Rightarrow> rebalanced option" where
  "rebalance l p dkey sib =
     (let total_num_entries = count p + count l + (if leftmost_ptr p \<noteq> 0 then 1 else 0);
          m = total_num_entries div 2
      in if total_num_entries > cardinality - 1
         then (if count p < count l then Some (redistribute_right l p dkey m) else redistribute_left l p dkey m sib)
         else Some (merge_pages l p dkey))"

text \<open>Writing the pages back and entering the new separator into the parent, or into a new root.\<close>

definition enter_separator :: "tree_state \<Rightarrow> int \<Rightarrow> entry_key_t \<Rightarrow> int \<Rightarrow> nat \<Rightarrow> tree_state option" where
  "enter_separator t left parent_key right lvl =
     (if left = root t
      then (let (nr, t') = new_page t (page_ctor_grow left parent_key right lvl) in Some (setNewRoot t' nr))
      else btree_insert_internal (tree_fuel t) t parent_key right lvl)"

definition write_rebalanced :: "tree_state \<Rightarrow> int \<Rightarrow> int \<Rightarrow> rebalanced \<Rightarrow> tree_state option" where
  "write_rebalanced t left a r =
     (case r of
        To_right l p key \<Rightarrow> enter_separator (write_page (write_page t left l) a p) left key a (level p + 1)
      | To_left l p q key \<Rightarrow>
          (let (sib, t1) = new_page t q
           in enter_separator (write_page (write_page t1 left l) a p) left key sib (level p + 1))
      | Merged l p \<Rightarrow> Some (write_page (write_page t left l) a p))"

section \<open>The operation\<close>

partial_function (option) walk_left :: "heap \<Rightarrow> bool \<Rightarrow> int \<Rightarrow> int \<Rightarrow> locks \<Rightarrow> (int \<times> locks) option" where
  "walk_left h with_lock a left L =
     do { l \<leftarrow> h left;
          (if sibling_ptr l = a then Some (left, L)
           else do { L1 \<leftarrow> unlock_if with_lock left L;
                     L2 \<leftarrow> lock_if with_lock (sibling_ptr l) L1;
                     walk_left h with_lock a (sibling_ptr l) L2 }) }"

declare walk_left.simps [code]

text \<open>The part behind the removal of the key: the page leaves its parent and is merged with or refilled
  from its left neighbour.\<close>

definition rebalance_page ::
  "tree_state \<Rightarrow> locks \<Rightarrow> int \<Rightarrow> entry_key_t \<Rightarrow> bool \<Rightarrow> (bool \<times> tree_state \<times> locks) option" where
  "rebalance_page t L a key with_lock =
     do { p \<leftarrow> pages t a;
          (out, t1, L1) \<leftarrow> btree_delete_internal t L key a (level p + 1)
                             \<lparr>deleted_key = 0, is_leftmost_node = False, left_sibling = None\<rparr>;
          (if is_leftmost_node out
           then do { L2 \<leftarrow> unlock_if with_lock a L1;
                     s \<leftarrow> pages t1 (sibling_ptr p);
                     L3 \<leftarrow> lock_if (\<not> with_lock) (sibling_ptr p) L2;
                     (_, t2, L4) \<leftarrow> remove_locked t1 L3 (sibling_ptr p) (ekey (slot (records s) 0));
                     L5 \<leftarrow> unlock_if (\<not> with_lock) (sibling_ptr p) L4;
                     Some (True, t2, L5) }
           else do { left \<leftarrow> left_sibling out;
                     L2 \<leftarrow> lock_if with_lock left L1;
                     (left', L3) \<leftarrow> walk_left (pages t1) with_lock a left L2;
                     l \<leftarrow> pages t1 left';
                     r \<leftarrow> rebalance l p (deleted_key out) (next_page t1);
                     t2 \<leftarrow> write_rebalanced t1 left' a r;
                     L4 \<leftarrow> unlock_if with_lock left' L3;
                     L5 \<leftarrow> unlock_if with_lock a L4;
                     Some (True, t2, L5) }) }"

definition remove_rebalancing ::
  "tree_state \<Rightarrow> locks \<Rightarrow> int \<Rightarrow> entry_key_t \<Rightarrow> bool \<Rightarrow> bool \<Rightarrow> (bool \<times> tree_state \<times> locks) option" where
  "remove_rebalancing t L a key only_rebalance with_lock =
     do { L1 \<leftarrow> lock_if with_lock a L;
          p \<leftarrow> pages t a;
          (if is_deleted p then do { L2 \<leftarrow> unlock_if with_lock a L1; Some (False, t, L2) }
           else if only_rebalance then rebalance_page t L1 a key with_lock
           else if a = root t
           then (let shrink = (level p > 0 \<and> count p = 1 \<and> sibling_ptr p = 0);
                     t1 = (if shrink then t\<lparr>root := leftmost_ptr p\<rparr> else t);
                     p1 = (if shrink then p\<lparr>is_deleted := True\<rparr> else p)
                 in do { L2 \<leftarrow> unlock_if with_lock a L1; Some (True, write_page t1 a (fst (remove_key p1 key)), L2) })
           else (let ret = snd (remove_key p key);
                     t1 = write_page t a (fst (remove_key p key))
                 in if int (count p) - 1 \<ge> int ((cardinality - 1) div 2)
                    then do { L2 \<leftarrow> unlock_if with_lock a L1; Some (if leftmost_ptr p = 0 then ret else True, t1, L2) }
                    else rebalance_page t1 L1 a key with_lock)) }"

section \<open>The records of two neighbouring leaves\<close>

definition rising :: "cell list \<Rightarrow> bool" where
  "rising cs \<longleftrightarrow> sorted_wrt (<) (map fst cs)"

lemma rising_append: "rising (xs @ ys) \<longleftrightarrow> rising xs \<and> rising ys \<and> (\<forall>x \<in> set xs. \<forall>y \<in> set ys. fst x < fst y)"
  by (auto simp: rising_def sorted_wrt_append)

lemma rising_Cons: "rising (x # xs) \<longleftrightarrow> (\<forall>y \<in> set xs. fst x < fst y) \<and> rising xs"
  by (auto simp: rising_def)

lemma rising_csorted: "rising cs \<Longrightarrow> csorted cs"
  by (simp add: rising_def csorted_def strict_sorted_iff)

lemma ins_cell_front: "\<forall>x \<in> set xs. fst c < fst x \<Longrightarrow> ins_cell c xs = c # xs"
  by (cases xs) auto

lemma move_down_spec:
  assumes "page_inv q" "c = length (live q)" "c + k < cardinality" "m + k \<le> length rs"
    "rising (map cell_of (take k (drop m rs)) @ live q)" "\<forall>e \<in> set (take k (drop m rs)). eptr e \<noteq> 0"
  shows "live (fst (move_down rs m k (q, c))) = map cell_of (take k (drop m rs)) @ live q"
    "page_inv (fst (move_down rs m k (q, c)))"
proof -
  have "live (fst (move_down rs m k (q, c))) = map cell_of (take k (drop m rs)) @ live q \<and> page_inv (fst (move_down rs m k (q, c)))"
    using assms
  proof (induction k arbitrary: q c)
    case (Suc k)
    let ?e = "rs ! (m + k)"
    let ?q = "fst (insert_key q (ekey ?e) (eptr ?e) c True)"
    have lt: "m + k < length rs" using Suc.prems(4) by simp
    have tk: "take (Suc k) (drop m rs) = take k (drop m rs) @ [?e]" using lt by (simp add: take_Suc_conv_app_nth)
    have room: "length (live q) < cardinality - 1" using Suc.prems(2,3) by simp
    have srt: "csorted (live q)" using Suc.prems(5) rising_csorted by (simp add: rising_append)
    have lv: "live ?q = cell_of ?e # live q"
      using insert_key_live [OF Suc.prems(1) room Suc.prems(2) srt] Suc.prems(5) unfolding tk
      by (simp add: rising_append rising_Cons ins_cell_front cell_of_def)
    have inv: "page_inv ?q"
      using insert_key_inv [OF Suc.prems(1) room Suc.prems(2) srt] Suc.prems(6) unfolding tk by simp
    have "live (fst (move_down rs m k (?q, Suc c))) = map cell_of (take k (drop m rs)) @ live ?q \<and>
        page_inv (fst (move_down rs m k (?q, Suc c)))"
      using Suc.prems inv lv unfolding tk by (intro Suc.IH) auto
    moreover have "move_down rs m (Suc k) (q, c) = move_down rs m k (?q, Suc c)"
      using lt by (simp add: prod_eq_iff [of "insert_key _ _ _ _ _"]) (metis Suc_eq_plus1 insert_key_num prod.collapse)
    ultimately show ?case using lv tk by simp
  qed simp
  then show "live (fst (move_down rs m k (q, c))) = map cell_of (take k (drop m rs)) @ live q"
    "page_inv (fst (move_down rs m k (q, c)))" by blast+
qed

lemma lower_key: "\<exists>f. keys_from f rs \<and> keys_from f rs' \<and> f \<le> LONG_MAX"
proof -
  let ?A = "insert LONG_MAX (ekey ` (set rs \<union> set rs'))"
  have "finite ?A" by simp
  then have "\<forall>x \<in> ?A. Min ?A \<le> x" by simp
  then show ?thesis unfolding keys_from_def by (intro exI [of _ "Min ?A"]) blast
qed

lemma live_part:
  assumes "page_inv p" "i + k \<le> length (live p)"
  shows "map cell_of (take k (drop i (records p))) = take k (drop i (live p))"
    "\<forall>e \<in> set (take k (drop i (records p))). eptr e \<noteq> 0"
proof -
  show seg: "map cell_of (take k (drop i (records p))) = take k (drop i (live p))"
    using assms(2) length_live [OF assms(1)] by (simp add: live_def drop_map drop_take take_map min_def)
  have nz: "snd c \<noteq> 0" if "c \<in> set (live p)" for c
    using that assms(1) by (auto simp: page_inv_def live_def in_set_conv_nth)
  show "\<forall>e \<in> set (take k (drop i (records p))). eptr e \<noteq> 0"
  proof
    fix e assume "e \<in> set (take k (drop i (records p)))"
    then have "cell_of e \<in> set (take k (drop i (live p)))" by (metis image_eqI list.set_map seg)
    then have "cell_of e \<in> set (live p)" by (meson in_set_dropD in_set_takeD)
    then show "eptr e \<noteq> 0" using nz [of "cell_of e"] by simp
  qed
qed

text \<open>Appending a segment of the records of one page to another page.\<close>

lemma migrate_live:
  assumes q: "page_inv q" "c = length (live q)" and p: "page_inv p" "i + k \<le> length (live p)" "c + k < cardinality"
    and r: "rising (live q @ take k (drop i (live p)))"
  shows "live (fst (migrate (records p) i k (q, c))) = live q @ take k (drop i (live p))"
    "page_inv (fst (migrate (records p) i k (q, c)))"
proof -
  obtain f where f: "keys_from f (records p)" "keys_from f (records q)" using lower_key by blast
  have len: "length (records p) = cardinality" "length (live p) < cardinality"
    using p(1) length_live [OF p(1)] by (auto simp: page_inv_def)
  have "\<forall>e \<in> set (take k (drop i (records p))). f \<le> ekey e"
    using f(1) by (meson in_set_dropD in_set_takeD keys_from_def)
  then show "live (fst (migrate (records p) i k (q, c))) = live q @ take k (drop i (live p))"
    "page_inv (fst (migrate (records p) i k (q, c)))"
    using migrate_spec [of q c k i "records p" f] q p(2,3) len r f(2) rising_csorted live_part [OF p(1,2)] by auto
qed

fun rb_cells :: "rebalanced \<Rightarrow> cell list" where
  "rb_cells (To_right l p k) = live l @ live p"
| "rb_cells (To_left l p q k) = live l @ live q"
| "rb_cells (Merged l p) = live l"

fun rb_pages :: "rebalanced \<Rightarrow> page list" where
  "rb_pages (To_right l p k) = [l, p]"
| "rb_pages (To_left l p q k) = [l, q]"
| "rb_pages (Merged l p) = [l]"

lemma count_rest:
  assumes "page_inv p" "i \<le> length (live p)"
  shows "rest_count (records p) i = length (live p) - i"
proof -
  have len: "length (records p) = cardinality" "length (live p) < cardinality"
    and nz: "\<And>j. j < length (live p) \<Longrightarrow> eptr (records p ! j) \<noteq> 0" and z: "eptr (records p ! length (live p)) = 0"
    using assms(1) length_live [OF assms(1)] by (auto simp: page_inv_def)
  have "count_up (records p) i = length (live p)"
    using assms(2)
  proof (induction "length (live p) - i" arbitrary: i)
    case 0
    then have "i = length (live p)" by simp
    then show ?case using z len by (subst count_up.simps) simp
  next
    case (Suc d)
    then have "i < length (live p)" "d = length (live p) - (i + 1)" by auto
    then show ?case using Suc.hyps(1) [of "i + 1"] nz len by (subst count_up.simps) simp
  qed
  then show ?thesis by (simp add: rest_count_def)
qed

lemma truncate_at_live:
  assumes "page_inv l" "m < length (live l)" "0 < m"
  shows "live (truncate_at m l) = take m (live l)" "page_inv (truncate_at m l)"
  using truncate_page [OF assms, where sib = "sibling_ptr l" and sc = "switch_counter l"] by (simp_all add: truncate_at_def)

lemma right_leaf:
  assumes inv: "page_inv l" "page_inv p" and lm: "leftmost_ptr p = 0" and r: "rising (live l @ live p)"
    and m: "m < length (live l)" "0 < m" "length (live l) + length (live p) - m < cardinality"
  shows "rb_cells (redistribute_right l p k m) = live l @ live p \<and> list_all page_inv (rb_pages (redistribute_right l p k m)) \<and>
    map (length o live) (rb_pages (redistribute_right l p k m)) = [m, length (live l) + length (live p) - m]"
proof -
  let ?k = "length (live l) - m"
  have len: "length (records l) = cardinality" "length (live l) < cardinality" using inv(1) length_live [OF inv(1)] by (auto simp: page_inv_def)
  have part: "map cell_of (take ?k (drop m (records l))) = drop m (live l)" "\<forall>e \<in> set (take ?k (drop m (records l))). eptr e \<noteq> 0"
    using live_part [OF inv(1), of m ?k] m(1) by simp_all
  have "rising (drop m (live l) @ live p)" using r by (metis append_take_drop_id append.assoc rising_append)
  then have mv: "live (fst (move_down (records l) m ?k (p, length (live p)))) = drop m (live l) @ live p"
    "page_inv (fst (move_down (records l) m ?k (p, length (live p))))"
    using move_down_spec [OF inv(2) refl, of ?k m "records l"] part m len by simp_all
  show ?thesis
    using lm mv truncate_at_live [OF inv(1) m(1,2)] m(1) count_live inv
    by (simp add: redistribute_right_def Let_def)
qed

lemma left_leaf:
  assumes inv: "page_inv l" "page_inv p" and lm: "leftmost_ptr p = 0" and r: "rising (live l @ live p)"
    and m: "m \<le> length (live p)" "length (live l) + length (live p) - m < cardinality" "m < cardinality"
  obtains rb where "redistribute_left l p k m sib = Some rb" "rb_cells rb = live l @ live p" "list_all page_inv (rb_pages rb)"
    "map (length o live) (rb_pages rb) = [length (live l) + length (live p) - m, m]"
proof -
  let ?d = "length (live p) - m"
  let ?new = "(page_ctor (level p))\<lparr>sibling_ptr := sibling_ptr p\<rparr>"
  have nw: "page_inv ?new" "live ?new = []" using page_ctor_inv page_ctor_live by simp_all
  have "rising ((live l @ take ?d (live p)) @ drop ?d (live p))" using r by simp
  then have rd: "rising (live l @ take ?d (live p))" "rising (drop ?d (live p))" unfolding rising_append [of "_ @ _"] by blast+
  have rest: "rest_count (records p) ?d = m" using count_rest [OF inv(2), of ?d] m(1) by simp
  have q: "live (fst (migrate (records p) ?d m (?new, 0))) = drop ?d (live p)"
    "page_inv (fst (migrate (records p) ?d m (?new, 0)))"
    using migrate_live [OF nw(1), of 0 p ?d m] nw(2) inv(2) m rd(2) by simp_all
  have l: "live (fst (migrate (records p) 0 ?d (l, length (live l)))) = live l @ take ?d (live p)"
    "page_inv (fst (migrate (records p) 0 ?d (l, length (live l))))"
    using migrate_live [OF inv(1) refl inv(2), of 0 ?d] m rd(1) by simp_all
  show thesis
    using that lm q l m(1) rest count_live inv
    by (simp add: redistribute_left_def Let_def)
qed

lemma merge_leaf:
  assumes inv: "page_inv l" "page_inv p" and lm: "leftmost_ptr p = 0" and r: "rising (live l @ live p)"
    and m: "length (live l) + length (live p) < cardinality"
  shows "rb_cells (merge_pages l p k) = live l @ live p \<and> list_all page_inv (rb_pages (merge_pages l p k))"
  using migrate_live [OF inv(1) refl inv(2), of 0 "length (live p)"] m r lm count_live inv count_rest [OF inv(2), of 0]
  by (simp add: merge_pages_def Let_def)

text \<open>C26: Rebalancing two neighbouring leaves always yields well-formed pages that hold exactly the records
  of both in the same order; when records are redistributed, each of the two pages is at least half full.\<close>

theorem rebalance_leaves:
  assumes inv: "page_inv l" "page_inv p" and lm: "leftmost_ptr p = 0" and r: "rising (live l @ live p)"
  shows "\<exists>rb. rebalance l p k sib = Some rb \<and> rb_cells rb = live l @ live p \<and> list_all page_inv (rb_pages rb) \<and>
    (cardinality \<le> length (live l) + length (live p) \<longleftrightarrow> length (rb_pages rb) = 2) \<and>
    (length (rb_pages rb) = 2 \<longrightarrow> list_all (\<lambda>q. 14 \<le> length (live q)) (rb_pages rb))"
proof -
  define c where "c = length (live l)"
  define d where "d = length (live p)"
  define m where "m = (c + d) div 2"
  have bound: "c < 28" "d < 28" using inv length_live by (auto simp: c_def d_def page_inv_def cardinality_val)
  have cnt: "count l = c" "count p = d" using count_live inv by (auto simp: c_def d_def)
  consider "c + d < 28" | "28 \<le> c + d" "d < c" | "28 \<le> c + d" "c \<le> d" by linarith
  then show ?thesis
  proof cases
    case 1
    then have "rebalance l p k sib = Some (merge_pages l p k)" using lm cnt by (simp add: rebalance_def cardinality_val)
    moreover have "length (rb_pages (merge_pages l p k)) = 1" by (simp add: merge_pages_def Let_def)
    ultimately show ?thesis using merge_leaf [OF inv lm r] 1 by (simp add: c_def d_def cardinality_val)
  next
    case 2
    have m: "m < c" "0 < m" "c + d - m < 28" "14 \<le> m" "14 \<le> c + d - m" using 2 bound by (auto simp: m_def)
    have "rebalance l p k sib = Some (redistribute_right l p k m)"
      using 2 lm cnt by (simp add: rebalance_def cardinality_val m_def add.commute)
    moreover obtain x y z where rr: "redistribute_right l p k m = To_right x y z"
      using lm by (simp add: redistribute_right_def Let_def)
    ultimately show ?thesis
      using right_leaf [OF inv lm r, of m k] m 2 by (simp add: c_def d_def cardinality_val rr)
  next
    case 3
    have m: "m \<le> d" "c + d - m < 28" "m < 28" "14 \<le> m" "14 \<le> c + d - m" using 3 bound by (auto simp: m_def)
    obtain rb where rb: "redistribute_left l p k m sib = Some rb" "rb_cells rb = live l @ live p" "list_all page_inv (rb_pages rb)"
      "map (length o live) (rb_pages rb) = [c + d - m, m]"
      using left_leaf [OF inv lm r, of m k sib] m by (auto simp: c_def d_def cardinality_val)
    have "rebalance l p k sib = Some rb"
      using 3 lm cnt rb(1) by (simp add: rebalance_def cardinality_val m_def add.commute)
    moreover have "length (rb_pages rb) = 2" using arg_cong [OF rb(4), of length] by simp
    moreover have "list_all (\<lambda>q. 14 \<le> length (live q)) (rb_pages rb)"
      using rb(4) m by (auto simp: map_eq_Cons_conv)
    ultimately show ?thesis using rb 3 by (simp add: c_def d_def cardinality_val)
  qed
qed

theorem rebalance_leaves_witness:
  "\<exists>rb. rebalance (fst (insert_key (page_ctor 0) 3 3 0 True)) (fst (insert_key (page_ctor 0) 5 5 0 True)) 0 512 = Some rb \<and>
     rb_cells rb = [(3, 3), (5, 5)]"
proof -
  let ?l = "fst (insert_key (page_ctor 0) 3 3 0 True)" and ?p = "fst (insert_key (page_ctor 0) 5 5 0 True)"
  have room: "length (live (page_ctor 0)) < cardinality - 1" "0 = length (live (page_ctor 0))" "csorted (live (page_ctor 0))"
    by (simp_all add: page_ctor_live cardinality_val)
  note i = insert_key_inv [OF page_ctor_inv room] and v = insert_key_live [OF page_ctor_inv room, unfolded page_ctor_live]
  have "rising (live ?l @ live ?p)" by (simp add: v rising_def)
  then show ?thesis using rebalance_leaves [of ?l ?p 0 512] i v by (auto simp: page_ctor_sel)
qed

section \<open>The operation as a whole\<close>

lemma lock_held: "lock a L = Some L1 \<Longrightarrow> remove_locked t L1 a key = None"
  by (auto simp: lock_def remove_locked_def split: if_splits)

text \<open>Removing the child from its parent relocks the parent, so a call that returns changed nothing.\<close>

lemma delete_internal_frame:
  assumes "btree_delete_internal t L key ptr lvl out = Some (out', t', L')"
  shows "t' = t" "left_sibling out' = left_sibling out"
  using assms by (auto simp: btree_delete_internal_def lock_held bind_eq_Some_conv split: if_splits option.splits)

lemma rebalance_page_frame:
  assumes "rebalance_page t L a key wl = Some (r, t', L')" "pages t a = Some p"
  shows "\<exists>s. pages t (sibling_ptr p) = Some s \<and> t' = write_page t (sibling_ptr p) (fst (remove_key s (ekey (slot (records s) 0))))"
proof -
  obtain out t1 L1 where d: "btree_delete_internal t L key a (level p + 1)
      \<lparr>deleted_key = 0, is_leftmost_node = False, left_sibling = None\<rparr> = Some (out, t1, L1)"
    using assms by (auto simp: rebalance_page_def bind_eq_Some_conv)
  have f: "t1 = t" "left_sibling out = None" using delete_internal_frame [OF d] by simp_all
  show ?thesis
    using assms d f
    by (auto simp: rebalance_page_def remove_locked_def remove_page_def bind_eq_Some_conv split: if_splits)
qed

definition changes_only :: "int set \<Rightarrow> tree_state \<Rightarrow> tree_state \<Rightarrow> bool" where
  "changes_only A t t' \<longleftrightarrow> next_page t' = next_page t \<and> (\<forall>x. x \<notin> A \<longrightarrow> pages t' x = pages t x)"

lemma changes_only_simps [simp]:
  "changes_only A t t" "a \<in> A \<Longrightarrow> changes_only A t (write_page t a p)"
  "a \<in> A \<Longrightarrow> changes_only A t (write_page (t\<lparr>root := x\<rparr>) a p)"
  by (simp_all add: changes_only_def write_page_def)

lemma changes_only_trans: "changes_only A t t1 \<Longrightarrow> changes_only A t1 t2 \<Longrightarrow> changes_only A t t2"
  by (simp add: changes_only_def)

lemma rebalance_page_changes:
  assumes "rebalance_page t L a key wl = Some (r, t', L')" "pages t a = Some p" "sibling_ptr p \<in> A"
  shows "changes_only A t t'"
  using rebalance_page_frame [OF assms(1,2)] assms(3) by auto

text \<open>C37: Rebalancing never takes place: whenever \<^verbatim>\<open>remove_rebalancing\<close> returns, no page was allocated and no
  page other than the given one and its right neighbour was changed.  The call that would merge a page
  with its left neighbour first relocks the mutex of the parent, which the thread already holds.\<close>

theorem rebalancing_never_merges:
  assumes "remove_rebalancing t L a key only_rebalance with_lock = Some (r, t', L')"
  shows "\<exists>p. pages t a = Some p \<and> changes_only {a, sibling_ptr p} t t'"
proof -
  obtain L1 p where p: "lock_if with_lock a L = Some L1" "pages t a = Some p"
    using assms by (auto simp: remove_rebalancing_def bind_eq_Some_conv)
  let ?A = "{a, sibling_ptr p}" and ?t = "write_page t a (fst (remove_key p key))"
  have both: "changes_only ?A t t'" if "rebalance_page ?t L1 a key with_lock = Some (r, t', L')"
  proof -
    have "changes_only ?A ?t t'" using rebalance_page_changes [OF that, of "fst (remove_key p key)"] by (simp add: write_page_def)
    then show ?thesis by (rule changes_only_trans [rotated]) simp
  qed
  show ?thesis
    using assms p both rebalance_page_changes [of t L1 a key with_lock r t' L' p ?A]
    unfolding remove_rebalancing_def Let_def
    by (auto simp: bind_eq_Some_conv split: if_splits)
qed

text \<open>On a leaf that stays at least half full the operation is the plain removal.\<close>

theorem rebalancing_is_remove:
  assumes "pages t a = Some p" "\<not> is_deleted p" "a \<noteq> root t" "leftmost_ptr p = 0" "14 \<le> count p" "a \<notin> set L"
  shows "remove_rebalancing t L a key False True = remove_locked t L a key"
  using assms
  by (auto simp: remove_rebalancing_def remove_locked_def remove_page_def lock_if_def unlock_if_def lock_def unlock_def Let_def cardinality_val)

section \<open>Samples\<close>

text \<open>A tree with the keys 1 to 28: a left leaf with 1 to 13, a right one with the rest, and a root.\<close>

definition two_leaf_tree :: "tree_state option" where
  "two_leaf_tree = index_replay btree_search tree_insert tree_delete (tree_ctor 4096) (insert_ops [1..28])"

theorem rebalancing_never_merges_witness:
  "\<exists>t t' L p. two_leaf_tree = Some t \<and> remove_rebalancing t [] 4096 5 False True = Some (True, t', L) \<and>
     pages t 4096 = Some p \<and> changes_only {4096, sibling_ptr p} t t'"
proof -
  have "(case two_leaf_tree of Some t \<Rightarrow> map_option fst (remove_rebalancing t [] 4096 5 False True) = Some True | None \<Rightarrow> False)"
    by code_simp
  then obtain t t' L where t: "two_leaf_tree = Some t" "remove_rebalancing t [] 4096 5 False True = Some (True, t', L)"
    by (auto split: option.splits)
  then show ?thesis using rebalancing_never_merges [OF t(2)] by blast
qed

theorem rebalancing_is_remove_witness:
  "\<exists>t. two_leaf_tree = Some t \<and> remove_rebalancing t [] 4608 20 False True = remove_locked t [] 4608 20"
proof -
  have "(case two_leaf_tree of Some t \<Rightarrow> (case pages t 4608 of Some p \<Rightarrow> \<not> is_deleted p \<and> root t \<noteq> 4608 \<and> leftmost_ptr p = 0 \<and> 14 \<le> count p
      | None \<Rightarrow> False) | None \<Rightarrow> False)"
    by code_simp
  then obtain t p where t: "two_leaf_tree = Some t" "pages t 4608 = Some p" "\<not> is_deleted p" "4608 \<noteq> root t" "leftmost_ptr p = 0" "14 \<le> count p"
    by (auto split: option.splits)
  then show ?thesis using rebalancing_is_remove [OF t(2-6), of "[]" 20] by auto
qed

text \<open>The two ways the operation goes wrong on a leaf that gets less than half full: the leftmost leaf is
  left as it is and the first key of its right neighbour is removed instead, here 14 when 5 is removed;
  on the right leaf the thread waits for a mutex it holds.\<close>

theorem rebalancing_underflow:
  "(do { t \<leftarrow> two_leaf_tree;
         (r, t', L) \<leftarrow> remove_rebalancing t [] 4096 5 False True;
         a \<leftarrow> btree_search t' 5; b \<leftarrow> btree_search t 14; c \<leftarrow> btree_search t' 14;
         Some (r, a, b, c, L) }) = Some (True, 0, 14, 0, []) \<and>
   (case do { t \<leftarrow> two_leaf_tree; t1 \<leftarrow> tree_delete t 20; tree_delete t1 21 } of
      Some t2 \<Rightarrow> remove_rebalancing t2 [] 4608 22 False True = None | None \<Rightarrow> False)"
  by code_simp

end
