(* ===== verification/Page_Types.thy ===== *)
theory Page_Types
  imports Split_Correct
begin

text \<open>
  Representability of the pages: whatever keys are inserted and deleted, in whatever order and with or without
  duplicates, every page keeps its \<^verbatim>\<open>cardinality\<close> records, every slot of it, live or stale, a key of type
  \<^verbatim>\<open>int64_t\<close>, and \<^verbatim>\<open>last_index\<close> a value of type \<^verbatim>\<open>int16_t\<close> that agrees with the null terminator.  Nothing is
  assumed about the order of the keys or the shape of the tree.
\<close>

section \<open>Typed pages\<close>

definition key_typed :: "int \<Rightarrow> bool" where
  "key_typed k \<longleftrightarrow> LONG_MIN \<le> k \<and> k \<le> LONG_MAX"

definition keys_typed :: "entry list \<Rightarrow> bool" where
  "keys_typed rs \<longleftrightarrow> (\<forall>e \<in> set rs. key_typed (ekey e))"

definition page_typed :: "page \<Rightarrow> bool" where
  "page_typed p \<longleftrightarrow> page_inv p \<and> keys_typed (records p)"

definition tree_typed :: "tree_state \<Rightarrow> bool" where
  "tree_typed t \<longleftrightarrow> 0 < next_page t \<and> (\<forall>a p. pages t a = Some p \<longrightarrow> page_typed p)"

text \<open>The fields in the types they have in the code.\<close>

definition representable :: "page \<Rightarrow> bool" where
  "representable p \<longleftrightarrow> length (records p) = cardinality \<and> - (2 ^ 15) \<le> last_index p \<and> last_index p < 2 ^ 15 \<and>
     (\<forall>e \<in> set (records p). - (2 ^ 63) \<le> ekey e \<and> ekey e < 2 ^ 63)"

lemma page_typed_representable: "page_typed p \<Longrightarrow> representable p"
  by (auto simp: page_typed_def page_inv_def keys_typed_def key_typed_def representable_def cardinality_val LONG_MIN_def LONG_MAX_def)

lemma page_typed_count: "page_typed p \<Longrightarrow> count p = nat (last_index p + 1)"
  by (simp add: page_typed_def count_live length_live)

section \<open>Records\<close>

lemma key_typed_LONG_MAX [simp]: "key_typed LONG_MAX"
  by (simp add: key_typed_def LONG_MAX_def LONG_MIN_def)

lemma keys_typed_slot [simp]: "keys_typed rs \<Longrightarrow> key_typed (ekey (slot rs i))"
  by (cases "i < length rs") (auto simp: keys_typed_def entry_ctor_def)

lemma keys_typed_set_key [simp]: "keys_typed rs \<Longrightarrow> key_typed k \<Longrightarrow> keys_typed (set_key rs i k)"
  unfolding keys_typed_def set_key_def by (rule ball_list_update) simp_all

lemma keys_typed_set_ptr [simp]: "keys_typed rs \<Longrightarrow> keys_typed (set_ptr rs i v)"
  using keys_typed_slot [of rs i] unfolding keys_typed_def set_ptr_def by (intro ball_list_update) simp_all

lemma insert_shift_typed: "keys_typed rs \<Longrightarrow> key_typed key \<Longrightarrow> keys_typed (insert_shift i key ptr lm rs)"
  by (induction i arbitrary: rs) simp_all

lemma remove_shift_typed: "keys_typed rs \<Longrightarrow> keys_typed (snd (remove_shift key lm sh i rs))"
proof (induction key lm sh i rs rule: remove_shift.induct)
  case (1 key lm sh i rs)
  then show ?case by (subst remove_shift.simps) (simp add: Let_def)
qed

lemma insert_shift_nonnull:
  assumes "i < length rs" "\<forall>j < i. eptr (rs ! j) \<noteq> 0" "ptr \<noteq> 0" "j \<le> i"
  shows "eptr (insert_shift i key ptr lm rs ! j) \<noteq> 0"
  using assms
proof (induction i arbitrary: rs j)
  case (Suc i)
  have i: "i < length rs" "eptr (rs ! i) \<noteq> 0" using Suc.prems(1,2) by simp_all
  show ?case
  proof (cases "key < ekey (rs ! i)")
    case True
    let ?rs = "rs[Suc i := rs ! i]"
    have "eptr (insert_shift i key ptr lm ?rs ! j) \<noteq> 0" if "j \<le> i"
      using Suc.IH [of ?rs j] Suc.prems that by simp
    moreover have "insert_shift i key ptr lm ?rs ! Suc i = rs ! i" using Suc.prems(1) by (simp add: insert_shift_nth)
    moreover have "j = Suc i \<or> j \<le> i" using Suc.prems(4) by auto
    ultimately show ?thesis using True Suc.prems(1) i by auto
  next
    case False
    then show ?thesis using Suc.prems i by (auto simp: nth_list_update)
  qed
qed (simp add: set_ptr_def set_key_def)

section \<open>Pages\<close>

lemma insert_key_typed:
  assumes p: "page_typed p" and num: "num = nat (last_index p + 1)" "num < cardinality - 1" and v: "ptr \<noteq> 0" "key_typed key"
  shows "page_typed (fst (insert_key p key ptr num True))"
proof -
  let ?p = "fst (insert_key p key ptr num True)" and ?rs = "set_ptr (records p) (num + 1) (eptr (slot (records p) num))"
  have inv: "length (records p) = 28" "\<forall>i < num. eptr (records p ! i) \<noteq> 0" "eptr (records p ! num) = 0" and n: "num < 27"
    using p num by (auto simp: page_typed_def page_inv_def cardinality_val)
  have t: "keys_typed (records ?p)"
    using p v(2) by (simp add: page_typed_def insert_key_def Let_def insert_shift_typed)
  have "eptr (records ?p ! i) \<noteq> 0" if "i \<le> num" for i
  proof (cases "num = 0")
    case True
    then show ?thesis using that inv(1) v(1) by (simp add: insert_key_def Let_def nth_set_ptr)
  next
    case False
    then show ?thesis
      using insert_shift_nonnull [of num ?rs ptr i key "leftmost_ptr p"] that inv n v(1)
      by (simp add: insert_key_def Let_def nth_set_ptr)
  qed
  moreover have "eptr (records ?p ! Suc num) = 0"
    using inv n by (simp add: insert_key_def Let_def insert_shift_nth nth_set_ptr)
  ultimately show ?thesis
    using t inv(1) n by (simp add: page_typed_def page_inv_def cardinality_val nat_add_distrib)
qed

lemma remove_key_typed:
  assumes "page_typed p"
  shows "page_typed (fst (remove_key p key))"
proof -
  have inv: "page_inv p" and t: "keys_typed (records p)" using assms by (auto simp: page_typed_def)
  have "page_inv (fst (remove_key p key))"
  proof (cases "key \<in> fst ` set (live p)")
    case True
    then show ?thesis by (rule remove_key_hit(3) [OF inv])
  next
    case False
    then show ?thesis using remove_key_miss [OF inv False] inv by (simp add: page_inv_def)
  qed
  moreover have "records (fst (remove_key p key)) = snd (remove_shift key (leftmost_ptr p) False 0 (records p))"
    by (simp add: remove_key_def Let_def split: prod.splits)
  ultimately show ?thesis using remove_shift_typed [OF t] by (simp add: page_typed_def)
qed

lemma migrate_typed:
  assumes "page_typed q" "c = nat (last_index q + 1)" "c + k < cardinality" "keys_typed rs"
    "\<forall>j. i \<le> j \<and> j < i + k \<longrightarrow> eptr (slot rs j) \<noteq> 0"
  shows "page_typed (fst (migrate rs i k (q, c))) \<and> snd (migrate rs i k (q, c)) = c + k \<and>
    last_index (fst (migrate rs i k (q, c))) = int (c + k) - 1"
  using assms
proof (induction k arbitrary: i q c)
  case 0
  then show ?case by (simp add: page_typed_def page_inv_def)
next
  case (Suc k)
  let ?q = "fst (insert_key q (ekey (slot rs i)) (eptr (slot rs i)) c True)"
  have "page_typed ?q"
    by (rule insert_key_typed [OF Suc.prems(1,2)]) (use Suc.prems(3-5) in auto)
  moreover have "migrate rs i (Suc k) (q, c) = migrate rs (Suc i) k (?q, Suc c)"
    using insert_key_num [of q] by (metis (no_types, lifting) Suc_eq_plus1 fst_conv migrate.simps(2) prod.collapse snd_conv)
  moreover have "Suc c = nat (last_index ?q + 1)" by (simp add: nat_add_distrib)
  ultimately show ?case
    using Suc.IH [of ?q "Suc c" "Suc i"] Suc.prems(3-5) by (auto simp del: migrate.simps insert_key_frame)
qed

lemma page_ctor_typed: "page_typed (page_ctor l)"
  by (simp add: page_typed_def page_ctor_inv page_ctor_records keys_typed_def entry_ctor_def)

lemma page_ctor_grow_typed: "right \<noteq> 0 \<Longrightarrow> key_typed key \<Longrightarrow> page_typed (page_ctor_grow left key right l)"
proof -
  assume a: "right \<noteq> 0" "key_typed key"
  have "keys_typed (replicate cardinality entry_ctor)" by (simp add: keys_typed_def entry_ctor_def)
  then have "keys_typed (records (page_ctor_grow left key right l))"
    unfolding page_ctor_grow_def page.select_convs using a(2) by (intro keys_typed_set_ptr keys_typed_set_key)
  moreover have "page_inv (page_ctor_grow left key right l)"
    using a(1) by (simp add: page_ctor_grow_def page_inv_def cardinality_val nth_set_ptr)
  ultimately show ?thesis by (simp add: page_typed_def)
qed

text \<open>The lower part of a page that was cut at slot \<open>m\<close>.\<close>

lemma cut_typed:
  assumes "page_typed p" "0 < m" "m \<le> nat (last_index p + 1)"
  shows "page_typed (p\<lparr>sibling_ptr := sib, switch_counter := sc, records := set_ptr (records p) m 0, last_index := int m - 1\<rparr>)"
  using assms by (auto simp: page_typed_def page_inv_def cardinality_val nth_set_ptr)

lemma page_typed_links:
  "page_typed (p\<lparr>leftmost_ptr := a\<rparr>) = page_typed p" "page_typed (p\<lparr>sibling_ptr := b\<rparr>) = page_typed p"
  by (simp_all add: page_typed_def page_inv_def)

lemma split_page_typed:
  assumes p: "page_typed p" and full: "cardinality - 1 \<le> count p" and v: "right \<noteq> 0" "key_typed key"
    and r: "split_page p sib key right = (p', q, s, b)"
  shows "page_typed p'" "page_typed q" "key_typed s"
proof -
  let ?rs = "records p" and ?i = "if leftmost_ptr p = 0 then 13 else (14 :: nat)"
  have li: "last_index p = 26" and len: "length ?rs = 28" and nn: "\<forall>i < 27. eptr (?rs ! i) \<noteq> 0" and kt: "keys_typed ?rs"
    using p full page_typed_count [OF p] by (auto simp: page_typed_def page_inv_def cardinality_val)
  have cnt: "count p = 27" using page_typed_count [OF p] li by simp
  have mg: "page_typed (fst (migrate ?rs ?i (27 - ?i) (page_ctor (level p), 0))) \<and>
      snd (migrate ?rs ?i (27 - ?i) (page_ctor (level p), 0)) = 27 - ?i \<and>
      last_index (fst (migrate ?rs ?i (27 - ?i) (page_ctor (level p), 0))) = int (27 - ?i) - 1"
    using migrate_typed [of "page_ctor (level p)" 0 "27 - ?i" ?rs ?i] page_ctor_typed kt nn len
    by (simp add: page_ctor_def cardinality_val)
  obtain q0 c where q0: "migrate ?rs ?i (27 - ?i) (page_ctor (level p), 0) = (q0, c)" by force
  define p1 where "p1 = p\<lparr>sibling_ptr := sib, switch_counter := (if IS_FORWARD (switch_counter p) then switch_counter p + 2
      else switch_counter p + 1), records := set_ptr ?rs 13 0, last_index := int 13 - 1\<rparr>"
  define q2 where "q2 = (if leftmost_ptr p = 0 then q0 else q0\<lparr>leftmost_ptr := eptr (slot ?rs 13)\<rparr>)\<lparr>sibling_ptr := sibling_ptr p\<rparr>"
  have q2: "page_typed q2" "last_index q2 = int c - 1" "c < 27" "c = 27 - ?i"
    using mg q0 by (auto simp: q2_def page_typed_links)
  have p1: "page_typed p1" "last_index p1 = 12" unfolding p1_def using cut_typed [OF p, of 13] li by simp_all
  have sp: "split_page p sib key right = (let s = ekey (slot ?rs 13) in
      if key < s then (fst (insert_key p1 key right 13 True), q2, s, False)
      else (p1, fst (insert_key q2 key right c True), s, True))"
    using q0 by (auto simp: split_page_def cnt p1_def q2_def Let_def split: if_splits)
  have "page_typed (fst (insert_key p1 key right 13 True))" "page_typed (fst (insert_key q2 key right c True))"
    using insert_key_typed [OF p1(1), of 13 right key] insert_key_typed [OF q2(1), of c right key] p1(2) q2(2,3) v
    by (simp_all add: cardinality_val)
  then show "page_typed p'" "page_typed q" "key_typed s"
    using r p1(1) q2(1) kt unfolding sp by (auto simp: Let_def split: if_splits)
qed

section \<open>Trees\<close>

lemma write_page_typed: "tree_typed t \<Longrightarrow> page_typed p \<Longrightarrow> tree_typed (write_page t a p)"
  by (auto simp: tree_typed_def write_page_def)

lemma new_page_typed: "tree_typed t \<Longrightarrow> page_typed p \<Longrightarrow> new_page t p = (a, t') \<Longrightarrow> tree_typed t' \<and> a \<noteq> 0"
  by (auto simp: tree_typed_def new_page_def PAGESIZE_def split: if_splits)

lemma setNewRoot_typed: "tree_typed t \<Longrightarrow> tree_typed (setNewRoot t a)"
  by (simp add: tree_typed_def setNewRoot_def)

text \<open>The branch of \<^verbatim>\<open>store\<close> that splits the page, up to the insertion into the parent.\<close>

lemma split_store_typed:
  assumes t: "tree_typed t" "pages t a = Some p" "cardinality - 1 \<le> count p" and v: "right \<noteq> 0" "key_typed key"
    and s: "split_page p (next_page t) key right = (p', q, s, b)" "new_page t q = (sib, t1)"
  shows "tree_typed (write_page t1 a p')" "sib \<noteq> 0" "key_typed s"
proof -
  have "page_typed p" using t by (simp add: tree_typed_def)
  note sp = split_page_typed [OF this t(3) v s(1)]
  show "tree_typed (write_page t1 a p')" "sib \<noteq> 0" "key_typed s"
    using new_page_typed [OF t(1) sp(2) s(2)] sp write_page_typed by auto
qed

text \<open>The cases of one call of \<^verbatim>\<open>store\<close>.\<close>

lemma store_step_typed:
  assumes t: "tree_typed t" "right \<noteq> 0" "key_typed key" "store (Suc n) t a key right isib = Some (ret, t')"
    and sibling: "\<And>b. store n t b key right isib = Some (ret, t') \<Longrightarrow> tree_typed t'"
    and parent: "\<And>t2 s sib l. tree_typed t2 \<Longrightarrow> sib \<noteq> 0 \<Longrightarrow> key_typed s \<Longrightarrow> btree_insert_internal n t2 s sib l = Some t' \<Longrightarrow> tree_typed t'"
  shows "tree_typed t'"
proof -
  obtain p where p: "pages t a = Some p" "page_typed p" using t(1,4) by (auto simp: bind_eq_Some_conv tree_typed_def)
  obtain p' q s b where sp: "split_page p (next_page t) key right = (p', q, s, b)" by (cases "split_page p (next_page t) key right")
  obtain sib t1 where np: "new_page t q = (sib, t1)" by (cases "new_page t q")
  let ?t2 = "write_page t1 a p'"
  obtain nr t3 where gr: "new_page ?t2 (page_ctor_grow a s sib (level p + 1)) = (nr, t3)"
    by (cases "new_page ?t2 (page_ctor_grow a s sib (level p + 1))")
  consider "t' = t" | b where "store n t b key right isib = Some (ret, t')"
    | "count p < cardinality - 1" "t' = write_page t a (fst (insert_key p key right (count p) True))"
    | "cardinality - 1 \<le> count p" "t' = setNewRoot t3 nr"
    | "cardinality - 1 \<le> count p" "btree_insert_internal n ?t2 s sib (level p + 1) = Some t'"
    using t(4) p(1) sp np gr by (auto simp: bind_eq_Some_conv Let_def not_less split: if_splits)
  then show ?thesis
  proof cases
    case 3
    then show ?thesis using write_page_typed [OF t(1) insert_key_typed [OF p(2) page_typed_count [OF p(2)] 3(1) t(2,3)]] by simp
  next
    case 4
    note ss = split_store_typed [OF t(1) p(1) 4(1) t(2,3) sp np]
    show ?thesis using new_page_typed [OF ss(1) page_ctor_grow_typed [OF ss(2,3)] gr] setNewRoot_typed 4(2) by blast
  next
    case 5
    note ss = split_store_typed [OF t(1) p(1) 5(1) t(2,3) sp np]
    show ?thesis by (rule parent [OF ss 5(2)])
  qed (use t(1) sibling in blast)+
qed

lemma store_typed_both:
  "(\<forall>t a key right isib ret t'. tree_typed t \<and> right \<noteq> 0 \<and> key_typed key \<and> store n t a key right isib = Some (ret, t') \<longrightarrow> tree_typed t') \<and>
   (\<forall>t key right lvl t'. tree_typed t \<and> right \<noteq> 0 \<and> key_typed key \<and> btree_insert_internal n t key right lvl = Some t' \<longrightarrow> tree_typed t')"
proof (induction n)
  case (Suc n)
  then have IH1: "\<And>t a key right isib ret t'. tree_typed t \<Longrightarrow> right \<noteq> 0 \<Longrightarrow> key_typed key \<Longrightarrow>
      store n t a key right isib = Some (ret, t') \<Longrightarrow> tree_typed t'"
    and IH2: "\<And>t key right lvl t'. tree_typed t \<Longrightarrow> right \<noteq> 0 \<Longrightarrow> key_typed key \<Longrightarrow>
      btree_insert_internal n t key right lvl = Some t' \<Longrightarrow> tree_typed t'"
    by blast+
  show ?case
  proof (intro conjI allI impI; elim conjE)
    fix t a key right isib ret t'
    assume s: "tree_typed t" "right \<noteq> 0" "key_typed key" "store (Suc n) t a key right isib = Some (ret, t')"
    show "tree_typed t'"
      by (rule store_step_typed [OF s]) (use IH1 [OF s(1-3)] IH2 in blast)+
  next
    fix t key right lvl t'
    assume s: "tree_typed t" "right \<noteq> 0" "key_typed key" "btree_insert_internal (Suc n) t key right lvl = Some t'"
    consider "t' = t" | a ret where "store n t a key right 0 = Some (ret, t')"
      | a t1 where "store n t a key right 0 = Some (0, t1)" "btree_insert_internal n t1 key right lvl = Some t'"
      using s(4) by (auto simp: bind_eq_Some_conv split: if_splits)
    then show "tree_typed t'" using IH1 [OF s(1-3)] IH2 [OF _ s(2,3)] s(1) by cases blast+
  qed
qed simp

lemma store_typed:
  "tree_typed t \<Longrightarrow> right \<noteq> 0 \<Longrightarrow> key_typed key \<Longrightarrow> store n t a key right isib = Some (ret, t') \<Longrightarrow> tree_typed t'"
  using store_typed_both [of n] by blast

lemma btree_insert_typed:
  "tree_typed t \<Longrightarrow> right \<noteq> 0 \<Longrightarrow> key_typed key \<Longrightarrow> btree_insert n t key right = Some t' \<Longrightarrow> tree_typed t'"
proof (induction n arbitrary: t)
  case (Suc n)
  obtain a ret t1 where r: "store n t a key right 0 = Some (ret, t1)" "if ret = 0 then btree_insert n t1 key right = Some t' else t1 = t'"
    using Suc.prems(4) by (auto simp: bind_eq_Some_conv split: if_splits)
  have "tree_typed t1" by (rule store_typed [OF Suc.prems(1-3) r(1)])
  then show ?case using Suc.IH Suc.prems(2,3) r(2) by (cases "ret = 0") auto
qed simp

lemma remove_page_typed: "tree_typed t \<Longrightarrow> remove_page t a key = Some (b, t') \<Longrightarrow> tree_typed t'"
proof -
  assume t: "tree_typed t" "remove_page t a key = Some (b, t')"
  then obtain p where p: "pages t a = Some p" "t' = write_page t a (fst (remove_key p key))"
    by (auto simp: remove_page_def bind_eq_Some_conv)
  moreover have "page_typed p" using t(1) p(1) by (simp add: tree_typed_def)
  ultimately show "tree_typed t'" using write_page_typed [OF t(1) remove_key_typed] by simp
qed

lemma btree_delete_typed: "tree_typed t \<Longrightarrow> btree_delete n t key = Some t' \<Longrightarrow> tree_typed t'"
proof (induction n arbitrary: t)
  case (Suc n)
  consider "t' = t" | a b t1 where "remove_page t a key = Some (b, t1)" "if b then t1 = t' else btree_delete n t1 key = Some t'"
    using Suc.prems(2) by (auto simp: bind_eq_Some_conv split: if_splits)
  then show ?case
  proof cases
    case 2
    then show ?thesis using Suc.IH [of t1] remove_page_typed [OF Suc.prems(1) 2(1)] by (cases b) simp_all
  qed (use Suc.prems(1) in simp)
qed simp

lemma tree_ctor_typed: "0 < base \<Longrightarrow> tree_typed (tree_ctor base)"
  using page_ctor_typed by (auto simp: tree_ctor_def new_page_def tree_typed_def PAGESIZE_def)

section \<open>Every run\<close>

text \<open>The inserts and deletes of a client, one after the other; a call that does not return has no result.\<close>

datatype page_call = Put int int | Del int

fun run_calls :: "nat \<Rightarrow> page_call list \<Rightarrow> tree_state \<Rightarrow> tree_state option" where
  "run_calls n [] t = Some t" |
  "run_calls n (Put key right # cs) t = Option.bind (btree_insert n t key right) (run_calls n cs)" |
  "run_calls n (Del key # cs) t = Option.bind (btree_delete n t key) (run_calls n cs)"

fun call_typed :: "page_call \<Rightarrow> bool" where
  "call_typed (Put key right) \<longleftrightarrow> key_typed key \<and> right \<noteq> 0" |
  "call_typed (Del key) \<longleftrightarrow> True"

lemma run_calls_typed: "tree_typed t \<Longrightarrow> list_all call_typed cs \<Longrightarrow> run_calls n cs t = Some t' \<Longrightarrow> tree_typed t'"
  by (induction n cs t rule: run_calls.induct) (auto simp: bind_eq_Some_conv intro: btree_insert_typed btree_delete_typed)

text \<open>C13: whatever sequence of inserts of 64-bit keys with non-null pointers and of deletes, duplicates and absent
  keys included, is run on a new tree, every page of the result is representable in the types of the code: it has its
  \<^verbatim>\<open>cardinality\<close> records, \<^verbatim>\<open>last_index\<close> fits \<^verbatim>\<open>int16_t\<close> and every key, also in a slot behind the terminator, fits
  \<^verbatim>\<open>int64_t\<close>; and the number of entries that \<^verbatim>\<open>count\<close> reads from the slots is the one \<^verbatim>\<open>last_index\<close> caches.\<close>

theorem pages_representable:
  assumes "0 < base" "list_all call_typed cs" "run_calls n cs (tree_ctor base) = Some t" "pages t a = Some p"
  shows "representable p \<and> count p = nat (last_index p + 1)"
proof -
  have "page_typed p"
    using run_calls_typed [OF tree_ctor_typed [OF assms(1)] assms(2,3)] assms(4) by (simp add: tree_typed_def)
  then show ?thesis by (simp add: page_typed_representable page_typed_count)
qed

theorem pages_representable_witness:
  "representable (the (pages (the (run_calls 4 [Put 7 70, Put 3 30, Put 3 31, Del 7] (tree_ctor 4096))) 4096)) \<and>
   count (the (pages (the (run_calls 4 [Put 7 70, Put 3 30, Put 3 31, Del 7] (tree_ctor 4096))) 4096)) =
   nat (last_index (the (pages (the (run_calls 4 [Put 7 70, Put 3 30, Put 3 31, Del 7] (tree_ctor 4096))) 4096)) + 1)"
proof -
  let ?cs = "[Put 7 70, Put 3 30, Put 3 31, Del 7]"
  let ?r = "run_calls 4 ?cs (tree_ctor 4096)"
  have r: "?r \<noteq> None" "pages (the ?r) 4096 \<noteq> None" by code_simp+
  show ?thesis
    by (rule pages_representable [of 4096 ?cs 4 "the ?r" 4096])
      (use r in \<open>auto simp: key_typed_def LONG_MIN_def LONG_MAX_def\<close>)
qed

end
