(* ===== verification/YCSB_Counters.thy ===== *)
theory YCSB_Counters
  imports Future_BTree
begin

text \<open>
  The key sequences of the YCSB framework (\<^verbatim>\<open>YCSB-cpp/core/counter_generator.h\<close> and
  \<^verbatim>\<open>acknowledged_counter_generator.{h,cc}\<close>): the counter that numbers the records of a load phase and
  the one that numbers the inserts of the transaction phase, whose last value only advances over numbers that
  were acknowledged.  The vector of flags is a function on slots, since every access is masked to its size;
  the atomic operations are single steps.
\<close>

unbundle bit_operations_syntax

section \<open>Errors of the framework\<close>

text \<open>\<^verbatim>\<open>utils::Exception\<close>, the only exception the client threads catch, or an exception of the standard
  library or of the tree.\<close>

datatype ycsb_error = Exception string | std_exception error

lemma unat_add_one: "(i :: 64 word) < u \<Longrightarrow> unat (i + 1) = Suc (unat i)"
  using unsigned_less [of u, where ?'a = nat] by (simp add: word_less_nat_alt unat_word_ariths)

section \<open>The generators\<close>

record CounterGenerator =
  counter :: "64 word"

definition CounterGenerator_ctor :: "64 word \<Rightarrow> CounterGenerator" where
  "CounterGenerator_ctor start = \<lparr>counter = start\<rparr>"

definition counter_Next :: "'a CounterGenerator_scheme \<Rightarrow> 64 word \<times> 'a CounterGenerator_scheme" where
  "counter_Next g = (counter g, g\<lparr>counter := counter g + 1\<rparr>)"

definition counter_Last :: "'a CounterGenerator_scheme \<Rightarrow> 64 word" where
  "counter_Last g = counter g - 1"

text \<open>The derived class overrides \<^verbatim>\<open>Last\<close>.\<close>

record AcknowledgedCounterGenerator = CounterGenerator +
  limit :: "64 word"
  ack_window :: "64 word \<Rightarrow> bool"

definition kWindowSize :: "64 word" where
  "kWindowSize = push_bit 16 1"

definition kWindowMask :: "64 word" where
  "kWindowMask = kWindowSize - 1"

definition AcknowledgedCounterGenerator_ctor :: "64 word \<Rightarrow> AcknowledgedCounterGenerator" where
  "AcknowledgedCounterGenerator_ctor start = \<lparr>counter = start, limit = start - 1, ack_window = (\<lambda>_. False)\<rparr>"

definition acknowledged_Last :: "AcknowledgedCounterGenerator \<Rightarrow> 64 word" where
  "acknowledged_Last g = limit g"

text \<open>The loop over the flags after the limit, from \<open>i\<close> up to \<open>until\<close>.\<close>

function ack_scan :: "64 word \<Rightarrow> 64 word \<Rightarrow> (64 word \<Rightarrow> bool) \<Rightarrow> 64 word \<times> (64 word \<Rightarrow> bool)" where
  "ack_scan i until w =
     (if i < until
      then let slot = i AND kWindowMask
           in if \<not> w slot then (i, w) else ack_scan (i + 1) until (w(slot := False))
      else (i, w))"
  by pat_completeness auto
termination
proof (relation "measure (\<lambda>(i, until, w). unat until - unat i)")
  fix i until x :: "64 word" and w :: "64 word \<Rightarrow> bool"
  assume "i < until"
  then show "((i + 1, until, w(x := False)), i, until, w) \<in> measure (\<lambda>(i, until, w). unat until - unat i)"
    by (simp add: word_less_nat_alt unat_add_one)
qed simp

declare ack_scan.simps [simp del]

definition Acknowledge :: "64 word \<Rightarrow> AcknowledgedCounterGenerator \<Rightarrow> ycsb_error + AcknowledgedCounterGenerator" where
  "Acknowledge value g =
     (let cur_slot = value AND kWindowMask
      in if ack_window g cur_slot then Inl (Exception ''Not enough window size'')
         else let (i, w) = ack_scan (limit g + 1) (limit g + kWindowSize) ((ack_window g)(cur_slot := True))
              in Inr (g\<lparr>limit := i - 1, ack_window := w\<rparr>))"

section \<open>Slots\<close>

text \<open>The flag of a number.\<close>

definition slot_of :: "nat \<Rightarrow> 64 word" where
  "slot_of v = word_of_nat v AND kWindowMask"

lemma window_const: "kWindowSize = 65536" "kWindowMask = 65535"
  by (simp_all add: kWindowMask_def kWindowSize_def)

lemma slot_of_mod: "slot_of v = word_of_nat (v mod 65536)"
proof -
  have "(65535 :: 64 word) = mask 16" by (simp add: mask_numeral)
  then have "slot_of v = take_bit 16 (word_of_nat v)" by (simp add: slot_of_def window_const take_bit_eq_mask)
  also have "\<dots> = word_of_nat (take_bit 16 v)" by (simp add: take_bit_of_nat)
  finally show ?thesis by (simp add: take_bit_eq_mod)
qed

lemma unat_small: "m < 2 ^ 64 \<Longrightarrow> unat (word_of_nat m :: 64 word) = m"
  by (simp add: unat_of_nat take_bit_nat_eq_self)

lemma slot_of_eq: "slot_of u = slot_of v \<longleftrightarrow> u mod 65536 = v mod 65536"
proof -
  have "unat (slot_of m) = m mod 65536" for m
    using mod_less_divisor [of 65536 m] by (simp add: slot_of_mod unat_small)
  then show ?thesis by (metis slot_of_mod)
qed

lemma slot_of_inj:
  assumes "u \<le> v" "v < u + 65536"
  shows "slot_of u = slot_of v \<longleftrightarrow> u = v"
proof
  assume "slot_of u = slot_of v"
  then have "v mod 65536 = u mod 65536" by (simp add: slot_of_eq)
  then have "65536 dvd v - u" using assms(1) by (simp add: mod_eq_dvd_iff_nat)
  then have "v - u = 0 \<or> 65536 \<le> v - u" using dvd_imp_le by blast
  then show "u = v" using assms by linarith
qed simp

lemma slot_of_next: "slot_of (v + 65536) = slot_of v"
  by (simp add: slot_of_eq)

section \<open>The scan of the window\<close>

text \<open>The scan stops at the first number whose flag is not set, or at the end, and clears the flags
  it has passed.\<close>

lemma ack_scan_spec:
  assumes "a \<le> b" "b < a + 65536" "b < 2 ^ 64"
  obtains m where "a \<le> m" "m \<le> b" "\<And>v. a \<le> v \<Longrightarrow> v < m \<Longrightarrow> w (slot_of v)" "m < b \<Longrightarrow> \<not> w (slot_of m)"
    "ack_scan (word_of_nat a) (word_of_nat b) w = (word_of_nat m, \<lambda>s. w s \<and> s \<notin> slot_of ` {a..<m})"
  using assms
proof (induction "b - a" arbitrary: a w thesis)
  case 0
  then have "ack_scan (word_of_nat a) (word_of_nat b) w = (word_of_nat a, w)"
    by (subst ack_scan.simps) simp
  then show ?case using 0 by (intro "0.prems"(1) [of a]) simp_all
next
  case (Suc n)
  have lt: "(word_of_nat a :: 64 word) < word_of_nat b"
    using Suc.hyps(2) Suc.prems(4) by (simp add: word_less_nat_alt unat_small)
  note unfold = ack_scan.simps [of "word_of_nat a" "word_of_nat b" w, folded slot_of_def, simplified lt Let_def]
  show ?case
  proof (cases "w (slot_of a)")
    case False
    then show ?thesis using unfold Suc.prems(2) by (intro Suc.prems(1) [of a]) simp_all
  next
    case True
    obtain m where m: "Suc a \<le> m" "m \<le> b" "\<And>v. Suc a \<le> v \<Longrightarrow> v < m \<Longrightarrow> (w(slot_of a := False)) (slot_of v)"
      "m < b \<Longrightarrow> \<not> (w(slot_of a := False)) (slot_of m)"
      "ack_scan (word_of_nat (Suc a)) (word_of_nat b) (w(slot_of a := False)) =
        (word_of_nat m, \<lambda>s. (w(slot_of a := False)) s \<and> s \<notin> slot_of ` {Suc a..<m})"
      using Suc.hyps Suc.prems(2-4) by (elim Suc.hyps(1) [rotated 1]) auto
    have ne: "slot_of a \<noteq> slot_of m" if "m < b"
      using that m(1) Suc.prems(3) slot_of_inj [of a m] by auto
    have "{a..<m} = insert a {Suc a..<m}" using m(1) by auto
    then have "ack_scan (word_of_nat a) (word_of_nat b) w = (word_of_nat m, \<lambda>s. w s \<and> s \<notin> slot_of ` {a..<m})"
      using True unfold m(5) by (auto simp: add.commute fun_eq_iff)
    moreover have "w (slot_of v)" if "a \<le> v" "v < m" for v
      using that True m(3) [of v] by (cases "v = a") (auto split: if_splits)
    ultimately show ?thesis using m(1,2,4) ne by (intro Suc.prems(1) [of m]) auto
  qed
qed

section \<open>The window and the numbers acknowledged\<close>

text \<open>The number after the last one of the generator: the first number a transaction may not use yet.\<close>

definition next_unlisted :: "AcknowledgedCounterGenerator \<Rightarrow> nat" where
  "next_unlisted g = unat (limit g + 1)"

text \<open>The numbers of \<open>acked\<close> lie below the end of the window, all numbers up to the limit belong to them, the flags
  of the window are those of the set, and the limit only stops below an acknowledged number when that
  is the greatest one.\<close>

definition ack_ok :: "nat \<Rightarrow> nat set \<Rightarrow> AcknowledgedCounterGenerator \<Rightarrow> bool" where
  "ack_ok start acked g \<longleftrightarrow>
     (let n = next_unlisted g
      in {start..<n} \<subseteq> acked \<and> start \<le> n \<and> acked \<subseteq> {start..<n + 65536} \<and>
         (\<forall>v \<in> {n..<n + 65536}. ack_window g (slot_of v) \<longleftrightarrow> v \<in> acked) \<and>
         (n \<in> acked \<longrightarrow> acked \<subseteq> {..n}))"

lemma limit_word:
  assumes "next_unlisted g = n" "n + 65535 < 2 ^ 64"
  shows "limit g + 1 = word_of_nat n" "limit g + kWindowSize = word_of_nat (n + 65535)"
proof -
  show l: "limit g + 1 = word_of_nat n" using assms(1) by (auto simp: next_unlisted_def)
  have "limit g + kWindowSize = (limit g + 1) + 65535" by (simp add: window_const add.assoc)
  also have "\<dots> = word_of_nat (n + 65535)" by (simp add: l)
  finally show "limit g + kWindowSize = word_of_nat (n + 65535)" .
qed

text \<open>The window after a scan that stopped at \<open>m\<close>.\<close>

lemma ack_ok_advance:
  assumes "ack_ok start acked g" "next_unlisted g = n" "n \<le> v" "v < n + 65536"
    and w: "\<And>u. n \<le> u \<Longrightarrow> u < n + 65536 \<Longrightarrow> w (slot_of u) \<longleftrightarrow> u \<in> insert v acked"
    and m: "n \<le> m" "m \<le> n + 65535" "\<And>u. n \<le> u \<Longrightarrow> u < m \<Longrightarrow> w (slot_of u)" "m < n + 65535 \<Longrightarrow> \<not> w (slot_of m)"
    and g': "next_unlisted g' = m" "ack_window g' = (\<lambda>s. w s \<and> s \<notin> slot_of ` {n..<m})"
  shows "ack_ok start (insert v acked) g'"
  unfolding ack_ok_def g' Let_def
proof (intro conjI ballI impI)
  have ok: "{start..<n} \<subseteq> acked" "start \<le> n" "acked \<subseteq> {start..<n + 65536}"
    using assms(1,2) by (auto simp: ack_ok_def Let_def)
  show "{start..<m} \<subseteq> insert v acked"
  proof
    fix u assume "u \<in> {start..<m}"
    then show "u \<in> insert v acked" using ok(1) w [of u] m(2) m(3) [of u] by (cases "u < n") auto
  qed
  show "start \<le> m" "insert v acked \<subseteq> {start..<m + 65536}" using ok(2,3) m(1) assms(3,4) by auto
  show "insert v acked \<subseteq> {..m}" if "m \<in> insert v acked"
    using that w [of m] m(1,2,4) ok(3) assms(4) by (cases "m < n + 65535") auto
  fix u assume u: "u \<in> {m..<m + 65536}"
  show "(w (slot_of u) \<and> slot_of u \<notin> slot_of ` {n..<m}) \<longleftrightarrow> u \<in> insert v acked"
  proof (cases "u < n + 65536")
    case True
    have "slot_of x \<noteq> slot_of u" if "x \<in> {n..<m}" for x using that u True slot_of_inj [of x u] by auto
    then have "slot_of u \<notin> slot_of ` {n..<m}" by force
    then show ?thesis using w [of u] u m(1) True by simp
  next
    case False
    then obtain x where x: "u = x + 65536" "n \<le> x" "x < m"
      using u by (intro that [of "u - 65536"]) auto
    then have "slot_of u \<in> slot_of ` {n..<m}" by (simp add: slot_of_next)
    then show ?thesis using False ok(3) assms(4) by auto
  qed
qed

text \<open>Acknowledging a number of the window always succeeds.\<close>

lemma Acknowledge_ok:
  assumes "ack_ok start acked g" "next_unlisted g = n" "n \<le> v" "v < n + 65536" "v \<notin> acked" "n + 65536 \<le> 2 ^ 64"
  obtains g' where "Acknowledge (word_of_nat v) g = Inr g'" "ack_ok start (insert v acked) g'"
    "n \<le> next_unlisted g'" "v = n \<Longrightarrow> n < next_unlisted g'" "counter g' = counter g"
proof -
  let ?w = "(ack_window g)(slot_of v := True)"
  have ok: "ack_window g (slot_of u) \<longleftrightarrow> u \<in> acked" if "n \<le> u" "u < n + 65536" for u
    using that assms(1,2) by (auto simp: ack_ok_def Let_def)
  have w: "?w (slot_of u) \<longleftrightarrow> u \<in> insert v acked" if "n \<le> u" "u < n + 65536" for u
    using that assms(3,4) ok [of u] slot_of_inj [of u v] slot_of_inj [of v u] by (cases "u \<le> v") auto
  obtain m where m: "n \<le> m" "m \<le> n + 65535" "\<And>u. n \<le> u \<Longrightarrow> u < m \<Longrightarrow> ?w (slot_of u)" "m < n + 65535 \<Longrightarrow> \<not> ?w (slot_of m)"
    "ack_scan (word_of_nat n) (word_of_nat (n + 65535)) ?w = (word_of_nat m, \<lambda>s. ?w s \<and> s \<notin> slot_of ` {n..<m})"
    using assms(6) by (elim ack_scan_spec [of n "n + 65535" ?w, rotated 3]) auto
  let ?g = "g\<lparr>limit := word_of_nat m - 1, ack_window := \<lambda>s. ?w s \<and> s \<notin> slot_of ` {n..<m}\<rparr>"
  have "Acknowledge (word_of_nat v) g = Inr ?g"
    using assms(3-5) ok [of v] m(5) limit_word [OF assms(2)] assms(6)
    by (simp add: Acknowledge_def flip: slot_of_def)
  moreover have n': "next_unlisted ?g = m" using m(2) assms(6) by (simp add: next_unlisted_def unat_small)
  moreover have "ack_ok start (insert v acked) ?g"
    by (rule ack_ok_advance [OF assms(1-4) w m(1-4) n']) simp_all
  moreover have "n < m" if "v = n" using that m(1,4) by (cases "m = n") auto
  ultimately show thesis using m(1) by (intro that [of ?g]) simp_all
qed

text \<open>A number one window above the first one outstanding uses the flag of that one: it is accepted, and
  the limit passes the number that is still outstanding.\<close>

lemma Acknowledge_overrun:
  assumes "ack_ok start acked g" "next_unlisted g = n" "n \<notin> acked" "n + 65536 < 2 ^ 64"
  obtains g' where "Acknowledge (word_of_nat (n + 65536)) g = Inr g'" "n < next_unlisted g'"
proof -
  obtain g' where g': "Acknowledge (word_of_nat n) g = Inr g'" "n < next_unlisted g'"
    by (rule Acknowledge_ok [OF assms(1,2) order_refl _ assms(3)]) (use assms(4) in auto)
  have "word_of_nat (n + 65536) AND kWindowMask = (word_of_nat n AND kWindowMask :: 64 word)"
    using slot_of_next [of n] by (simp only: slot_of_def)
  then have "Acknowledge (word_of_nat (n + 65536)) g = Inr g'" using g'(1) by (simp only: Acknowledge_def)
  then show thesis using g'(2) that by blast
qed

section \<open>Threads that issue and acknowledge numbers\<close>

text \<open>The states the threads of a transaction phase reach: a thread takes the next number, inserts the record
  and acknowledges the number, the threads in any order.  \<open>held\<close> are the numbers taken and not yet
  acknowledged.  A number is only taken while it lies in the window that starts after the limit.\<close>

inductive ack_reachable :: "nat \<Rightarrow> AcknowledgedCounterGenerator \<Rightarrow> nat set \<Rightarrow> nat set \<Rightarrow> bool" for start where
  ack_start: "start + 65536 < 2 ^ 64 \<Longrightarrow> ack_reachable start (AcknowledgedCounterGenerator_ctor (word_of_nat start)) {} {}"
| ack_issue: "ack_reachable start g held acked \<Longrightarrow> counter_Next g = (v, g') \<Longrightarrow>
    unat v < next_unlisted g + 65536 \<Longrightarrow> unat v + 65537 < 2 ^ 64 \<Longrightarrow> ack_reachable start g' (insert (unat v) held) acked"
| ack_done: "ack_reachable start g held acked \<Longrightarrow> v \<in> held \<Longrightarrow> Acknowledge (word_of_nat v) g = Inr g' \<Longrightarrow>
    ack_reachable start g' (held - {v}) (insert v acked)"

definition issued_ok :: "nat \<Rightarrow> AcknowledgedCounterGenerator \<Rightarrow> nat set \<Rightarrow> nat set \<Rightarrow> bool" where
  "issued_ok start g held acked \<longleftrightarrow>
     ack_ok start acked g \<and> held \<union> acked = {start..<unat (counter g)} \<and> held \<inter> acked = {} \<and>
     start \<le> unat (counter g) \<and> unat (counter g) \<le> next_unlisted g + 65536 \<and> unat (counter g) + 65536 < 2 ^ 64"

lemma issued_window:
  assumes "issued_ok start g held acked"
  shows "next_unlisted g \<le> unat (counter g)" "v \<in> held \<Longrightarrow> next_unlisted g \<le> v \<and> v < next_unlisted g + 65536 \<and> v \<notin> acked"
proof -
  have a: "{start..<next_unlisted g} \<subseteq> acked" "start \<le> next_unlisted g" "held \<union> acked = {start..<unat (counter g)}"
    "held \<inter> acked = {}" "unat (counter g) \<le> next_unlisted g + 65536" "start \<le> unat (counter g)"
    using assms by (auto simp: issued_ok_def ack_ok_def Let_def)
  have "{start..<next_unlisted g} \<subseteq> {start..<unat (counter g)}" using a(1,3) by blast
  then show "next_unlisted g \<le> unat (counter g)" using a(2,6) by (cases "start < next_unlisted g") auto
  show "next_unlisted g \<le> v \<and> v < next_unlisted g + 65536 \<and> v \<notin> acked" if "v \<in> held"
  proof -
    have "v \<in> {start..<unat (counter g)}" "v \<notin> acked" using that a(3,4) by blast+
    then show ?thesis using a(1,5) by (auto simp: not_less [symmetric])
  qed
qed

lemma issued_acknowledge:
  assumes "issued_ok start g held acked" "v \<in> held"
  obtains g' where "Acknowledge (word_of_nat v) g = Inr g'" "issued_ok start g' (held - {v}) (insert v acked)"
proof -
  note v = issued_window(2) [OF assms]
  have c: "ack_ok start acked g" "next_unlisted g + 65536 \<le> 2 ^ 64"
    using assms(1) issued_window(1) [OF assms(1)] by (auto simp: issued_ok_def)
  obtain g' where g': "Acknowledge (word_of_nat v) g = Inr g'" "ack_ok start (insert v acked) g'"
    "next_unlisted g \<le> next_unlisted g'" "counter g' = counter g"
    using Acknowledge_ok [OF c(1) refl] v c(2) by metis
  moreover have "issued_ok start g' (held - {v}) (insert v acked)"
    using assms g'(2-4) unfolding issued_ok_def by (auto simp del: ball_simps)
  ultimately show thesis using that by blast
qed

lemma issued_start:
  assumes "start + 65536 < 2 ^ 64"
  shows "issued_ok start (AcknowledgedCounterGenerator_ctor (word_of_nat start)) {} {}"
  using assms by (simp add: issued_ok_def ack_ok_def AcknowledgedCounterGenerator_ctor_def next_unlisted_def unat_small)

lemma issued_next:
  assumes "issued_ok start g held acked" "unat (counter g) < next_unlisted g + 65536" "unat (counter g) + 65537 < 2 ^ 64"
  shows "issued_ok start (g\<lparr>counter := counter g + 1\<rparr>) (insert (unat (counter g)) held) acked"
proof -
  have u: "unat (counter g + 1) = Suc (unat (counter g))" using assms(3) by (simp add: unat_word_ariths)
  have "start \<le> unat (counter g)" using assms(1) by (simp add: issued_ok_def)
  then have "insert (unat (counter g)) {start..<unat (counter g)} = {start..<Suc (unat (counter g))}" by auto
  moreover have "unat (counter g) \<notin> acked" using assms(1) by (auto simp: issued_ok_def)
  ultimately show ?thesis
    using assms u by (simp add: issued_ok_def ack_ok_def next_unlisted_def Let_def)
qed

lemma ack_reachable_ok: "ack_reachable start g held acked \<Longrightarrow> issued_ok start g held acked"
proof (induction rule: ack_reachable.induct)
  case ack_start
  then show ?case by (rule issued_start)
next
  case (ack_issue g held acked v g')
  then show ?case using issued_next [of start g held acked] by (auto simp: counter_Next_def)
next
  case (ack_done g held acked v g')
  then show ?case by (metis issued_acknowledge sum.inject(2))
qed

section \<open>Properties\<close>

text \<open>C8: Whatever the order in which the threads of a transaction phase insert and acknowledge records, while no
  number is taken a whole window above the limit: every number up to the last one of the generator has been
  acknowledged, no acknowledgement throws, and once all numbers taken have been acknowledged the last one is
  the last number taken or the one before it.\<close>

theorem acknowledged_counter_safe:
  assumes "ack_reachable start g held acked"
  shows "(\<forall>v. start \<le> v \<and> v < unat (acknowledged_Last g + 1) \<longrightarrow> v \<in> acked) \<and>
    (\<forall>v \<in> held. \<exists>g'. Acknowledge (word_of_nat v) g = Inr g') \<and>
    (held = {} \<longrightarrow> unat (acknowledged_Last g + 1) = unat (counter g) \<or> Suc (unat (acknowledged_Last g + 1)) = unat (counter g))"
proof -
  note ok = ack_reachable_ok [OF assms]
  have a: "{start..<next_unlisted g} \<subseteq> acked" "next_unlisted g \<in> acked \<Longrightarrow> acked \<subseteq> {..next_unlisted g}"
    "held \<union> acked = {start..<unat (counter g)}" "start \<le> next_unlisted g"
    using ok by (auto simp: issued_ok_def ack_ok_def Let_def)
  have q: "next_unlisted g = unat (counter g) \<or> Suc (next_unlisted g) = unat (counter g)" if "held = {}"
  proof (cases "next_unlisted g \<in> acked")
    case True
    then have "{start..<unat (counter g)} \<subseteq> {..next_unlisted g}" "next_unlisted g < unat (counter g)"
      using a(2,3) that by auto
    then have "unat (counter g) - 1 \<le> next_unlisted g" using a(4) by (auto simp: subset_iff)
    then show ?thesis using \<open>next_unlisted g < unat (counter g)\<close> by auto
  next
    case False
    then have "unat (counter g) \<le> next_unlisted g" using a(3,4) that by auto
    then show ?thesis using issued_window(1) [OF ok] by auto
  qed
  have "\<exists>g'. Acknowledge (word_of_nat v) g = Inr g'" if "v \<in> held" for v
    using that by (meson issued_acknowledge ok)
  then show ?thesis using a(1) q unfolding next_unlisted_def acknowledged_Last_def by auto
qed

text \<open>Two numbers are taken and the second one is acknowledged first.\<close>

lemma sample_acknowledge:
  "Acknowledge (word_of_nat 6) ((AcknowledgedCounterGenerator_ctor (word_of_nat 5))\<lparr>counter := 7\<rparr>) =
     Inr \<lparr>counter = 7, limit = 4, ack_window = (\<lambda>_. False)(6 := True)\<rparr>"
proof -
  have "ack_scan 5 65540 ((\<lambda>_. False)(6 := True)) = (5, (\<lambda>_. False)(6 := True))"
    by (subst ack_scan.simps) (simp add: window_const)
  then show ?thesis
    unfolding Acknowledge_def AcknowledgedCounterGenerator_ctor_def window_const by simp
qed

lemma sample_ack:
  obtains g where "ack_reachable 5 g {5} {6}" "acknowledged_Last g = 4" "counter g = 7"
proof -
  let ?g0 = "AcknowledgedCounterGenerator_ctor (word_of_nat 5)"
  have c: "counter_Next ?g0 = (5, ?g0\<lparr>counter := 6\<rparr>)" "counter_Next (?g0\<lparr>counter := 6\<rparr>) = (6, ?g0\<lparr>counter := 7\<rparr>)"
    by (simp_all add: counter_Next_def AcknowledgedCounterGenerator_ctor_def)
  have r0: "ack_reachable 5 ?g0 {} {}" by (rule ack_start) simp
  have r1: "ack_reachable 5 (?g0\<lparr>counter := 6\<rparr>) (insert (unat (5 :: 64 word)) {}) {}"
    by (rule ack_issue [OF r0 c(1)]) simp_all
  have r2: "ack_reachable 5 (?g0\<lparr>counter := 7\<rparr>) (insert (unat (6 :: 64 word)) (insert (unat (5 :: 64 word)) {})) {}"
    by (rule ack_issue [OF r1 c(2)]) (simp_all add: next_unlisted_def AcknowledgedCounterGenerator_ctor_def)
  let ?g = "\<lparr>counter = 7, limit = 4, ack_window = (\<lambda>_. False)(6 := True)\<rparr>"
  note a = sample_acknowledge
  have "ack_reachable 5 ?g (insert (unat (6 :: 64 word)) (insert (unat (5 :: 64 word)) {}) - {6}) (insert 6 {})"
    by (rule ack_done [OF r2 _ a]) simp
  moreover have "insert (unat (6 :: 64 word)) (insert (unat (5 :: 64 word)) {}) - {6} = {5}" by auto
  ultimately show thesis using that [of ?g] by (simp add: acknowledged_Last_def)
qed

theorem acknowledged_counter_safe_witness:
  "\<exists>g g'. ack_reachable 5 g {5} {6} \<and> acknowledged_Last g = 4 \<and> Acknowledge (word_of_nat 5) g = Inr g'"
proof -
  obtain g where g: "ack_reachable 5 g {5} {6}" "acknowledged_Last g = 4" by (rule sample_ack)
  from acknowledged_counter_safe [OF g(1)] show ?thesis using g by auto
qed

text \<open>C40: The exception for a window that is too small is not raised for the number that lies exactly one window
  above the oldest number a thread still holds: acknowledging it succeeds, and the last number of the generator
  passes the one that was never acknowledged, so that transactions read a record that is not inserted yet.\<close>

theorem window_overrun_unnoticed:
  assumes "ack_reachable start g held acked" "unat (acknowledged_Last g + 1) \<in> held"
    "unat (acknowledged_Last g + 1) + 65536 < 2 ^ 64"
  shows "\<exists>g'. Acknowledge (word_of_nat (unat (acknowledged_Last g + 1) + 65536)) g = Inr g' \<and>
    unat (acknowledged_Last g + 1) < unat (acknowledged_Last g' + 1)"
proof -
  note ok = ack_reachable_ok [OF assms(1)]
  have n: "next_unlisted g \<in> held" "next_unlisted g + 65536 < 2 ^ 64"
    using assms(2,3) by (simp_all add: next_unlisted_def acknowledged_Last_def)
  obtain g' where "Acknowledge (word_of_nat (next_unlisted g + 65536)) g = Inr g'" "next_unlisted g < next_unlisted g'"
    using Acknowledge_overrun [of start acked g "next_unlisted g"] ok n issued_window(2) [OF ok n(1)]
    by (auto simp: issued_ok_def)
  then show ?thesis by (auto simp: next_unlisted_def acknowledged_Last_def)
qed

theorem window_overrun_unnoticed_witness:
  "\<exists>g g'. ack_reachable 5 g {5} {6} \<and> Acknowledge (word_of_nat 65541) g = Inr g' \<and> 5 < unat (acknowledged_Last g' + 1)"
proof -
  obtain g where g: "ack_reachable 5 g {5} {6}" "acknowledged_Last g = 4" by (rule sample_ack)
  have "unat (acknowledged_Last g + 1) = 5" by (simp add: g(2))
  then show ?thesis using window_overrun_unnoticed [OF g(1)] g by auto
qed

end
