(* ===== verification/YCSB_Utils.thy ===== *)
theory YCSB_Utils
  imports YCSB_Counters F3Tree_DB "HOL-Library.Signed_Division"
begin

text \<open>
  Utilities of the YCSB framework: the hash of key numbers, the property files and the command line
  (\<^verbatim>\<open>YCSB-cpp/utils\<close>, \<^verbatim>\<open>core/ycsbc.cc\<close>), the rate schedule, the generator of random bytes and the basic
  measurements.  The contents of files and the random numbers drawn are arguments.
\<close>

unbundle bit_operations_syntax

section \<open>Hash of a key number\<close>

definition kFNVOffsetBasis64 :: "64 word" where
  "kFNVOffsetBasis64 = 0xCBF29CE484222325"

definition kFNVPrime64 :: "64 word" where
  "kFNVPrime64 = 1099511628211"

text \<open>The body of the loop, on the rest of the value and the hash.\<close>

definition fnv_step :: "64 word \<times> 64 word \<Rightarrow> 64 word \<times> 64 word" where
  "fnv_step = (\<lambda>(val, hash). (drop_bit 8 val, (hash XOR (val AND 0x00ff)) * kFNVPrime64))"

definition FNVHash64 :: "64 word \<Rightarrow> 64 word" where
  "FNVHash64 val = snd ((fnv_step ^^ 8) (val, kFNVOffsetBasis64))"

definition Hash :: "64 word \<Rightarrow> 64 word" where
  "Hash val = FNVHash64 val"

text \<open>\<^verbatim>\<open>ScrambledZipfianGenerator::Scramble\<close>\<close>

definition Scramble :: "64 word \<Rightarrow> 64 word \<Rightarrow> 64 word \<Rightarrow> 64 word" where
  "Scramble base num_items value = base + FNVHash64 value mod num_items"

section \<open>Strings\<close>

definition tolower :: "char \<Rightarrow> char" where
  "tolower c = (if 65 \<le> (of_char c :: nat) \<and> (of_char c :: nat) \<le> 90 then char_of ((of_char c :: nat) + 32) else c)"

definition StrToBool :: "string \<Rightarrow> ycsb_error + bool" where
  "StrToBool str =
     (let s = map tolower str
      in if s = ''true'' \<or> s = ''1'' then Inr True
         else if s = ''false'' \<or> s = ''0'' then Inr False
         else Inl (Exception (''Invalid bool string: '' @ s)))"

definition Trim :: "string \<Rightarrow> string" where
  "Trim str = rev (dropWhile is_space (rev (dropWhile is_space str)))"

section \<open>Properties\<close>

definition SetProperty :: "string \<Rightarrow> string \<Rightarrow> properties \<Rightarrow> properties" where
  "SetProperty key value props = props(key \<mapsto> value)"

definition ContainsKey :: "properties \<Rightarrow> string \<Rightarrow> bool" where
  "ContainsKey props key \<longleftrightarrow> props key \<noteq> None"

text \<open>\<^verbatim>\<open>operator[]\<close>, which throws for an unknown name.\<close>

definition property_at :: "properties \<Rightarrow> string \<Rightarrow> ycsb_error + string" where
  "property_at props key = (case props key of None \<Rightarrow> Inl (std_exception (out_of_range ''map::at'')) | Some v \<Rightarrow> Inr v)"

text \<open>What successive calls of \<^verbatim>\<open>getline\<close> return until the end of the file was met: after a final newline,
  one empty line.\<close>

fun getlines :: "string \<Rightarrow> string list" where
  "getlines [] = [[]]"
| "getlines (c # cs) = (if c = CHR 0x0A then [] # getlines cs else (case getlines cs of [] \<Rightarrow> [[c]] | l # ls \<Rightarrow> (c # l) # ls))"

text \<open>Position of the first \<^verbatim>\<open>=\<close> and the parts around it.\<close>

definition split_at_equals :: "string \<Rightarrow> (string \<times> string) option" where
  "split_at_equals line =
     (case dropWhile (\<lambda>c. c \<noteq> CHR ''='') line of [] \<Rightarrow> None
      | _ # rest \<Rightarrow> Some (takeWhile (\<lambda>c. c \<noteq> CHR ''='') line, rest))"

definition load_line :: "string \<Rightarrow> properties \<Rightarrow> properties" where
  "load_line line props =
     (if line \<noteq> [] \<and> hd line = CHR ''#'' then props
      else case split_at_equals line of None \<Rightarrow> props | Some (k, v) \<Rightarrow> SetProperty (Trim k) (Trim v) props)"

text \<open>The file is \<^term>\<open>None\<close> when it could not be opened.\<close>

definition Load :: "string option \<Rightarrow> properties \<Rightarrow> ycsb_error + properties" where
  "Load input props =
     (case input of None \<Rightarrow> Inl (Exception ''File not open!'') | Some text \<Rightarrow> Inr (fold load_line (getlines text) props))"

section \<open>Command line\<close>

text \<open>The status and the message the program exits with.\<close>

datatype program_exit = exit_with int string

text \<open>The properties and the arguments left at the first one that is not an option.\<close>

fun parse_args :: "(string \<Rightarrow> string option) \<Rightarrow> string list \<Rightarrow> properties \<Rightarrow> program_exit + properties \<times> string list" where
  "parse_args files [] props = Inr (props, [])"
| "parse_args files (arg # rest) props =
     (if \<not> (arg \<noteq> [] \<and> hd arg = CHR ''-'') then Inr (props, arg # rest)
      else if arg = ''-load'' then parse_args files rest (SetProperty ''doload'' ''true'' props)
      else if arg = ''-run'' \<or> arg = ''-t'' then parse_args files rest (SetProperty ''dotransaction'' ''true'' props)
      else if arg = ''-threads'' then
        (case rest of [] \<Rightarrow> Inl (exit_with 0 ''Missing argument value for -threads'')
         | v # rest' \<Rightarrow> parse_args files rest' (SetProperty ''threadcount'' v props))
      else if arg = ''-db'' then
        (case rest of [] \<Rightarrow> Inl (exit_with 0 ''Missing argument value for -db'')
         | v # rest' \<Rightarrow> parse_args files rest' (SetProperty ''dbname'' v props))
      else if arg = ''-P'' then
        (case rest of [] \<Rightarrow> Inl (exit_with 0 ''Missing argument value for -P'')
         | v # rest' \<Rightarrow>
            (case Load (files v) props of
               Inl e \<Rightarrow> Inl (exit_with 1 (''Failed to load properties from '' @ v @ '': File not open!''))
             | Inr props' \<Rightarrow> parse_args files rest' props'))
      else if arg = ''-p'' then
        (case rest of [] \<Rightarrow> Inl (exit_with 0 ''Missing argument value for -p'')
         | v # rest' \<Rightarrow>
            (case split_at_equals v of
               None \<Rightarrow> Inl (exit_with 0 (''Argument '' @ [CHR 0x27] @ ''-p'' @ [CHR 0x27] @
                 '' expected to be in key=value format (e.g., -p operationcount=99999)''))
             | Some (k, x) \<Rightarrow> parse_args files rest' (SetProperty (Trim k) (Trim x) props)))
      else if arg = ''-s'' then parse_args files rest (SetProperty ''status'' ''true'' props)
      else Inl (exit_with 0 (''Unknown option '' @ [CHR 0x27] @ arg @ [CHR 0x27])))"

definition ParseCommandLine :: "(string \<Rightarrow> string option) \<Rightarrow> string list \<Rightarrow> program_exit + properties" where
  "ParseCommandLine files args =
     (case parse_args files args Map.empty of
        Inl e \<Rightarrow> Inl e
      | Inr (props, rest) \<Rightarrow> if length rest = length args \<or> rest \<noteq> [] then Inl (exit_with 0 []) else Inr props)"

section \<open>Operations of the threads\<close>

text \<open>The number of operations thread \<open>i\<close> runs of \<open>total_ops\<close>.\<close>

definition thread_ops :: "int \<Rightarrow> int \<Rightarrow> int \<Rightarrow> int" where
  "thread_ops total_ops num_threads i =
     (let ops = total_ops sdiv num_threads in if i < total_ops smod num_threads then ops + 1 else ops)"

section \<open>Rate schedule\<close>

definition invalid_rate_file :: "ycsb_error + 'a" where
  "invalid_rate_file = Inl (Exception ''invalid rate file'')"

text \<open>One line: a time and a rate, and nothing else.\<close>

definition rate_line :: "string \<Rightarrow> (int \<times> int) option" where
  "rate_line trimmed =
     (case read_key trimmed of None \<Rightarrow> None
      | Some (next_time, s) \<Rightarrow>
         (case read_key s of None \<Rightarrow> None
          | Some (next_rate, trailing) \<Rightarrow> if dropWhile is_space trailing \<noteq> [] then None else Some (next_time, next_rate)))"

fun rate_lines :: "string list \<Rightarrow> int \<Rightarrow> ycsb_error + (int \<times> int) list" where
  "rate_lines [] last_time = Inr []"
| "rate_lines (line # ls) last_time =
     (let trimmed = Trim line
      in if trimmed = [] \<or> hd trimmed = CHR ''#'' then rate_lines ls last_time
         else case rate_line trimmed of None \<Rightarrow> invalid_rate_file
              | Some (next_time, next_rate) \<Rightarrow>
                 if next_time \<le> last_time then invalid_rate_file
                 else (case rate_lines ls next_time of Inl e \<Rightarrow> Inl e | Inr sched \<Rightarrow> Inr ((next_time, next_rate) # sched)))"

definition LoadRateSchedule :: "string \<Rightarrow> string option \<Rightarrow> ycsb_error + (int \<times> int) list" where
  "LoadRateSchedule rate_file contents =
     (case contents of None \<Rightarrow> Inl (Exception (''failed to open: '' @ rate_file))
      | Some text \<Rightarrow>
         (case rate_lines (getlines text) 0 of Inl e \<Rightarrow> Inl e
          | Inr sched \<Rightarrow> if sched = [] then invalid_rate_file else Inr sched))"

section \<open>Generators of values\<close>

text \<open>A generator whose values come from random numbers: the values it will return, and how many have been drawn.\<close>

record 'a Generator =
  outputs :: "nat \<Rightarrow> 'a"
  drawn :: nat

definition gen_Next :: "'a Generator \<Rightarrow> 'a \<times> 'a Generator" where
  "gen_Next g = (outputs g (drawn g), g\<lparr>drawn := Suc (drawn g)\<rparr>)"

record RandomByteGenerator =
  byte_buf :: string
  byte_off :: nat

text \<open>The buffer is filled before it is first read.\<close>

definition RandomByteGenerator_ctor :: RandomByteGenerator where
  "RandomByteGenerator_ctor = \<lparr>byte_buf = [], byte_off = 6\<rparr>"

definition byte_of :: "32 word \<Rightarrow> char" where
  "byte_of v = char_of (unat (v + 32))"

definition fill_bytes :: "32 word \<Rightarrow> string" where
  "fill_bytes bytes =
     [byte_of (bytes AND 31), byte_of (signed_drop_bit 5 bytes AND 63), byte_of (signed_drop_bit 10 bytes AND 95),
      byte_of (signed_drop_bit 15 bytes AND 31), byte_of (signed_drop_bit 20 bytes AND 63), byte_of (signed_drop_bit 25 bytes AND 95)]"

text \<open>\<open>ints\<close> are the results of \<^verbatim>\<open>ThreadLocalRandomInt\<close>.\<close>

definition byte_Next :: "RandomByteGenerator \<Rightarrow> 32 word Generator \<Rightarrow> char \<times> RandomByteGenerator \<times> 32 word Generator" where
  "byte_Next b ints =
     (let (b1, ints1) = (if byte_off b = 6
                         then (let (bytes, ints') = gen_Next ints in (b\<lparr>byte_buf := fill_bytes bytes, byte_off := 0\<rparr>, ints'))
                         else (b, ints))
      in (byte_buf b1 ! byte_off b1, b1\<lparr>byte_off := Suc (byte_off b1)\<rparr>, ints1))"

fun generate_bytes :: "nat \<Rightarrow> RandomByteGenerator \<Rightarrow> 32 word Generator \<Rightarrow> string \<times> 32 word Generator" where
  "generate_bytes 0 b ints = ([], ints)"
| "generate_bytes (Suc n) b ints =
     (let (c, b1, ints1) = byte_Next b ints; (cs, ints2) = generate_bytes n b1 ints1 in (c # cs, ints2))"

section \<open>Measurements\<close>

datatype Operation = INSERT | READ | UPDATE | SCAN | READMODIFYWRITE | DELETE | INSERT_FAILED | READ_FAILED
  | UPDATE_FAILED | SCAN_FAILED | READMODIFYWRITE_FAILED | DELETE_FAILED | MAXOPTYPE

text \<open>The operations in the order of the enumeration.\<close>

fun op_number :: "Operation \<Rightarrow> nat" where
  "op_number INSERT = 0" | "op_number READ = 1" | "op_number UPDATE = 2" | "op_number SCAN = 3"
| "op_number READMODIFYWRITE = 4" | "op_number DELETE = 5" | "op_number INSERT_FAILED = 6" | "op_number READ_FAILED = 7"
| "op_number UPDATE_FAILED = 8" | "op_number SCAN_FAILED = 9" | "op_number READMODIFYWRITE_FAILED = 10"
| "op_number DELETE_FAILED = 11" | "op_number MAXOPTYPE = 12"

lemma op_number_inject [simp]: "op_number a = op_number b \<longleftrightarrow> a = b"
  by (cases a; cases b) simp_all

instantiation Operation :: linorder
begin

definition less_eq_Operation :: "Operation \<Rightarrow> Operation \<Rightarrow> bool" where
  "less_eq_Operation a b \<longleftrightarrow> op_number a \<le> op_number b"

definition less_Operation :: "Operation \<Rightarrow> Operation \<Rightarrow> bool" where
  "less_Operation a b \<longleftrightarrow> op_number a < op_number b"

instance
  by standard (auto simp: less_eq_Operation_def less_Operation_def)

end

definition all_operations :: "Operation list" where
  "all_operations = [INSERT, READ, UPDATE, SCAN, READMODIFYWRITE, DELETE, INSERT_FAILED, READ_FAILED,
     UPDATE_FAILED, SCAN_FAILED, READMODIFYWRITE_FAILED, DELETE_FAILED]"

fun kOperationString :: "Operation \<Rightarrow> string" where
  "kOperationString INSERT = ''INSERT''" | "kOperationString READ = ''READ''" | "kOperationString UPDATE = ''UPDATE''"
| "kOperationString SCAN = ''SCAN''" | "kOperationString READMODIFYWRITE = ''READMODIFYWRITE''"
| "kOperationString DELETE = ''DELETE''" | "kOperationString INSERT_FAILED = ''INSERT-FAILED''"
| "kOperationString READ_FAILED = ''READ-FAILED''" | "kOperationString UPDATE_FAILED = ''UPDATE-FAILED''"
| "kOperationString SCAN_FAILED = ''SCAN-FAILED''" | "kOperationString READMODIFYWRITE_FAILED = ''READMODIFYWRITE-FAILED''"
| "kOperationString DELETE_FAILED = ''DELETE-FAILED''" | "kOperationString MAXOPTYPE = []"

record BasicMeasurements =
  op_count :: "Operation \<Rightarrow> 32 word"
  latency_sum :: "Operation \<Rightarrow> 64 word"
  latency_min :: "Operation \<Rightarrow> 64 word"
  latency_max :: "Operation \<Rightarrow> 64 word"

definition BasicMeasurements_ctor :: BasicMeasurements where
  "BasicMeasurements_ctor = \<lparr>op_count = (\<lambda>_. 0), latency_sum = (\<lambda>_. 0), latency_min = (\<lambda>_. - 1), latency_max = (\<lambda>_. 0)\<rparr>"

text \<open>The compare-and-exchange loops end with the smaller and the greater of the two values.\<close>

definition Report :: "Operation \<Rightarrow> 64 word \<Rightarrow> BasicMeasurements \<Rightarrow> BasicMeasurements" where
  "Report op latency m =
     m\<lparr>op_count := (op_count m)(op := op_count m op + 1),
       latency_sum := (latency_sum m)(op := latency_sum m op + latency),
       latency_min := (if latency_min m op > latency then (latency_min m)(op := latency) else latency_min m),
       latency_max := (if latency_max m op < latency then (latency_max m)(op := latency) else latency_max m)\<rparr>"

definition Reset :: "BasicMeasurements \<Rightarrow> BasicMeasurements" where
  "Reset m = m\<lparr>op_count := (\<lambda>_. 0), latency_sum := (\<lambda>_. 0), latency_min := (\<lambda>_. - 1), latency_max := (\<lambda>_. 0)\<rparr>"

text \<open>The status message; \<open>thousandths\<close> and \<open>average\<close> print the floating-point numbers, a value divided by 1000 and a sum
  divided by a count and by 1000.\<close>

definition status_entry :: "(64 word \<Rightarrow> string) \<Rightarrow> (64 word \<Rightarrow> 64 word \<Rightarrow> string) \<Rightarrow> BasicMeasurements \<Rightarrow> Operation \<Rightarrow> string" where
  "status_entry thousandths average m op =
     (let cnt = ucast (op_count m op)
      in if cnt = 0 then []
         else '' ['' @ kOperationString op @ '':'' @ '' Count='' @ show_nat (unat cnt) @ '' Max='' @ thousandths (latency_max m op) @
           '' Min='' @ thousandths (latency_min m op) @ '' Avg='' @ average (latency_sum m op) cnt @ '']'')"

definition total_cnt :: "BasicMeasurements \<Rightarrow> 64 word" where
  "total_cnt m = sum_list (map (\<lambda>op. ucast (op_count m op)) all_operations)"

definition GetStatusMsg :: "(64 word \<Rightarrow> string) \<Rightarrow> (64 word \<Rightarrow> 64 word \<Rightarrow> string) \<Rightarrow> BasicMeasurements \<Rightarrow> string" where
  "GetStatusMsg thousandths average m =
     show_nat (unat (total_cnt m)) @ '' operations;'' @ concat (map (status_entry thousandths average m) all_operations)"

section \<open>Facts on the hash\<close>

lemma prime_inverse: "kFNVPrime64 * 14886173955864302971 = 1"
  by (simp add: kFNVPrime64_def)

lemma mult_prime_inj: "a * kFNVPrime64 = b * kFNVPrime64 \<longleftrightarrow> a = b"
proof
  assume "a * kFNVPrime64 = b * kFNVPrime64"
  then have "(a * kFNVPrime64) * 14886173955864302971 = (b * kFNVPrime64) * 14886173955864302971" by (rule arg_cong)
  then show "a = b" by (simp only: mult.assoc prime_inverse mult_1_right)
qed simp

lemma xor_left_inj: "(h XOR a) = (h XOR b) \<longleftrightarrow> a = (b :: 64 word)"
proof
  assume "h XOR a = h XOR b"
  then have "h XOR (h XOR a) = h XOR (h XOR b)" by (rule arg_cong)
  then show "a = b" by (simp flip: xor.assoc)
qed simp

text \<open>The octets and the hash after some rounds.\<close>

definition octet :: "nat \<Rightarrow> 64 word \<Rightarrow> 64 word" where
  "octet n v = take_bit 8 (drop_bit (8 * n) v)"

definition fnv_rounds :: "nat \<Rightarrow> 64 word \<Rightarrow> 64 word \<Rightarrow> 64 word" where
  "fnv_rounds n v h = snd ((fnv_step ^^ n) (v, h))"

lemma fnv_rounds_0: "fnv_rounds 0 v h = h"
  by (simp add: fnv_rounds_def)

lemma fnv_rest: "fst ((fnv_step ^^ n) (v, h)) = drop_bit (8 * n) v"
  by (induction n) (auto simp: fnv_step_def split_beta add.commute)

lemma fnv_rounds_Suc: "fnv_rounds (Suc n) v h = (fnv_rounds n v h XOR octet n v) * kFNVPrime64"
proof -
  have "(0xff :: 64 word) = mask 8" by (simp add: mask_numeral)
  then have "w AND 0xff = take_bit 8 w" for w :: "64 word" by (simp add: take_bit_eq_mask)
  then show ?thesis using fnv_rest [of n v h] by (simp add: fnv_rounds_def fnv_step_def octet_def split_beta)
qed

lemma fnv_rounds_cong: "\<forall>i < n. octet i u = octet i v \<Longrightarrow> fnv_rounds n u h = fnv_rounds n v h"
  by (induction n) (simp_all add: fnv_rounds_0 fnv_rounds_Suc)

text \<open>Once two hashes differ, equal octets keep them different.\<close>

lemma fnv_rounds_differ:
  assumes "fnv_rounds m u h \<noteq> fnv_rounds m v h" "m \<le> n" "\<forall>i. m \<le> i \<and> i < n \<longrightarrow> octet i u = octet i v"
  shows "fnv_rounds n u h \<noteq> fnv_rounds n v h"
  using assms(2,3)
proof (induction n rule: dec_induct)
  case (step n)
  then show ?case by (simp add: fnv_rounds_Suc mult_prime_inj xor.commute [of _ "octet n v"] xor_left_inj)
qed (rule assms(1))

text \<open>Two numbers that differ in one octet only have different hashes.\<close>

lemma FNVHash64_differs:
  assumes "k < 8" "octet k u \<noteq> octet k v" "\<forall>i < 8. i \<noteq> k \<longrightarrow> octet i u = octet i v"
  shows "FNVHash64 u \<noteq> FNVHash64 v"
proof -
  let ?h = kFNVOffsetBasis64
  have "\<forall>i < k. octet i u = octet i v" using assms(1,3) less_trans by blast
  then have "fnv_rounds k u ?h = fnv_rounds k v ?h" by (rule fnv_rounds_cong)
  then have "fnv_rounds (Suc k) u ?h \<noteq> fnv_rounds (Suc k) v ?h"
    using assms(2) by (simp add: fnv_rounds_Suc mult_prime_inj xor_left_inj)
  moreover have "\<forall>i. Suc k \<le> i \<and> i < 8 \<longrightarrow> octet i u = octet i v"
  proof (intro allI impI)
    fix i assume "Suc k \<le> i \<and> i < 8"
    then have "i < 8" "i \<noteq> k" by linarith+
    then show "octet i u = octet i v" using assms(3) by blast
  qed
  moreover have "Suc k \<le> 8" using assms(1) by linarith
  ultimately have "fnv_rounds 8 u ?h \<noteq> fnv_rounds 8 v ?h" using fnv_rounds_differ by blast
  then show ?thesis unfolding FNVHash64_def fnv_rounds_def .
qed

text \<open>In particular the hashes of the numbers of an aligned block of 256 are all different.\<close>

lemma FNVHash64_block:
  assumes "drop_bit 8 u = drop_bit 8 v" "u \<noteq> v"
  shows "FNVHash64 u \<noteq> FNVHash64 v"
proof (rule FNVHash64_differs)
  have "take_bit 8 u \<noteq> take_bit 8 v" using assms bits_ident [of 8 u] bits_ident [of 8 v] by metis
  then show "octet 0 u \<noteq> octet 0 v" by (simp add: octet_def)
  have "octet i w = take_bit 8 (drop_bit (8 * (i - 1)) (drop_bit 8 w))" if "i \<noteq> 0" for i w
    using that by (cases i) (simp_all add: octet_def add.commute)
  then show "\<forall>i < 8. i \<noteq> 0 \<longrightarrow> octet i u = octet i v" using assms(1) by metis
qed simp

lemma Scramble_range:
  assumes "0 < num_items" "unat base + unat num_items \<le> 2 ^ 64"
  shows "base \<le> Scramble base num_items v" "unat (Scramble base num_items v) < unat base + unat num_items"
proof -
  have "unat (FNVHash64 v mod num_items) < unat num_items"
    using assms(1) by (simp add: unat_mod word_less_nat_alt)
  moreover from this have "unat (Scramble base num_items v) = unat base + unat (FNVHash64 v mod num_items)"
    using assms(2) by (simp add: Scramble_def unat_word_ariths)
  ultimately show "base \<le> Scramble base num_items v" "unat (Scramble base num_items v) < unat base + unat num_items"
    by (simp_all add: word_le_nat_alt)
qed

section \<open>Facts on property files\<close>

lemma getlines_ne: "getlines s \<noteq> []"
  by (induction s) (auto split: list.splits)

lemma getlines_newline: "CHR 0x0A \<notin> set l \<Longrightarrow> getlines (l @ CHR 0x0A # s) = l # getlines s"
  by (induction l) auto

lemma split_at_equals_append: "CHR ''='' \<notin> set k \<Longrightarrow> split_at_equals (k @ CHR ''='' # v) = Some (k, v)"
  unfolding split_at_equals_def by (induction k) (auto split: list.splits)

text \<open>Names and values as they stand in a file: without surrounding blanks or newlines, the name without an
  equals sign and not a comment.\<close>

definition plain_property :: "string \<times> string \<Rightarrow> bool" where
  "plain_property = (\<lambda>(k, v). Trim k = k \<and> Trim v = v \<and> CHR 0x0A \<notin> set (k @ v) \<and> CHR ''='' \<notin> set k \<and>
     (k = [] \<or> hd k \<noteq> CHR ''#''))"

definition property_text :: "(string \<times> string) list \<Rightarrow> string" where
  "property_text kvs = concat (map (\<lambda>(k, v). k @ CHR ''='' # v @ [CHR 0x0A]) kvs)"

lemma load_line_plain:
  assumes "plain_property (k, v)"
  shows "load_line (k @ CHR ''='' # v) props = props(k \<mapsto> v)"
proof -
  have "hd (k @ CHR ''='' # v) \<noteq> CHR ''#''" using assms by (cases k) (auto simp: plain_property_def)
  then show ?thesis
    using assms split_at_equals_append [of k v] by (simp add: load_line_def plain_property_def SetProperty_def)
qed

lemma load_lines_plain:
  "\<forall>kv \<in> set kvs. plain_property kv \<Longrightarrow>
   fold load_line (getlines (property_text kvs)) props = props ++ map_of (rev kvs)"
proof (induction kvs arbitrary: props)
  case Nil
  then show ?case by (simp add: property_text_def load_line_def split_at_equals_def)
next
  case (Cons kv kvs)
  obtain k v where kv: "kv = (k, v)" by (cases kv)
  then have p: "plain_property (k, v)" using Cons.prems by simp
  then have l: "getlines ((k @ CHR ''='' # v) @ CHR 0x0A # property_text kvs) = (k @ CHR ''='' # v) # getlines (property_text kvs)"
    by (intro getlines_newline) (simp add: plain_property_def)
  have "property_text (kv # kvs) = (k @ CHR ''='' # v) @ CHR 0x0A # property_text kvs" by (simp add: property_text_def kv)
  then have "fold load_line (getlines (property_text (kv # kvs))) props = props(k \<mapsto> v) ++ map_of (rev kvs)"
    using Cons.prems by (simp only: l fold_simps load_line_plain [OF p]) (rule Cons.IH, simp)
  also have "props(k \<mapsto> v) = props ++ [k \<mapsto> v]" by simp
  finally show ?case by (simp only: kv rev.simps map_of_append map_of.simps fst_conv snd_conv map_add_assoc)
qed

section \<open>Facts on rates, bytes and measurements\<close>

lemma rate_lines_increasing:
  "rate_lines ls t = Inr sched \<Longrightarrow> sorted_wrt (<) (t # map fst sched)"
proof (induction ls t arbitrary: sched rule: rate_lines.induct)
  case (2 line ls t)
  then show ?case
    by (force simp: Let_def invalid_rate_file_def split: if_splits option.splits sum.splits prod.splits)
qed simp

lemma byte_of_range:
  assumes "v \<le> 95"
  shows "32 \<le> (of_char (byte_of v) :: nat) \<and> (of_char (byte_of v) :: nat) \<le> 127"
proof -
  have "unat v \<le> 95" using assms by (simp add: word_le_nat_alt)
  moreover from this have "unat (v + 32) = unat v + 32" by (simp add: unat_word_ariths)
  ultimately show ?thesis by (simp add: byte_of_def)
qed

lemma fill_bytes_range:
  "length (fill_bytes w) = 6" "\<forall>c \<in> set (fill_bytes w). 32 \<le> (of_char c :: nat) \<and> (of_char c :: nat) \<le> 127"
proof -
  have m: "(x AND 31 :: 32 word) \<le> 95" "(x AND 63 :: 32 word) \<le> 95" "(x AND 95 :: 32 word) \<le> 95" for x
    using word_and_le1 [of x 31] word_and_le1 [of x 63] word_and_le1 [of x 95] by (auto elim: order_trans)
  show "length (fill_bytes w) = 6" by (simp add: fill_bytes_def)
  show "\<forall>c \<in> set (fill_bytes w). 32 \<le> (of_char c :: nat) \<and> (of_char c :: nat) \<le> 127"
    unfolding fill_bytes_def using m byte_of_range by simp
qed

definition byte_buffer_ok :: "RandomByteGenerator \<Rightarrow> bool" where
  "byte_buffer_ok b \<longleftrightarrow> byte_off b = 6 \<or> byte_off b < 6 \<and> length (byte_buf b) = 6 \<and>
     (\<forall>c \<in> set (byte_buf b). 32 \<le> (of_char c :: nat) \<and> (of_char c :: nat) \<le> 127)"

lemma byte_Next_ok:
  assumes "byte_buffer_ok b" "byte_Next b ints = (c, b', ints')"
  shows "byte_buffer_ok b'" "32 \<le> (of_char c :: nat)" "(of_char c :: nat) \<le> 127"
proof -
  obtain w where "(byte_off b = 6 \<and> c = fill_bytes w ! 0 \<and> b' = b\<lparr>byte_buf := fill_bytes w, byte_off := 1\<rparr>) \<or>
      (byte_off b \<noteq> 6 \<and> c = byte_buf b ! byte_off b \<and> b' = b\<lparr>byte_off := Suc (byte_off b)\<rparr>)"
    using assms(2) by (auto simp: byte_Next_def gen_Next_def Let_def split: if_splits)
  then show "byte_buffer_ok b'" "32 \<le> (of_char c :: nat)" "(of_char c :: nat) \<le> 127"
    using assms(1) fill_bytes_range [of w] nth_mem [of 0 "fill_bytes w"] nth_mem [of "byte_off b" "byte_buf b"]
    by (auto simp: byte_buffer_ok_def)
qed

lemma generate_bytes_ok:
  assumes "byte_buffer_ok b" "generate_bytes n b ints = (cs, ints')"
  shows "length cs = n \<and> (\<forall>c \<in> set cs. 32 \<le> (of_char c :: nat) \<and> (of_char c :: nat) \<le> 127)"
  using assms
proof (induction n arbitrary: b ints cs ints')
  case (Suc n)
  obtain c b1 ints1 where b1: "byte_Next b ints = (c, b1, ints1)" by (cases "byte_Next b ints") auto
  obtain ds ints2 where g: "generate_bytes n b1 ints1 = (ds, ints2)" by (cases "generate_bytes n b1 ints1")
  have "cs = c # ds" using Suc.prems(2) b1 g by simp
  then show ?case using Suc.IH [OF byte_Next_ok(1) [OF Suc.prems(1) b1] g] byte_Next_ok(2,3) [OF Suc.prems(1) b1] by simp
qed simp

section \<open>Facts on the command line\<close>

text \<open>Options as a caller writes them, and their effect.\<close>

datatype cli_option = Cli_load | Cli_run | Cli_threads string | Cli_db string | Cli_set string string | Cli_status

fun show_option :: "cli_option \<Rightarrow> string list" where
  "show_option Cli_load = [''-load'']"
| "show_option Cli_run = [''-run'']"
| "show_option (Cli_threads n) = [''-threads'', n]"
| "show_option (Cli_db n) = [''-db'', n]"
| "show_option (Cli_set k v) = [''-p'', k @ CHR ''='' # v]"
| "show_option Cli_status = [''-s'']"

fun option_effect :: "cli_option \<Rightarrow> properties \<Rightarrow> properties" where
  "option_effect Cli_load m = m(''doload'' \<mapsto> ''true'')"
| "option_effect Cli_run m = m(''dotransaction'' \<mapsto> ''true'')"
| "option_effect (Cli_threads n) m = m(''threadcount'' \<mapsto> n)"
| "option_effect (Cli_db n) m = m(''dbname'' \<mapsto> n)"
| "option_effect (Cli_set k v) m = m(k \<mapsto> v)"
| "option_effect Cli_status m = m(''status'' \<mapsto> ''true'')"

fun option_plain :: "cli_option \<Rightarrow> bool" where
  "option_plain (Cli_set k v) = (Trim k = k \<and> Trim v = v \<and> CHR ''='' \<notin> set k)"
| "option_plain _ = True"

lemma parse_option:
  "option_plain opt \<Longrightarrow> parse_args files (show_option opt @ args) props = parse_args files args (option_effect opt props)"
  by (cases opt) (simp_all add: SetProperty_def split_at_equals_append)

lemma parse_options:
  "\<forall>opt \<in> set opts. option_plain opt \<Longrightarrow>
   parse_args files (concat (map show_option opts)) props = Inr (fold option_effect opts props, [])"
  by (induction opts arbitrary: props) (simp_all add: parse_option)

section \<open>Properties\<close>

text \<open>C30: Loading a property file returns what was written to it: the file with one line per name and value,
  without surrounding blanks, sets exactly these properties, the later of two values of a name, and keeps all
  others.\<close>

theorem property_file_roundtrip:
  assumes "\<forall>kv \<in> set kvs. plain_property kv"
  shows "Load (Some (property_text kvs)) props = Inr (props ++ map_of (rev kvs))"
  using load_lines_plain [OF assms] by (simp add: Load_def)

theorem property_file_roundtrip_witness:
  "Load (Some (property_text [(''recordcount'', ''100''), (''insertorder'', ''ordered'')])) Map.empty =
     Inr (map_of (rev [(''recordcount'', ''100''), (''insertorder'', ''ordered'')]))"
proof -
  have "\<forall>kv \<in> set [(''recordcount'', ''100''), (''insertorder'', ''ordered'')]. plain_property kv" by code_simp
  from property_file_roundtrip [OF this, of Map.empty] show ?thesis by simp
qed

text \<open>The command line sets the properties of its options, the later of two settings of a property.\<close>

theorem command_line_roundtrip:
  assumes "opts \<noteq> []" "\<forall>opt \<in> set opts. option_plain opt"
  shows "ParseCommandLine files (concat (map show_option opts)) = Inr (fold option_effect opts Map.empty)"
proof -
  have "concat (map show_option opts) \<noteq> []" using assms(1) by (cases opts; cases "hd opts") auto
  then show ?thesis using parse_options [OF assms(2)] by (simp add: ParseCommandLine_def)
qed

text \<open>The threads run all operations of a phase between them, each the same number up to one.\<close>

theorem thread_ops_partition:
  assumes "0 \<le> total_ops" "0 < n"
  shows "(\<Sum>i < n. thread_ops total_ops (int n) (int i)) = total_ops \<and>
    (\<forall>i j. \<bar>thread_ops total_ops (int n) i - thread_ops total_ops (int n) j\<bar> \<le> 1)"
proof -
  have d: "total_ops sdiv int n = total_ops div int n" "total_ops smod int n = total_ops mod int n"
    using assms by (cases "total_ops = 0"; simp add: signed_divide_int_eq_divide_int signed_modulo_int_eq_modulo_int)+
  have m: "0 \<le> total_ops mod int n" "total_ops mod int n < int n" using assms(2) by simp_all
  have "(\<Sum>i < n. if int i < total_ops mod int n then 1 else 0 :: int) = int (card {i. i < n \<and> int i < total_ops mod int n})"
    by (simp add: sum.If_cases Int_def)
  also have "{i. i < n \<and> int i < total_ops mod int n} = {..<nat (total_ops mod int n)}" using m by auto
  finally have s: "(\<Sum>i < n. if int i < total_ops mod int n then 1 else 0 :: int) = total_ops mod int n" using m(1) by simp
  have t: "thread_ops total_ops (int n) i = total_ops div int n + (if i < total_ops mod int n then 1 else 0)" for i
    by (simp add: thread_ops_def d)
  have "(\<Sum>i < n. thread_ops total_ops (int n) (int i)) = int n * (total_ops div int n) + total_ops mod int n"
    by (simp add: t sum.distrib s)
  then show ?thesis by (simp add: t)
qed

text \<open>A rate schedule that is accepted has at least one entry, and its times are positive and increase.\<close>

theorem rate_schedule_increasing:
  "LoadRateSchedule rate_file contents = Inr sched \<Longrightarrow> sched \<noteq> [] \<and> sorted_wrt (<) (0 # map fst sched)"
  using rate_lines_increasing by (force simp: LoadRateSchedule_def invalid_rate_file_def split: option.splits sum.splits if_splits)

text \<open>The random bytes of a value lie between the blank and 127, whatever random numbers are drawn.\<close>

theorem random_bytes_range:
  "generate_bytes n RandomByteGenerator_ctor ints = (cs, ints') \<Longrightarrow>
   length cs = n \<and> (\<forall>c \<in> set cs. 32 \<le> (of_char c :: nat) \<and> (of_char c :: nat) \<le> 127)"
  by (rule generate_bytes_ok) (simp_all add: byte_buffer_ok_def RandomByteGenerator_ctor_def)

text \<open>The latencies reported for an operation.\<close>

definition latencies :: "Operation \<Rightarrow> (Operation \<times> 64 word) list \<Rightarrow> 64 word list" where
  "latencies op rs = map snd (filter (\<lambda>r. fst r = op) rs)"

lemma Report_fields:
  "op_count (Report o' l m) op = (if o' = op then op_count m op + 1 else op_count m op)"
  "latency_sum (Report o' l m) op = (if o' = op then latency_sum m op + l else latency_sum m op)"
  "latency_min (Report o' l m) op = (if o' = op then min l (latency_min m op) else latency_min m op)"
  "latency_max (Report o' l m) op = (if o' = op then max l (latency_max m op) else latency_max m op)"
  by (auto simp: Report_def min_def max_def)

text \<open>After any reports the measurements of an operation are the number, the sum, the least and the greatest of its
  latencies; the number is kept as a 32-bit number, the others as 64-bit numbers.\<close>

theorem measurements_exact:
  "let m = fold (\<lambda>(op, l). Report op l) rs BasicMeasurements_ctor; ls = latencies op rs
   in op_count m op = word_of_nat (length ls) \<and> latency_sum m op = sum_list ls \<and>
      latency_min m op = Min (set (- 1 # ls)) \<and> latency_max m op = Max (set (0 # ls))"
  unfolding Let_def Min.set_eq_fold Max.set_eq_fold
proof (induction rs rule: rev_induct)
  case Nil
  then show ?case by (simp add: latencies_def BasicMeasurements_ctor_def)
next
  case (snoc r rs)
  then show ?case by (cases r) (simp add: latencies_def Report_fields)
qed

text \<open>All operations but the end marker of the enumeration, in its order.\<close>

lemma all_operations_sorted: "sorted all_operations" "distinct all_operations" "set all_operations = UNIV - {MAXOPTYPE}"
proof -
  show "sorted all_operations" "distinct all_operations" by (simp_all add: all_operations_def less_eq_Operation_def)
  have "op \<in> insert MAXOPTYPE (set all_operations)" for op by (cases op) (simp_all add: all_operations_def)
  then show "set all_operations = UNIV - {MAXOPTYPE}" by (auto simp: all_operations_def)
qed

lemma count_by_operation:
  assumes "\<forall>r \<in> set rs. fst r \<noteq> MAXOPTYPE"
  shows "(\<Sum>op\<leftarrow>all_operations. length (latencies op rs)) = length rs"
  using assms
proof (induction rs)
  case (Cons r rs)
  have "length (latencies op (r # rs)) = (if fst r = op then 1 else 0) + length (latencies op rs)" for op
    by (simp add: latencies_def)
  then have "(\<Sum>op\<leftarrow>all_operations. length (latencies op (r # rs))) =
      (\<Sum>op\<leftarrow>all_operations. (if fst r = op then 1 else 0)) + (\<Sum>op\<leftarrow>all_operations. length (latencies op rs))"
    by (simp only: sum_list_addf)
  moreover have "(\<Sum>op\<leftarrow>all_operations. (if fst r = op then 1 else 0)) = (1 :: nat)"
    using Cons.prems by (cases "fst r") (simp_all add: all_operations_def)
  ultimately show ?case using Cons by simp
qed (simp add: latencies_def)

text \<open>Until a counter overflows, the status message starts with the number of operations reported and has an entry for
  each kind of operation that was reported.\<close>

theorem status_total:
  assumes "\<forall>r \<in> set rs. fst r \<noteq> MAXOPTYPE" "length rs < 2 ^ 32"
  defines "m \<equiv> fold (\<lambda>(op, l). Report op l) rs BasicMeasurements_ctor"
  shows "GetStatusMsg th av m = show_nat (length rs) @ '' operations;'' @ concat (map (status_entry th av m) all_operations) \<and>
    (\<forall>op. status_entry th av m op = [] \<longleftrightarrow> op \<notin> fst ` set rs)"
proof -
  have le: "length (latencies op rs) < 2 ^ 32" for op
    using le_less_trans [OF length_filter_le assms(2)] by (simp add: latencies_def)
  have cnt: "op_count m op = word_of_nat (length (latencies op rs))" for op
    using measurements_exact [of rs op] by (simp add: Let_def m_def)
  then have uc: "(ucast (op_count m op) :: 64 word) = word_of_nat (length (latencies op rs))" for op
    using le [of op] by (simp add: unsigned_of_nat unsigned_ucast_eq word_eq_iff_unsigned take_bit_nat_eq_self)
  have "total_cnt m = (\<Sum>op\<leftarrow>all_operations. word_of_nat (length (latencies op rs)))" by (simp add: total_cnt_def uc)
  also have "\<dots> = word_of_nat (\<Sum>op\<leftarrow>all_operations. length (latencies op rs))" by (simp add: all_operations_def)
  finally have "unat (total_cnt m) = length rs"
    using assms(2) by (simp add: count_by_operation [OF assms(1)] unat_small)
  moreover have "status_entry th av m op = [] \<longleftrightarrow> op \<notin> fst ` set rs" for op
  proof -
    have "(word_of_nat (length (latencies op rs)) :: 64 word) = 0 \<longleftrightarrow> length (latencies op rs) = 0"
      using le [of op] unat_small [of "length (latencies op rs)"] by (auto simp: unat_eq_0 [symmetric] simp del: unat_eq_0)
    moreover have "length (latencies op rs) = 0 \<longleftrightarrow> op \<notin> fst ` set rs" by (auto simp: latencies_def filter_empty_conv)
    ultimately show ?thesis by (simp add: status_entry_def uc Let_def)
  qed
  ultimately show ?thesis by (simp add: GetStatusMsg_def)
qed

end
