(* ===== verification/YCSB_DB.thy ===== *)
theory YCSB_DB
  imports YCSB_Utils
begin

text \<open>
  The database interface of the YCSB framework (\<^verbatim>\<open>YCSB-cpp/core/db.h\<close>), the wrapper that measures the calls
  (\<^verbatim>\<open>core/db_wrapper.h\<close>), the database that prints them (\<^verbatim>\<open>core/basic_db.cc\<close>) and the instance of the tree
  (\<^verbatim>\<open>f3tree/f3tree_db.cc\<close>).  A database is a record of its operations on a state; the locale \<open>record_store\<close>
  is what a workload relies on, and each of the databases provides it.
\<close>

section \<open>The interface\<close>

text \<open>A call does not return, throws, or returns a value.\<close>

type_synonym 'a outcome = "(ycsb_error + 'a) option"

fun then_do :: "'a outcome \<Rightarrow> ('a \<Rightarrow> 'b outcome) \<Rightarrow> 'b outcome" where
  "then_do None f = None"
| "then_do (Some (Inl e)) f = Some (Inl e)"
| "then_do (Some (Inr x)) f = f x"

record 'db DB =
  DB_Init :: "'db \<Rightarrow> 'db outcome"
  DB_Cleanup :: "'db \<Rightarrow> 'db outcome"
  DB_Read :: "string \<Rightarrow> string \<Rightarrow> string list option \<Rightarrow> 'db \<Rightarrow> (Status \<times> Field list \<times> 'db) outcome"
  DB_Scan :: "string \<Rightarrow> string \<Rightarrow> int \<Rightarrow> string list option \<Rightarrow> 'db \<Rightarrow> (Status \<times> Field list list \<times> 'db) outcome"
  DB_Update :: "string \<Rightarrow> string \<Rightarrow> Field list \<Rightarrow> 'db \<Rightarrow> (Status \<times> 'db) outcome"
  DB_Insert :: "string \<Rightarrow> string \<Rightarrow> Field list \<Rightarrow> 'db \<Rightarrow> (Status \<times> 'db) outcome"
  DB_Delete :: "string \<Rightarrow> string \<Rightarrow> 'db \<Rightarrow> (Status \<times> 'db) outcome"

section \<open>The instance of the tree\<close>

record F3Instance =
  producer :: nat
  shared :: F3TreeDB

definition of_std :: "error + 'a \<Rightarrow> ycsb_error + 'a" where
  "of_std r = map_sum std_exception id r"

text \<open>The status of a write and the instance after it.\<close>

definition instance_write :: "F3Instance \<Rightarrow> (error + Status \<times> F3TreeDB) option \<Rightarrow> (Status \<times> F3Instance) outcome" where
  "instance_write i r = map_option (\<lambda>x. of_std (and_then x (\<lambda>(s, db). Inr (s, i\<lparr>shared := db\<rparr>)))) r"

definition f3tree_db :: "Sys \<Rightarrow> (string \<Rightarrow> 64 word) \<Rightarrow> int \<Rightarrow> NumaTopology \<Rightarrow> properties \<Rightarrow> F3Instance DB" where
  "f3tree_db sys h base topo props =
     \<lparr>DB_Init = (\<lambda>i. Some (of_std (and_then (Init base topo props (shared i)) (\<lambda>(pid, db). Inr \<lparr>producer = pid, shared = db\<rparr>)))),
      DB_Cleanup = (\<lambda>i. map_option (\<lambda>db. Inr (i\<lparr>shared := db\<rparr>)) (Cleanup sys (shared i))),
      DB_Read = (\<lambda>table key wanted i. map_option (\<lambda>(s, r). Inr (s, r, i)) (db_Read h key (shared i))),
      DB_Scan = (\<lambda>table key n wanted i. map_option (\<lambda>(s, r, db). Inr (s, r, i\<lparr>shared := db\<rparr>)) (db_Scan sys h key n (shared i))),
      DB_Update = (\<lambda>table key vals i. instance_write i (db_Update sys h key (producer i) (shared i))),
      DB_Insert = (\<lambda>table key vals i. instance_write i (db_Insert sys h key (producer i) (shared i))),
      DB_Delete = (\<lambda>table key i. instance_write i (db_Delete sys h key (producer i) (shared i)))\<rparr>"

section \<open>The wrapper\<close>

text \<open>\<open>timer\<close> gives the times the calls take.\<close>

record 'db DBWrapper =
  wrapped :: 'db
  measurements :: BasicMeasurements
  timer :: "64 word Generator"

definition report_call :: "Operation \<Rightarrow> Operation \<Rightarrow> Status \<Rightarrow> 'db DBWrapper \<Rightarrow> 'db DBWrapper" where
  "report_call ok failed s w =
     (let (elapsed, t) = gen_Next (timer w)
      in w\<lparr>measurements := Report (if s = kOK then ok else failed) elapsed (measurements w), timer := t\<rparr>)"

definition wrapped_call :: "'db DBWrapper \<Rightarrow> 'db outcome \<Rightarrow> 'db DBWrapper outcome" where
  "wrapped_call w r = then_do r (\<lambda>db. Some (Inr (w\<lparr>wrapped := db\<rparr>)))"

definition wrapped_write :: "Operation \<Rightarrow> Operation \<Rightarrow> 'db DBWrapper \<Rightarrow> (Status \<times> 'db) outcome \<Rightarrow> (Status \<times> 'db DBWrapper) outcome" where
  "wrapped_write ok failed w r = then_do r (\<lambda>(s, db). Some (Inr (s, report_call ok failed s (w\<lparr>wrapped := db\<rparr>))))"

definition wrapped_read ::
  "Operation \<Rightarrow> Operation \<Rightarrow> 'db DBWrapper \<Rightarrow> (Status \<times> 'r \<times> 'db) outcome \<Rightarrow> (Status \<times> 'r \<times> 'db DBWrapper) outcome" where
  "wrapped_read ok failed w r = then_do r (\<lambda>(s, x, db). Some (Inr (s, x, report_call ok failed s (w\<lparr>wrapped := db\<rparr>))))"

definition wrap_db :: "'db DB \<Rightarrow> 'db DBWrapper DB" where
  "wrap_db d =
     \<lparr>DB_Init = (\<lambda>w. wrapped_call w (DB_Init d (wrapped w))),
      DB_Cleanup = (\<lambda>w. wrapped_call w (DB_Cleanup d (wrapped w))),
      DB_Read = (\<lambda>table key wanted w. wrapped_read READ READ_FAILED w (DB_Read d table key wanted (wrapped w))),
      DB_Scan = (\<lambda>table key n wanted w. wrapped_read SCAN SCAN_FAILED w (DB_Scan d table key n wanted (wrapped w))),
      DB_Update = (\<lambda>table key vals w. wrapped_write UPDATE UPDATE_FAILED w (DB_Update d table key vals (wrapped w))),
      DB_Insert = (\<lambda>table key vals w. wrapped_write INSERT INSERT_FAILED w (DB_Insert d table key vals (wrapped w))),
      DB_Delete = (\<lambda>table key w. wrapped_write DELETE DELETE_FAILED w (DB_Delete d table key (wrapped w)))\<rparr>"

section \<open>The database that prints\<close>

text \<open>The text written so far, unless the output is silent.\<close>

record BasicDB =
  db_out :: string
  silent :: bool

definition emit :: "string \<Rightarrow> BasicDB \<Rightarrow> BasicDB" where
  "emit s b = (if silent b then b else b\<lparr>db_out := db_out b @ s\<rparr>)"

definition show_fields :: "string list option \<Rightarrow> string" where
  "show_fields wanted =
     (case wanted of None \<Rightarrow> '' < all fields >'' @ [CHR 0x0A]
      | Some fs \<Rightarrow> '' [ '' @ concat (map (\<lambda>f. f @ '' '') fs) @ '']'' @ [CHR 0x0A])"

definition show_values :: "Field list \<Rightarrow> string" where
  "show_values vals = '' [ '' @ concat (map (\<lambda>v. fst v @ ''='' @ snd v @ '' '') vals) @ '']'' @ [CHR 0x0A]"

definition basic_db :: "properties \<Rightarrow> BasicDB DB" where
  "basic_db props =
     \<lparr>DB_Init = (\<lambda>b. Some (Inr (b\<lparr>silent := (GetProperty props ''basic.silent'' ''false'' = ''true'')\<rparr>))),
      DB_Cleanup = (\<lambda>b. Some (Inr b)),
      DB_Read = (\<lambda>table key wanted b. Some (Inr (kOK, [], emit (''READ '' @ table @ '' '' @ key @ show_fields wanted) b))),
      DB_Scan = (\<lambda>table key n wanted b.
        Some (Inr (kOK, [], emit (''SCAN '' @ table @ '' '' @ key @ '' '' @ show_int n @ show_fields wanted) b))),
      DB_Update = (\<lambda>table key vals b. Some (Inr (kOK, emit (''UPDATE '' @ table @ '' '' @ key @ show_values vals) b))),
      DB_Insert = (\<lambda>table key vals b. Some (Inr (kOK, emit (''INSERT '' @ table @ '' '' @ key @ show_values vals) b))),
      DB_Delete = (\<lambda>table key b. Some (Inr (kOK, emit (''DELETE '' @ table @ '' '' @ key @ [CHR 0x0A]) b)))\<rparr>"

section \<open>What a workload relies on\<close>

text \<open>A store has room for a number of further writes of good names and holds records.  A write of a good name
  succeeds, uses up at most one unit of the room and loses no record; a read finds exactly the records held.\<close>

locale record_store =
  fixes db :: "'db DB" and room_for :: "nat \<Rightarrow> 'db \<Rightarrow> bool" and good :: "string \<Rightarrow> bool" and holds :: "string \<Rightarrow> 'db \<Rightarrow> bool"
  assumes insert_law: "room_for (Suc n) s \<Longrightarrow> good key \<Longrightarrow>
      \<exists>s'. DB_Insert db table key vals s = Some (Inr (kOK, s')) \<and> room_for n s' \<and> holds key s' \<and>
        (\<forall>k. good k \<longrightarrow> holds k s \<longrightarrow> holds k s')"
    and update_law: "room_for (Suc n) s \<Longrightarrow> good key \<Longrightarrow>
      \<exists>s'. DB_Update db table key vals s = Some (Inr (kOK, s')) \<and> room_for n s' \<and> holds key s' \<and>
        (\<forall>k. good k \<longrightarrow> holds k s \<longrightarrow> holds k s')"
    and read_law: "room_for n s \<Longrightarrow> good key \<Longrightarrow>
      \<exists>r s'. DB_Read db table key wanted s = Some (Inr (if holds key s then kOK else kNotFound, r, s')) \<and> room_for n s' \<and>
        (\<forall>k. good k \<longrightarrow> holds k s' = holds k s)"

text \<open>The wrapper of a store is a store.\<close>

lemma wrap_store:
  assumes "record_store d r g hs"
  shows "record_store (wrap_db d) (\<lambda>n w. r n (wrapped w)) g (\<lambda>k w. hs k (wrapped w))"
proof -
  have w: "wrapped (report_call a b s (w\<lparr>wrapped := x\<rparr>)) = x" for a b s and w :: "'a DBWrapper" and x
    by (simp add: report_call_def gen_Next_def)
  show ?thesis
  proof
    fix n key table vals and w :: "'a DBWrapper"
    assume "r (Suc n) (wrapped w)" "g key"
    from record_store.insert_law [OF assms this, of table vals] record_store.update_law [OF assms this, of table vals]
    show "\<exists>s'. DB_Insert (wrap_db d) table key vals w = Some (Inr (kOK, s')) \<and> r n (wrapped s') \<and> hs key (wrapped s') \<and>
        (\<forall>k. g k \<longrightarrow> hs k (wrapped w) \<longrightarrow> hs k (wrapped s'))"
      and "\<exists>s'. DB_Update (wrap_db d) table key vals w = Some (Inr (kOK, s')) \<and> r n (wrapped s') \<and> hs key (wrapped s') \<and>
        (\<forall>k. g k \<longrightarrow> hs k (wrapped w) \<longrightarrow> hs k (wrapped s'))"
      by (auto simp: wrap_db_def wrapped_write_def w)
  next
    fix n key table wanted and w :: "'a DBWrapper"
    assume "r n (wrapped w)" "g key"
    from record_store.read_law [OF assms this, of table wanted]
    show "\<exists>x s'. DB_Read (wrap_db d) table key wanted w = Some (Inr (if hs key (wrapped w) then kOK else kNotFound, x, s')) \<and>
        r n (wrapped s') \<and> (\<forall>k. g k \<longrightarrow> hs k (wrapped s') = hs k (wrapped w))"
      by (auto simp: wrap_db_def wrapped_read_def w)
  qed
qed

interpretation basic: record_store "basic_db props" "\<lambda>n b. True" "\<lambda>key. True" "\<lambda>key b. True" for props
  by unfold_locales (simp_all add: basic_db_def)

section \<open>The tree as a store\<close>

text \<open>The names whose keys can be stored, the room left in the tables of a tree that \<open>users\<close> instances share, and the
  records visible.\<close>

definition f3_good :: "(string \<Rightarrow> 64 word) \<Rightarrow> int \<Rightarrow> string \<Rightarrow> bool" where
  "f3_good h base key \<longleftrightarrow> storable base (StringToKey h key)"

definition f3_room :: "int \<Rightarrow> int \<Rightarrow> nat \<Rightarrow> F3Instance \<Rightarrow> bool" where
  "f3_room base users n i \<longleftrightarrow> instance_count (shared i) = users \<and>
     (case tree_ptr (shared i) of None \<Rightarrow> False
      | Some im \<Rightarrow> impl_ok base im \<and> covered (tree im) \<and> producer i < length (ptfo_threads im) \<and>
          (\<exists>c used. load (tree im) c used \<and> used + n \<le> c) \<and> unat (next_ptfo_sequence im) + n < 2 ^ 64 - 1)"

definition f3_holds :: "(string \<Rightarrow> 64 word) \<Rightarrow> string \<Rightarrow> F3Instance \<Rightarrow> bool" where
  "f3_holds h key i \<longleftrightarrow> (case tree_ptr (shared i) of None \<Rightarrow> False | Some im \<Rightarrow> StringToKey h key \<in> view (tree im))"

lemma f3_room_mono: "f3_room base users n i \<Longrightarrow> m \<le> n \<Longrightarrow> f3_room base users m i"
  by (auto simp: f3_room_def split: option.splits) (meson add_le_mono1 add_left_mono order_trans)

lemma f3_write:
  assumes "f3_room base users (Suc n) i" "f3_good h base key"
  shows "\<exists>i'. instance_write i (db_insert_op sys h key (producer i) (shared i)) = Some (Inr (kOK, i')) \<and> f3_room base users n i' \<and>
    f3_holds h key i' \<and> (\<forall>k. f3_holds h k i \<longrightarrow> f3_holds h k i')"
proof -
  let ?p = "producer i" and ?k = "StringToKey h key"
  obtain im c used where im: "tree_ptr (shared i) = Some im" "impl_ok base im" "covered (tree im)" "?p < length (ptfo_threads im)"
    and c: "load (tree im) c used" "used + Suc n \<le> c" and us: "instance_count (shared i) = users" and sq: "unat (next_ptfo_sequence im) + Suc n < 2 ^ 64 - 1"
    using assms(1) by (auto simp: f3_room_def split: option.splits)
  have k: "storable base ?k" using assms(2) by (simp add: f3_good_def)
  have fo: "fut_ok (tree im)" and tid: "?p < n_threads (tree im)"
    using im(2,4) by (auto simp: impl_ok_def accounted_def)
  have mx: "next_ptfo_sequence im \<noteq> -1"
  proof
    assume "next_ptfo_sequence im = -1"
    then show False using sq by (simp add: unsigned_minus_1_eq_mask mask_eq_exp_minus_1)
  qed
  have rm: "room (tree im) ?p ?k" using c by (intro load_room [OF fo c(1) _ tid]) simp
  obtain im' where im': "buffer_op sys False ?k ?p im = Some im'" "impl_ok base im'" "view (tree im') = insert ?k (view (tree im))"
    "covered (tree im')" "config im' = config im" "next_ptfo_sequence im' = next_ptfo_sequence im + 1"
    "future_insert (tree im) ?k (int ?p) False (next_ptfo_sequence im) = Some (tree im')"
    using buffer_op_ok [OF im(2,4) k mx, of sys False] im(3) rm by (metis (full_types))
  have "load (tree im') c (used + 1)" by (rule load_insert [OF fo c(1) tid im'(7)])
  then have u: "\<exists>c used. load (tree im') c used \<and> used + n \<le> c" using c(2) by (intro exI [of _ c] exI [of _ "used + 1"]) simp
  have "unat (next_ptfo_sequence im') = unat (next_ptfo_sequence im) + 1"
    using sq by (simp add: im'(6) unat_word_ariths)
  moreover have "n_threads (tree im') = n_threads (tree im)"
    using future_insert_ok [OF fo tid, of ?k False "next_ptfo_sequence im"] im'(7) by (metis option.inject)
  then have "length (ptfo_threads im') = length (ptfo_threads im)"
    using im(2) im'(2) by (simp add: impl_ok_def accounted_def)
  ultimately have "f3_room base users n (i\<lparr>shared := (shared i)\<lparr>tree_ptr := Some im'\<rparr>\<rparr>)"
    using im' im(4) sq u us by (auto simp: f3_room_def)
  moreover have "buffered_insert sys ?k ?p im = Some (Inr im')" using im'(1) im(4) by (simp add: buffered_insert_def)
  ultimately show ?thesis
    using im(1) im'(3) by (auto simp: instance_write_def db_insert_op_def of_std_def f3_holds_def)
qed

lemma f3_read:
  assumes "f3_room base users n i" "f3_good h base key"
  shows "\<exists>r. db_Read h key (shared i) = Some (if f3_holds h key i then kOK else kNotFound, r)"
proof -
  obtain im where im: "tree_ptr (shared i) = Some im" "impl_ok base im" "hash_covers (tree im)"
    using assms(1) by (auto simp: f3_room_def covered_def split: option.splits)
  have "contains (StringToKey h key) im = Some (StringToKey h key \<in> view (tree im))"
    using contains_view [OF im(2) _ im(3)] assms(2) by (simp add: f3_good_def)
  then show ?thesis using im(1) by (simp add: db_Read_def f3_holds_def)
qed

interpretation f3: record_store "f3tree_db sys h base topo props" "f3_room base users" "f3_good h base" "f3_holds h"
  for sys h base topo props users
proof
  let ?db = "f3tree_db sys h base topo props"
  fix n s key table vals wanted
  have w: "DB_Insert ?db table key vals s = instance_write s (db_insert_op sys h key (producer s) (shared s))"
    "DB_Update ?db table key vals s = instance_write s (db_insert_op sys h key (producer s) (shared s))"
    by (simp_all add: f3tree_db_def db_Insert_def db_Update_def)
  show "\<exists>s'. DB_Insert ?db table key vals s = Some (Inr (kOK, s')) \<and> f3_room base users n s' \<and> f3_holds h key s' \<and>
      (\<forall>k. f3_good h base k \<longrightarrow> f3_holds h k s \<longrightarrow> f3_holds h k s')"
    and "\<exists>s'. DB_Update ?db table key vals s = Some (Inr (kOK, s')) \<and> f3_room base users n s' \<and> f3_holds h key s' \<and>
      (\<forall>k. f3_good h base k \<longrightarrow> f3_holds h k s \<longrightarrow> f3_holds h k s')"
    if "f3_room base users (Suc n) s" "f3_good h base key"
    using f3_write [OF that, of sys] unfolding w by blast+
  show "\<exists>r s'. DB_Read ?db table key wanted s = Some (Inr (if f3_holds h key s then kOK else kNotFound, r, s')) \<and>
      f3_room base users n s' \<and> (\<forall>k. f3_good h base k \<longrightarrow> f3_holds h k s' = f3_holds h k s)"
    if "f3_room base users n s" "f3_good h base key"
    using f3_read [OF that] that(1) by (auto simp: f3tree_db_def)
qed

interpretation f3w: record_store "wrap_db (f3tree_db sys h base topo props)" "\<lambda>n w. f3_room base users n (wrapped w)" "f3_good h base"
  "\<lambda>key w. f3_holds h key (wrapped w)" for sys h base topo props users
  by (rule wrap_store, rule f3.record_store_axioms)

section \<open>Lifecycle of an instance\<close>

lemma BuildConfig_placement:
  assumes "BuildConfig props = Inr cfg"
  shows "placement_policy cfg = kDefault"
proof -
  have ok: "and_then r f = Inr y \<longleftrightarrow> (\<exists>x. r = Inr x \<and> f x = Inr y)" for r :: "error + 'a" and f and y :: 'b
    by (cases r) auto
  show ?thesis
    using assms by (auto simp: BuildConfig_def ok Let_def default_config_def split: if_splits)
qed

lemma f3_Init:
  assumes "BuildConfig props = Inr cfg" "0 < producer_threads cfg" "producer_threads cfg < 2 ^ 31" "0 < evaluator_threads cfg"
    "0 < cfg_hash_capacity cfg" "cfg_hash_capacity cfg < 2 ^ 31" "0 < base"
  obtains i where "DB_Init (f3tree_db sys h base topo props) \<lparr>producer = p, shared = F3TreeDB_start\<rparr> = Some (Inr i)"
    "f3_room base 1 (cfg_hash_capacity cfg) i" "\<And>key. \<not> f3_holds h key i"
proof -
  let ?im = "Impl_ctor base topo cfg" let ?c = "cfg_hash_capacity cfg"
  let ?db = "F3TreeDB_start\<lparr>tree_ptr := Some ?im, next_producer_id := int (Suc 0), instance_count := int (Suc 0)\<rparr>"
  have im: "implements (evaluator_policy cfg) (\<lambda>_. 0) base ?c {} {} 0 ?im"
    by (rule ctor_implements [OF assms(2,3,5,6) BuildConfig_placement [OF assms(1)] assms(7)])
  have "FutureBTree_ctor base topo cfg = Inr ?im"
    using assms(2,4,5) by (simp add: FutureBTree_ctor_def validate_runtime_config_def)
  then have "Init base topo props F3TreeDB_start = Inr (0, ?db)"
    using assms(1) by (intro Init_step) (auto simp: F3TreeDB_start_def)
  then have "DB_Init (f3tree_db sys h base topo props) \<lparr>producer = p, shared = F3TreeDB_start\<rparr> =
      Some (Inr \<lparr>producer = 0, shared = ?db\<rparr>)"
    by (simp add: f3tree_db_def of_std_def)
  note di = this
  have "length (ptfo_threads ?im) = producer_threads cfg" "load (tree ?im) ?c 0" "unat (next_ptfo_sequence ?im) \<le> 2"
    using im by (auto simp: implements_def impl_ok_def accounted_def) (simp add: Impl_ctor_def Let_def)
  moreover from this have "\<exists>c used. load (tree ?im) c used \<and> used + ?c \<le> c" by (intro exI [of _ ?c] exI [of _ 0]) simp
  ultimately have "f3_room base 1 ?c \<lparr>producer = 0, shared = ?db\<rparr>"
    using im assms(2,6) by (auto simp: f3_room_def implements_def)
  moreover have "\<not> f3_holds h key \<lparr>producer = 0, shared = ?db\<rparr>" for key
    using im by (simp add: f3_holds_def implements_def)
  ultimately show thesis using that di by blast
qed

lemma f3_Cleanup:
  assumes "f3_room base 1 n i"
  obtains i' where "DB_Cleanup (f3tree_db sys h base topo props) i = Some (Inr i')" "shared i' = F3TreeDB_start"
proof -
  obtain im where im: "tree_ptr (shared i) = Some im" "impl_ok base im" "instance_count (shared i) = 1"
    using assms by (auto simp: f3_room_def split: option.splits)
  obtain im1 os where d: "drain_locked sys im = Some im1" "drain_result base im im1 (active_producers im) os" "pending_operation_count im1 = 0"
    using drain_locked_ok [OF im(2)] by blast
  have "(shared i)\<lparr>instance_count := wrap_int 0, tree_ptr := None, next_producer_id := 0\<rparr> = F3TreeDB_start"
    by (simp add: F3TreeDB_start_def wrap_int_def)
  then have "Cleanup sys (shared i) = Some F3TreeDB_start"
    using im(1,3) d(1,3) by (simp add: Cleanup_def drain_pending_def FutureBTree_dtor_def)
  then show thesis by (intro that [of "i\<lparr>shared := F3TreeDB_start\<rparr>"]) (simp_all add: f3tree_db_def)
qed

text \<open>When the only instance of the moment is cleaned up, the tree is destroyed: an instance that is initialized
  afterwards, as that of a client thread that starts later, works on a new tree and finds no record.\<close>

theorem early_cleanup_loses_records:
  assumes "BuildConfig props = Inr cfg" "0 < producer_threads cfg" "producer_threads cfg < 2 ^ 31" "0 < evaluator_threads cfg"
    "0 < cfg_hash_capacity cfg" "cfg_hash_capacity cfg < 2 ^ 31" "0 < base"
    and i: "f3_room base 1 n i" "f3_holds h key i" "f3_good h base key"
  shows "\<exists>i1 i2 r. DB_Cleanup (f3tree_db sys h base topo props) i = Some (Inr i1) \<and>
    DB_Init (f3tree_db sys h base topo props) i1 = Some (Inr i2) \<and>
    DB_Read (f3tree_db sys h base topo props) table key wanted i2 = Some (Inr (kNotFound, r, i2))"
proof -
  obtain i1 where i1: "DB_Cleanup (f3tree_db sys h base topo props) i = Some (Inr i1)" "shared i1 = F3TreeDB_start"
    by (rule f3_Cleanup [OF i(1)])
  then have i1': "i1 = \<lparr>producer = producer i1, shared = F3TreeDB_start\<rparr>" by simp
  obtain i2 where i2: "DB_Init (f3tree_db sys h base topo props) i1 = Some (Inr i2)" "f3_room base 1 (cfg_hash_capacity cfg) i2"
    "\<not> f3_holds h key i2"
    by (rule f3_Init [OF assms(1-7), of sys h topo "producer i1", folded i1']) (rule that)
  have "\<exists>r. DB_Read (f3tree_db sys h base topo props) table key wanted i2 = Some (Inr (kNotFound, r, i2))"
    using f3_read [OF i2(2) i(3)] i2(3) by (auto simp: f3tree_db_def)
  then show ?thesis using i1(1) i2(1) by blast
qed

end
