(* ===== verification/YCSB_Workload.thy ===== *)
theory YCSB_Workload
  imports YCSB_DB
begin

text \<open>
  The core workload of the YCSB framework (\<^verbatim>\<open>YCSB-cpp/core/core_workload.cc\<close>), its client threads
  (\<^verbatim>\<open>core/client.h\<close>) and the phases of the program (\<^verbatim>\<open>core/ycsbc.cc\<close>), over any database.  The generators whose
  values come from random numbers (operations, keys, fields, lengths) are given by the values they return.
\<close>

section \<open>The workload\<close>

record CoreWorkload =
  table_name :: string
  field_count :: int
  field_prefix :: string
  read_all_fields :: bool
  write_all_fields :: bool
  field_len_generator :: "64 word Generator"
  op_chooser :: "Operation Generator"
  key_chooser :: "64 word Generator"
  field_chooser :: "64 word Generator"
  scan_len_chooser :: "64 word Generator"
  insert_key_sequence :: CounterGenerator
  transaction_insert_key_sequence :: AcknowledgedCounterGenerator
  ordered_inserts :: bool
  record_count :: "64 word"
  zero_padding :: int
  key_prefix :: string
  random_ints :: "32 word Generator"

section \<open>Initialization\<close>

text \<open>The values the random generators will return.\<close>

record Draws =
  field_lens :: "nat \<Rightarrow> 64 word"
  ops_drawn :: "nat \<Rightarrow> Operation"
  keys_drawn :: "nat \<Rightarrow> 64 word"
  fields_drawn :: "nat \<Rightarrow> 64 word"
  scan_lens :: "nat \<Rightarrow> 64 word"
  ints_drawn :: "nat \<Rightarrow> 32 word"

definition fresh :: "(nat \<Rightarrow> 'a) \<Rightarrow> 'a Generator" where
  "fresh f = \<lparr>outputs = f, drawn = 0\<rparr>"

fun check :: "ycsb_error + 'a \<Rightarrow> ('a \<Rightarrow> ycsb_error + 'b) \<Rightarrow> ycsb_error + 'b" where
  "check (Inl e) f = Inl e"
| "check (Inr x) f = f x"

definition int_property :: "properties \<Rightarrow> string \<Rightarrow> string \<Rightarrow> ycsb_error + int" where
  "int_property props name dflt = of_std (stoi (GetProperty props name dflt))"

definition GetFieldLenGenerator :: "(nat \<Rightarrow> 64 word) \<Rightarrow> properties \<Rightarrow> ycsb_error + 64 word Generator" where
  "GetFieldLenGenerator draws props =
     (let field_len_dist = GetProperty props ''field_len_dist'' ''constant''
      in check (int_property props ''fieldlength'' ''100'') (\<lambda>field_len.
         if field_len_dist = ''constant'' then Inr (fresh (\<lambda>_. word_of_int field_len))
         else if field_len_dist = ''uniform'' \<or> field_len_dist = ''zipfian'' then Inr (fresh draws)
         else Inl (Exception (''Unknown field length distribution: '' @ field_len_dist))))"

text \<open>\<open>stod\<close> is the conversion to a floating-point number; its values only determine the values the generators
  return, so that its errors are what matters here.\<close>

fun stods :: "(string \<Rightarrow> error + unit) \<Rightarrow> string list \<Rightarrow> ycsb_error + unit" where
  "stods stod [] = Inr ()"
| "stods stod (s # ss) = check (of_std (stod s)) (\<lambda>_. stods stod ss)"

definition check_request_distribution :: "(string \<Rightarrow> error + unit) \<Rightarrow> properties \<Rightarrow> string \<Rightarrow> ycsb_error + unit" where
  "check_request_distribution stod props request_dist =
     (if request_dist = ''uniform'' then Inr ()
      else if request_dist = ''zipfian'' then
        check (int_property props ''operationcount'' []) (\<lambda>op_count.
          if ContainsKey props ''zipfian_const'' then of_std (stod (GetProperty props ''zipfian_const'' [])) else Inr ())
      else if request_dist = ''latest'' then Inr ()
      else Inl (Exception (''Unknown request distribution: '' @ request_dist)))"

definition CoreWorkload_Init :: "(string \<Rightarrow> error + unit) \<Rightarrow> Draws \<Rightarrow> properties \<Rightarrow> ycsb_error + CoreWorkload" where
  "CoreWorkload_Init stod draws p =
     check (int_property p ''fieldcount'' ''10'') (\<lambda>fc.
     check (GetFieldLenGenerator (field_lens draws) p) (\<lambda>flg.
     check (stods stod [GetProperty p ''readproportion'' ''0.95'', GetProperty p ''updateproportion'' ''0.05'',
              GetProperty p ''insertproportion'' ''0.0'', GetProperty p ''scanproportion'' ''0.0'',
              GetProperty p ''readmodifywriteproportion'' ''0.0'']) (\<lambda>_.
     check (int_property p ''recordcount'' []) (\<lambda>records.
     check (int_property p ''minscanlength'' ''1'') (\<lambda>min_scan_len.
     check (int_property p ''maxscanlength'' ''1000'') (\<lambda>max_scan_len.
     check (int_property p ''insertstart'' ''0'') (\<lambda>insert_start.
     check (int_property p ''zeropadding'' ''1'') (\<lambda>padding.
     check (StrToBool (GetProperty p ''readallfields'' ''true'')) (\<lambda>read_all.
     check (StrToBool (GetProperty p ''writeallfields'' ''false'')) (\<lambda>write_all.
     check (check_request_distribution stod p (GetProperty p ''requestdistribution'' ''uniform'')) (\<lambda>_.
     let scan_len_dist = GetProperty p ''scanlengthdistribution'' ''uniform''
     in if scan_len_dist = ''uniform'' \<or> scan_len_dist = ''zipfian''
        then Inr \<lparr>table_name = GetProperty p ''table'' ''usertable'', field_count = fc,
               field_prefix = GetProperty p ''fieldnameprefix'' ''field'',
               read_all_fields = read_all, write_all_fields = write_all, field_len_generator = flg,
               op_chooser = fresh (ops_drawn draws), key_chooser = fresh (keys_drawn draws),
               field_chooser = fresh (fields_drawn draws), scan_len_chooser = fresh (scan_lens draws),
               insert_key_sequence = CounterGenerator_ctor (word_of_int insert_start),
               transaction_insert_key_sequence = AcknowledgedCounterGenerator_ctor (word_of_int records),
               ordered_inserts = (GetProperty p ''insertorder'' ''hashed'' \<noteq> ''hashed''),
               record_count = word_of_int records, zero_padding = padding,
               key_prefix = GetProperty p ''keyprefix'' ''user'', random_ints = fresh (ints_drawn draws)\<rparr>
        else Inl (Exception (''Distribution not allowed for scan length: '' @ scan_len_dist)))))))))))))"

section \<open>Names and values\<close>

definition BuildKeyName :: "CoreWorkload \<Rightarrow> 64 word \<Rightarrow> string" where
  "BuildKeyName wl key_num =
     (let key_num' = (if \<not> ordered_inserts wl then Hash key_num else key_num);
          val = show_nat (unat key_num');
          fill = max 0 (zero_padding wl - int (length val))
      in key_prefix wl @ replicate (nat fill) (CHR ''0'') @ val)"

definition build_field :: "string \<Rightarrow> CoreWorkload \<Rightarrow> Field \<times> CoreWorkload" where
  "build_field name wl =
     (let (len, g) = gen_Next (field_len_generator wl);
          (val, ints) = generate_bytes (unat len) RandomByteGenerator_ctor (random_ints wl)
      in ((name, val), wl\<lparr>field_len_generator := g, random_ints := ints\<rparr>))"

fun build_fields :: "nat \<Rightarrow> nat \<Rightarrow> CoreWorkload \<Rightarrow> Field list \<times> CoreWorkload" where
  "build_fields i 0 wl = ([], wl)"
| "build_fields i (Suc n) wl =
     (let (f, wl1) = build_field (field_prefix wl @ show_nat i) wl; (fs, wl2) = build_fields (Suc i) n wl1 in (f # fs, wl2))"

definition BuildValues :: "CoreWorkload \<Rightarrow> Field list \<times> CoreWorkload" where
  "BuildValues wl = build_fields 0 (nat (field_count wl)) wl"

definition NextFieldName :: "CoreWorkload \<Rightarrow> string \<times> CoreWorkload" where
  "NextFieldName wl =
     (let (i, g) = gen_Next (field_chooser wl) in (field_prefix wl @ show_nat (unat i), wl\<lparr>field_chooser := g\<rparr>))"

definition BuildSingleValue :: "CoreWorkload \<Rightarrow> Field list \<times> CoreWorkload" where
  "BuildSingleValue wl = (let (name, wl1) = NextFieldName wl; (f, wl2) = build_field name wl1 in ([f], wl2))"

text \<open>The loop of \<^verbatim>\<open>NextTransactionKeyNum\<close>: draw until the number is not above the last one inserted.\<close>

partial_function (option) next_key :: "64 word \<Rightarrow> 64 word Generator \<Rightarrow> (64 word \<times> 64 word Generator) option" where
  [code]: "next_key lim g = (let (key_num, g') = gen_Next g in if key_num > lim then next_key lim g' else Some (key_num, g'))"

definition NextTransactionKeyNum :: "CoreWorkload \<Rightarrow> (64 word \<times> CoreWorkload) option" where
  "NextTransactionKeyNum wl =
     map_option (\<lambda>(k, g). (k, wl\<lparr>key_chooser := g\<rparr>))
       (next_key (acknowledged_Last (transaction_insert_key_sequence wl)) (key_chooser wl))"

section \<open>Operations\<close>

text \<open>The result, the workload and the database after a call.\<close>

type_synonym ('r, 'db) call = "('r \<times> CoreWorkload \<times> 'db) outcome"

definition DoInsert :: "'db DB \<Rightarrow> CoreWorkload \<Rightarrow> 'db \<Rightarrow> (bool, 'db) call" where
  "DoInsert d wl db =
     (let (k, seq) = counter_Next (insert_key_sequence wl);
          wl1 = wl\<lparr>insert_key_sequence := seq\<rparr>;
          key = BuildKeyName wl1 k;
          (fs, wl2) = BuildValues wl1
      in then_do (DB_Insert d (table_name wl2) key fs db) (\<lambda>(s, db'). Some (Inr (s = kOK, wl2, db'))))"

text \<open>The fields a read asks for: one of them, or all.\<close>

definition read_fields :: "CoreWorkload \<Rightarrow> string list option \<times> CoreWorkload" where
  "read_fields wl = (if \<not> read_all_fields wl then (let (f, wl1) = NextFieldName wl in (Some [f], wl1)) else (None, wl))"

definition write_values :: "CoreWorkload \<Rightarrow> Field list \<times> CoreWorkload" where
  "write_values wl = (if write_all_fields wl then BuildValues wl else BuildSingleValue wl)"

definition TransactionRead :: "'db DB \<Rightarrow> CoreWorkload \<Rightarrow> 'db \<Rightarrow> (Status, 'db) call" where
  "TransactionRead d wl db =
     (case NextTransactionKeyNum wl of None \<Rightarrow> None
      | Some (k, wl1) \<Rightarrow>
         let key = BuildKeyName wl1 k; (fs, wl2) = read_fields wl1
         in then_do (DB_Read d (table_name wl2) key fs db) (\<lambda>(s, r, db'). Some (Inr (s, wl2, db'))))"

text \<open>The status of the read is ignored, its effects and exceptions are not.\<close>

definition TransactionReadModifyWrite :: "'db DB \<Rightarrow> CoreWorkload \<Rightarrow> 'db \<Rightarrow> (Status, 'db) call" where
  "TransactionReadModifyWrite d wl db =
     (case NextTransactionKeyNum wl of None \<Rightarrow> None
      | Some (k, wl1) \<Rightarrow>
         let key = BuildKeyName wl1 k; (fs, wl2) = read_fields wl1
         in then_do (DB_Read d (table_name wl2) key fs db) (\<lambda>(s, r, db1).
              let (vs, wl3) = write_values wl2
              in then_do (DB_Update d (table_name wl3) key vs db1) (\<lambda>(s', db2). Some (Inr (s', wl3, db2)))))"

definition TransactionScan :: "'db DB \<Rightarrow> CoreWorkload \<Rightarrow> 'db \<Rightarrow> (Status, 'db) call" where
  "TransactionScan d wl db =
     (case NextTransactionKeyNum wl of None \<Rightarrow> None
      | Some (k, wl1) \<Rightarrow>
         let key = BuildKeyName wl1 k;
             (len, g) = gen_Next (scan_len_chooser wl1);
             (fs, wl2) = read_fields (wl1\<lparr>scan_len_chooser := g\<rparr>)
         in then_do (DB_Scan d (table_name wl2) key (wrap_int (uint len)) fs db) (\<lambda>(s, r, db'). Some (Inr (s, wl2, db'))))"

definition TransactionUpdate :: "'db DB \<Rightarrow> CoreWorkload \<Rightarrow> 'db \<Rightarrow> (Status, 'db) call" where
  "TransactionUpdate d wl db =
     (case NextTransactionKeyNum wl of None \<Rightarrow> None
      | Some (k, wl1) \<Rightarrow>
         let key = BuildKeyName wl1 k; (vs, wl2) = write_values wl1
         in then_do (DB_Update d (table_name wl2) key vs db) (\<lambda>(s, db'). Some (Inr (s, wl2, db'))))"

definition TransactionInsert :: "'db DB \<Rightarrow> CoreWorkload \<Rightarrow> 'db \<Rightarrow> (Status, 'db) call" where
  "TransactionInsert d wl db =
     (let (k, seq) = counter_Next (transaction_insert_key_sequence wl);
          wl1 = wl\<lparr>transaction_insert_key_sequence := seq\<rparr>;
          key = BuildKeyName wl1 k;
          (vs, wl2) = BuildValues wl1
      in then_do (DB_Insert d (table_name wl2) key vs db) (\<lambda>(s, db').
           then_do (Some (Acknowledge k (transaction_insert_key_sequence wl2))) (\<lambda>seq'.
             Some (Inr (s, wl2\<lparr>transaction_insert_key_sequence := seq'\<rparr>, db')))))"

definition DoTransaction :: "'db DB \<Rightarrow> CoreWorkload \<Rightarrow> 'db \<Rightarrow> (bool, 'db) call" where
  "DoTransaction d wl db =
     (let (op, g) = gen_Next (op_chooser wl); wl1 = wl\<lparr>op_chooser := g\<rparr>;
          result = (case op of
              READ \<Rightarrow> TransactionRead d wl1 db
            | UPDATE \<Rightarrow> TransactionUpdate d wl1 db
            | INSERT \<Rightarrow> TransactionInsert d wl1 db
            | SCAN \<Rightarrow> TransactionScan d wl1 db
            | READMODIFYWRITE \<Rightarrow> TransactionReadModifyWrite d wl1 db
            | _ \<Rightarrow> Some (Inl (Exception ''Operation request is not recognized!'')))
      in then_do result (\<lambda>(s, wl', db'). Some (Inr (s = kOK, wl', db'))))"

section \<open>Client threads\<close>

text \<open>The rate limiter only delays the operations.\<close>

fun client_loop :: "'db DB \<Rightarrow> bool \<Rightarrow> nat \<Rightarrow> CoreWorkload \<Rightarrow> 'db \<Rightarrow> (CoreWorkload \<times> 'db) outcome" where
  "client_loop d is_loading 0 wl db = Some (Inr (wl, db))"
| "client_loop d is_loading (Suc n) wl db =
     then_do (if is_loading then DoInsert d wl db else DoTransaction d wl db) (\<lambda>(b, wl', db'). client_loop d is_loading n wl' db')"

definition ClientThread :: "'db DB \<Rightarrow> int \<Rightarrow> bool \<Rightarrow> bool \<Rightarrow> bool \<Rightarrow> CoreWorkload \<Rightarrow> 'db \<Rightarrow> (int, 'db) call" where
  "ClientThread d num_ops is_loading init_db cleanup_db wl db =
     then_do (if init_db then DB_Init d db else Some (Inr db)) (\<lambda>db1.
     then_do (client_loop d is_loading (nat num_ops) wl db1) (\<lambda>(wl1, db2).
     then_do (if cleanup_db then DB_Cleanup d db2 else Some (Inr db2)) (\<lambda>db3.
       Some (Inr (max 0 num_ops, wl1, db3)))))"

text \<open>What the program does with one client thread and its measured database: the load phase, the transaction phase,
  or both, with the measurements reset in between.\<close>

definition reset_measurements :: "'db DBWrapper \<Rightarrow> 'db DBWrapper" where
  "reset_measurements w = w\<lparr>measurements := Reset (measurements w)\<rparr>"

definition run_phases ::
  "'db DBWrapper DB \<Rightarrow> bool \<Rightarrow> bool \<Rightarrow> int \<Rightarrow> int \<Rightarrow> CoreWorkload \<Rightarrow> 'db DBWrapper \<Rightarrow> (CoreWorkload \<times> 'db DBWrapper) outcome" where
  "run_phases d do_load do_transaction n_records n_operations wl w =
     then_do (if do_load then ClientThread d (thread_ops n_records 1 0) True True (\<not> do_transaction) wl w
              else Some (Inr (0, wl, w))) (\<lambda>(_, wl1, w1).
     then_do (if do_transaction then ClientThread d (thread_ops n_operations 1 0) False (\<not> do_load) True wl1 (reset_measurements w1)
              else Some (Inr (0, wl1, reset_measurements w1))) (\<lambda>(_, wl2, w2). Some (Inr (wl2, w2))))"

section \<open>Choosing the key of a transaction\<close>

lemma next_key_step:
  "next_key lim g = (if outputs g (drawn g) > lim then next_key lim (g\<lparr>drawn := Suc (drawn g)\<rparr>)
     else Some (outputs g (drawn g), g\<lparr>drawn := Suc (drawn g)\<rparr>))"
  by (subst next_key.simps) (simp add: gen_Next_def)

text \<open>The first suitable value drawn is returned.\<close>

lemma next_key_first:
  assumes "outputs g (drawn g + j) \<le> lim" "\<forall>i < j. outputs g (drawn g + i) > lim"
  shows "next_key lim g = Some (outputs g (drawn g + j), g\<lparr>drawn := Suc (drawn g + j)\<rparr>)"
  using assms
proof (induction j arbitrary: g)
  case 0
  then show ?case by (subst next_key_step) (simp add: leD)
next
  case (Suc j)
  have "next_key lim (g\<lparr>drawn := Suc (drawn g)\<rparr>) = Some (outputs g (drawn g + Suc j), g\<lparr>drawn := Suc (drawn g + Suc j)\<rparr>)"
    using Suc.IH [of "g\<lparr>drawn := Suc (drawn g)\<rparr>"] Suc.prems(1) spec [OF Suc.prems(2), of "Suc _"] by simp
  then show ?case using Suc.prems(2) by (subst next_key_step) auto
qed

lemma next_key_returns:
  assumes "next_key lim g = Some r"
  shows "fst r \<le> lim \<and> (\<exists>i \<ge> drawn g. fst r = outputs g i)"
proof (rule next_key.raw_induct [OF _ assms])
  fix nk :: "64 word \<Rightarrow> 64 word Generator \<Rightarrow> (64 word \<times> 64 word Generator) option" and lim g r
  assume ih: "\<And>lim g r. nk lim g = Some r \<Longrightarrow> fst r \<le> lim \<and> (\<exists>i \<ge> drawn g. fst r = outputs g i)"
    and r: "(let (k, g') = gen_Next g in if lim < k then nk lim g' else Some (k, g')) = Some r"
  show "fst r \<le> lim \<and> (\<exists>i \<ge> drawn g. fst r = outputs g i)"
  proof (cases "lim < outputs g (drawn g)")
    case True
    then have "nk lim (g\<lparr>drawn := Suc (drawn g)\<rparr>) = Some r" using r by (simp add: gen_Next_def)
    from ih [OF this] show ?thesis by (auto dest: Suc_leD)
  next
    case False
    then show ?thesis using r by (auto simp: gen_Next_def)
  qed
qed

lemma next_key_total:
  assumes "\<exists>i \<ge> drawn g. outputs g i \<le> lim"
  obtains k d where "next_key lim g = Some (k, g\<lparr>drawn := d\<rparr>)" "k \<le> lim"
proof -
  have "\<exists>j. outputs g (drawn g + j) \<le> lim" using assms by (metis le_Suc_ex)
  then obtain j where "outputs g (drawn g + j) \<le> lim" "\<forall>i < j. \<not> outputs g (drawn g + i) \<le> lim"
    using exists_least_iff [of "\<lambda>j. outputs g (drawn g + j) \<le> lim"] by blast
  then show thesis using next_key_first [of g j lim] that by (auto simp: not_le)
qed

section \<open>What an operation leaves alone\<close>

definition naming :: "CoreWorkload \<Rightarrow> bool \<times> int \<times> string" where
  "naming wl = (ordered_inserts wl, zero_padding wl, key_prefix wl)"

lemma BuildKeyName_naming: "naming wl' = naming wl \<Longrightarrow> BuildKeyName wl' = BuildKeyName wl"
  by (auto simp: naming_def BuildKeyName_def fun_eq_iff)

lemma build_fields_frame:
  "build_fields i n wl = (fs, wl') \<Longrightarrow> \<exists>g ints. wl' = wl\<lparr>field_len_generator := g, random_ints := ints\<rparr>"
proof (induction i n wl arbitrary: fs wl' rule: build_fields.induct)
  case (1 i wl)
  then show ?case by (intro exI [of _ "field_len_generator wl"] exI [of _ "random_ints wl"]) simp
next
  case (2 i n wl)
  obtain f wl1 where f: "build_field (field_prefix wl @ show_nat i) wl = (f, wl1)"
    by (cases "build_field (field_prefix wl @ show_nat i) wl")
  obtain fs' where r: "build_fields (Suc i) n wl1 = (fs', wl')" using 2(2) f by (auto split: prod.splits)
  have "\<exists>g ints. wl1 = wl\<lparr>field_len_generator := g, random_ints := ints\<rparr>"
    using f by (auto simp: build_field_def split: prod.splits)
  moreover have "wl\<lparr>field_len_generator := a, random_ints := b, field_len_generator := c, random_ints := e\<rparr> =
      wl\<lparr>field_len_generator := c, random_ints := e\<rparr>" for a b c e by simp
  ultimately show ?case using 2(1) [OF f [symmetric] refl r] by metis
qed

lemma BuildValues_frame:
  obtains fs g ints where "BuildValues wl = (fs, wl\<lparr>field_len_generator := g, random_ints := ints\<rparr>)"
  using build_fields_frame [of 0 "nat (field_count wl)" wl] by (cases "BuildValues wl") (auto simp: BuildValues_def)

lemma read_fields_frame:
  obtains fs g where "read_fields wl = (fs, wl\<lparr>field_chooser := g\<rparr>)"
proof (cases "read_all_fields wl")
  case True
  then show thesis by (intro that [of None "field_chooser wl"]) (simp add: read_fields_def)
next
  case False
  then show thesis using that by (auto simp: read_fields_def NextFieldName_def gen_Next_def)
qed

section \<open>Workloads on a store\<close>

text \<open>The number the next record of a load phase gets.\<close>

abbreviation next_record :: "CoreWorkload \<Rightarrow> 64 word" where
  "next_record wl \<equiv> counter (insert_key_sequence wl)"

abbreviation after_load :: "CoreWorkload \<Rightarrow> nat \<Rightarrow> 64 word Generator \<Rightarrow> 32 word Generator \<Rightarrow> CoreWorkload" where
  "after_load wl n g ints \<equiv>
     wl\<lparr>insert_key_sequence := \<lparr>counter = next_record wl + word_of_nat n\<rparr>, field_len_generator := g, random_ints := ints\<rparr>"

lemma naming_after_load: "BuildKeyName (after_load wl n g ints) = BuildKeyName wl"
  by (rule BuildKeyName_naming) (simp add: naming_def)

context record_store
begin

lemma DoInsert_ok:
  assumes "room_for (Suc n) s" "good (BuildKeyName wl (next_record wl))"
  obtains g ints s' where "DoInsert db wl s = Some (Inr (True, after_load wl 1 g ints, s'))" "room_for n s'"
    "holds (BuildKeyName wl (next_record wl)) s'" "\<And>k. good k \<Longrightarrow> holds k s \<Longrightarrow> holds k s'"
proof -
  let ?wl = "wl\<lparr>insert_key_sequence := \<lparr>counter = next_record wl + 1\<rparr>\<rparr>"
  obtain fs g ints where b: "BuildValues ?wl = (fs, ?wl\<lparr>field_len_generator := g, random_ints := ints\<rparr>)"
    by (rule BuildValues_frame)
  have k: "BuildKeyName ?wl = BuildKeyName wl" by (rule BuildKeyName_naming) (simp add: naming_def)
  obtain s' where s': "DB_Insert db (table_name wl) (BuildKeyName wl (next_record wl)) fs s = Some (Inr (kOK, s'))" "room_for n s'"
    "holds (BuildKeyName wl (next_record wl)) s'" "\<And>k. good k \<Longrightarrow> holds k s \<Longrightarrow> holds k s'"
    using insert_law [OF assms] by blast
  have c: "counter_Next (insert_key_sequence wl) = (next_record wl, \<lparr>counter = next_record wl + 1\<rparr>)"
    by (simp add: counter_Next_def)
  have "DoInsert db wl s = Some (Inr (True, after_load wl 1 g ints, s'))"
    using s'(1) by (simp add: DoInsert_def c b k)
  then show thesis using that s'(2-4) by blast
qed

lemma load_ok:
  assumes "room_for (m + n) s" "\<forall>i < n. good (BuildKeyName wl (next_record wl + word_of_nat i))"
  shows "\<exists>g ints s'. client_loop db True n wl s = Some (Inr (after_load wl n g ints, s')) \<and> room_for m s' \<and>
    (\<forall>i < n. holds (BuildKeyName wl (next_record wl + word_of_nat i)) s') \<and> (\<forall>k. good k \<longrightarrow> holds k s \<longrightarrow> holds k s')"
  using assms
proof (induction n arbitrary: wl s)
  case 0
  then show ?case by (intro exI [of _ "field_len_generator wl"] exI [of _ "random_ints wl"] exI [of _ s]) simp
next
  case (Suc n)
  let ?name = "\<lambda>i. BuildKeyName wl (next_record wl + word_of_nat i)"
  have r0: "room_for (Suc (m + n)) s" "good (BuildKeyName wl (next_record wl))" "\<And>i. i < Suc n \<Longrightarrow> good (?name i)"
    using Suc.prems(1) spec [OF Suc.prems(2), of 0] Suc.prems(2) by simp_all
  obtain g1 i1 s1 where s1: "DoInsert db wl s = Some (Inr (True, after_load wl 1 g1 i1, s1))" "room_for (m + n) s1"
    "holds (BuildKeyName wl (next_record wl)) s1" "\<And>k. good k \<Longrightarrow> holds k s \<Longrightarrow> holds k s1"
    by (rule DoInsert_ok [OF r0(1,2)]) (rule that)
  let ?wl = "after_load wl 1 g1 i1"
  have nm: "BuildKeyName ?wl (next_record ?wl + word_of_nat i) = ?name (Suc i)" for i
    unfolding naming_after_load by (simp add: add.assoc)
  have gs: "\<forall>i < n. good (BuildKeyName ?wl (next_record ?wl + word_of_nat i))" unfolding nm using r0(3) by blast
  obtain g ints s' where s': "client_loop db True n ?wl s1 = Some (Inr (after_load ?wl n g ints, s'))" "room_for m s'"
    "\<And>i. i < n \<Longrightarrow> holds (?name (Suc i)) s'" "\<And>k. good k \<Longrightarrow> holds k s1 \<Longrightarrow> holds k s'"
    using Suc.IH [OF s1(2) gs] unfolding nm by blast
  have "after_load ?wl n g ints = after_load wl (Suc n) g ints" by (simp add: add.assoc)
  then have "client_loop db True (Suc n) wl s = Some (Inr (after_load wl (Suc n) g ints, s'))" using s1(1) s'(1) by simp
  moreover have "holds (?name i) s'" if "i < Suc n" for i
    using that s'(3) [of "i - 1"] s'(4) [OF r0(2) s1(3)] by (cases i) simp_all
  ultimately show ?case using s'(2,4) s1(4) by blast
qed

lemma TransactionRead_ok:
  assumes "NextTransactionKeyNum wl = Some (k, wl1)" "room_for n s" "good (BuildKeyName wl k)"
  shows "\<exists>wl' s'. TransactionRead db wl s = Some (Inr (if holds (BuildKeyName wl k) s then kOK else kNotFound, wl', s')) \<and>
    room_for n s' \<and> (\<forall>k. good k \<longrightarrow> holds k s' = holds k s)"
proof -
  have "BuildKeyName wl1 = BuildKeyName wl"
    using assms(1) by (intro BuildKeyName_naming) (auto simp: NextTransactionKeyNum_def naming_def)
  moreover obtain fs g where "read_fields wl1 = (fs, wl1\<lparr>field_chooser := g\<rparr>)" by (rule read_fields_frame)
  ultimately show ?thesis
    using read_law [OF assms(2,3), of "table_name wl1" fs] assms(1) by (auto simp: TransactionRead_def)
qed

lemma wrap_read_held:
  assumes "room_for n (wrapped w)" "good key" "holds key (wrapped w)"
  obtains r l w' where "DB_Read (wrap_db db) table key wanted w = Some (Inr (kOK, r, w'))" "room_for n (wrapped w')"
    "\<And>k. good k \<Longrightarrow> holds k (wrapped w') = holds k (wrapped w)" "measurements w' = Report READ l (measurements w)"
proof -
  obtain r s' where "DB_Read db table key wanted (wrapped w) = Some (Inr (kOK, r, s'))" "room_for n s'"
    "\<And>k. good k \<Longrightarrow> holds k s' = holds k (wrapped w)"
    using read_law [OF assms(1,2), of table wanted] assms(3) by auto
  then show thesis
    using that by (auto simp: wrap_db_def wrapped_read_def report_call_def gen_Next_def)
qed

text \<open>The workload only reads, and among the values its key chooser returns there is always another one that
  names a record held.\<close>

definition reading :: "CoreWorkload \<Rightarrow> 'db DBWrapper \<Rightarrow> bool" where
  "reading wl w \<longleftrightarrow>
     (let lim = acknowledged_Last (transaction_insert_key_sequence wl)
      in (\<forall>i. outputs (op_chooser wl) i = READ) \<and> (\<forall>j. \<exists>i \<ge> j. outputs (key_chooser wl) i \<le> lim) \<and>
         (\<forall>k \<le> lim. good (BuildKeyName wl k) \<and> holds (BuildKeyName wl k) (wrapped w)))"

lemma read_step:
  assumes "reading wl w" "room_for n (wrapped w)"
  obtains wl' l w' where "DoTransaction (wrap_db db) wl w = Some (Inr (True, wl', w'))" "reading wl' w'" "room_for n (wrapped w')"
    "measurements w' = Report READ l (measurements w)"
proof -
  let ?lim = "acknowledged_Last (transaction_insert_key_sequence wl)"
  let ?wl1 = "wl\<lparr>op_chooser := (op_chooser wl)\<lparr>drawn := Suc (drawn (op_chooser wl))\<rparr>\<rparr>"
  have r: "\<And>i. outputs (op_chooser wl) i = READ" "\<And>j. \<exists>i \<ge> j. outputs (key_chooser wl) i \<le> ?lim"
    "\<And>k. k \<le> ?lim \<Longrightarrow> good (BuildKeyName wl k)" "\<And>k. k \<le> ?lim \<Longrightarrow> holds (BuildKeyName wl k) (wrapped w)"
    using assms(1) by (auto simp: reading_def Let_def)
  obtain k d where k: "next_key ?lim (key_chooser wl) = Some (k, (key_chooser wl)\<lparr>drawn := d\<rparr>)" "k \<le> ?lim"
    using r(2) by (rule next_key_total)
  let ?wl2 = "?wl1\<lparr>key_chooser := (key_chooser wl)\<lparr>drawn := d\<rparr>\<rparr>"
  obtain fs g where f: "read_fields ?wl2 = (fs, ?wl2\<lparr>field_chooser := g\<rparr>)" by (rule read_fields_frame)
  let ?wl3 = "?wl2\<lparr>field_chooser := g\<rparr>"
  have nm: "BuildKeyName ?wl2 = BuildKeyName wl" "BuildKeyName ?wl3 = BuildKeyName wl"
    by (rule BuildKeyName_naming, simp add: naming_def)+
  obtain x l w' where w': "DB_Read (wrap_db db) (table_name wl) (BuildKeyName wl k) fs w = Some (Inr (kOK, x, w'))"
    "room_for n (wrapped w')" "\<And>k. good k \<Longrightarrow> holds k (wrapped w') = holds k (wrapped w)"
    "measurements w' = Report READ l (measurements w)"
    by (rule wrap_read_held [OF assms(2) r(3,4) [OF k(2)]]) (rule that)
  have "NextTransactionKeyNum ?wl1 = Some (k, ?wl2)" using k(1) by (simp add: NextTransactionKeyNum_def)
  then have "TransactionRead (wrap_db db) ?wl1 w = Some (Inr (kOK, ?wl3, w'))"
    using w'(1) f nm(1) by (simp add: TransactionRead_def)
  then have "DoTransaction (wrap_db db) wl w = Some (Inr (True, ?wl3, w'))"
    using r(1) by (simp add: DoTransaction_def gen_Next_def)
  moreover have "reading ?wl3 w'" unfolding reading_def Let_def nm(2) using r w'(3) by simp
  ultimately show thesis using that w'(2,4) by blast
qed

lemma reads_measured:
  assumes "reading wl w" "room_for m (wrapped w)"
  shows "\<exists>wl' w'. client_loop (wrap_db db) False q wl w = Some (Inr (wl', w')) \<and> room_for m (wrapped w') \<and>
    (\<forall>op. op_count (measurements w') op = op_count (measurements w) op + (if op = READ then word_of_nat q else 0))"
  using assms
proof (induction q arbitrary: wl w)
  case (Suc q)
  obtain wl1 l w1 where s: "DoTransaction (wrap_db db) wl w = Some (Inr (True, wl1, w1))" "reading wl1 w1" "room_for m (wrapped w1)"
    "measurements w1 = Report READ l (measurements w)"
    by (rule read_step [OF Suc.prems])
  from Suc.IH [OF s(2,3)] show ?case using s(1,4) by (auto simp: Report_fields add.assoc)
qed simp

end

section \<open>Names and keys\<close>

lemma digits_word_zeros: "digits_word (replicate n (CHR ''0'') @ ds) = digits_word ds"
proof -
  have "digit_value (CHR ''0'') = 0" by (simp add: digit_value_def)
  then have "fold (\<lambda>c v. v * 10 + word_of_int (digit_value c)) (replicate n (CHR ''0'')) (0 :: 64 word) = 0"
    by (induction n) simp_all
  then show ?thesis by (simp add: digits_word_def)
qed

lemma StringToKey_padded:
  assumes "\<forall>c \<in> set prefix. \<not> is_digit c"
  shows "StringToKey h (prefix @ replicate n (CHR ''0'') @ show_nat m) = halve_key (word_of_nat m)"
proof -
  let ?ds = "replicate n (CHR ''0'') @ show_nat m"
  have ds: "\<forall>c \<in> set ?ds. is_digit c" "?ds \<noteq> []" using show_nat_digits [of m] by (auto simp: is_digit_def)
  then obtain c cs where c: "?ds = c # cs" "is_digit c" by (cases ?ds) auto
  have "dropWhile (\<lambda>c. \<not> is_digit c) (prefix @ ?ds) = ?ds"
    using assms c(2) unfolding c(1) by (induction prefix) auto
  moreover have "takeWhile is_digit ?ds = ?ds" using ds(1) by (simp only: takeWhile_eq_all_conv)
  moreover have "digits_word ?ds = word_of_nat m" by (simp add: digits_word_zeros digits_word_show)
  ultimately show ?thesis using ds(2) by (simp only: StringToKey_def Let_def if_False)
qed

text \<open>The number in the name of a record.\<close>

definition name_number :: "CoreWorkload \<Rightarrow> 64 word \<Rightarrow> 64 word" where
  "name_number wl k = (if ordered_inserts wl then k else Hash k)"

lemma key_of_record:
  assumes "\<forall>c \<in> set (key_prefix wl). \<not> is_digit c"
  shows "StringToKey h (BuildKeyName wl k) = halve_key (name_number wl k)"
  using StringToKey_padded [OF assms, of h _ "unat (name_number wl k)"]
  by (cases "ordered_inserts wl") (simp_all add: BuildKeyName_def name_number_def Let_def)

section \<open>Loads through the wrapper\<close>

lemma then_do_Inr: "then_do r f = Some (Inr y) \<longleftrightarrow> (\<exists>x. r = Some (Inr x) \<and> f x = Some (Inr y))"
  by (cases r rule: then_do.cases [of "(r, f)" for r]) auto

lemma wrap_DoInsert:
  assumes "DoInsert d wl (wrapped w) = Some (Inr (b, wl', s'))"
  shows "\<exists>w'. DoInsert (wrap_db d) wl w = Some (Inr (b, wl', w')) \<and> wrapped w' = s'"
proof -
  obtain k seq where k: "counter_Next (insert_key_sequence wl) = (k, seq)" by (cases "counter_Next (insert_key_sequence wl)")
  let ?wl = "wl\<lparr>insert_key_sequence := seq\<rparr>"
  obtain fs wl2 where b: "BuildValues ?wl = (fs, wl2)" by (cases "BuildValues ?wl")
  obtain st where st: "DB_Insert d (table_name wl2) (BuildKeyName ?wl k) fs (wrapped w) = Some (Inr (st, s'))" "b = (st = kOK)" "wl' = wl2"
    using assms by (auto simp: DoInsert_def k b then_do_Inr)
  let ?w = "report_call INSERT INSERT_FAILED st (w\<lparr>wrapped := s'\<rparr>)"
  have "DoInsert (wrap_db d) wl w = Some (Inr (b, wl', ?w))"
    using st by (simp add: DoInsert_def k b wrap_db_def wrapped_write_def)
  moreover have "wrapped ?w = s'" by (simp add: report_call_def gen_Next_def)
  ultimately show ?thesis by blast
qed

lemma wrap_load:
  "client_loop d True n wl (wrapped w) = Some (Inr (wl', s')) \<Longrightarrow>
   \<exists>w'. client_loop (wrap_db d) True n wl w = Some (Inr (wl', w')) \<and> wrapped w' = s'"
proof (induction n arbitrary: wl w)
  case (Suc n)
  obtain b wl1 s1 where s1: "DoInsert d wl (wrapped w) = Some (Inr (b, wl1, s1))" "client_loop d True n wl1 s1 = Some (Inr (wl', s'))"
    using Suc.prems by (auto simp: then_do_Inr)
  obtain w1 where w1: "DoInsert (wrap_db d) wl w = Some (Inr (b, wl1, w1))" "wrapped w1 = s1"
    using wrap_DoInsert [OF s1(1)] by blast
  then show ?case using Suc.IH [of wl1 w1] s1(2) by auto
qed simp

section \<open>A benchmark from start to end\<close>

text \<open>The records a benchmark loads: numbered from 0, named by a prefix without digits and the number itself.\<close>

definition plain_records :: "CoreWorkload \<Rightarrow> nat \<Rightarrow> bool" where
  "plain_records wl n \<longleftrightarrow> ordered_inserts wl \<and> (\<forall>c \<in> set (key_prefix wl). \<not> is_digit c) \<and> next_record wl = 0 \<and>
     transaction_insert_key_sequence wl = AcknowledgedCounterGenerator_ctor (word_of_nat n)"

lemma plain_name_good:
  assumes "plain_records wl n" "int n \<le> 2 * base - 2" "n < 2 ^ 63" "i < n"
  shows "f3_good h base (BuildKeyName wl (word_of_nat i))"
proof -
  have "StringToKey h (BuildKeyName wl (word_of_nat i)) = halve_key (word_of_nat i)"
    using assms(1) key_of_record [of wl h] by (simp add: plain_records_def name_number_def)
  moreover have "halve_key (word_of_nat i) = int (i div 2) + 1" using assms(3,4) by (intro halve_small) simp
  moreover have "int (i div 2) + 1 < base" using assms(2,4) by linarith
  moreover have "int (i div 2) + 1 < 2 ^ 63" using assms(3,4) div_le_dividend [of i 2] by simp
  ultimately show ?thesis by (simp add: f3_good_def storable_def LONG_MIN_def)
qed

lemma phases_compose:
  assumes "DB_Init d s = Some (Inr s0)" "client_loop d True n wl s0 = Some (Inr (wl1, s1))"
    "client_loop d False q wl1 (reset_measurements s1) = Some (Inr (wl2, s2))" "DB_Cleanup d s2 = Some (Inr s3)"
  shows "run_phases d True True (int n) (int q) wl s = Some (Inr (wl2, s3))"
proof -
  have "thread_ops (int m) 1 0 = int m" for m by (simp add: thread_ops_def signed_modulo_int_def)
  then show ?thesis using assms by (simp add: run_phases_def ClientThread_def)
qed

text \<open>After the load every record is held.\<close>

lemma load_plain_records:
  assumes r: "f3_room base 1 n (wrapped w)" and n: "0 < n" "n < 2 ^ 63" "int n \<le> 2 * base - 2" and wl: "plain_records wl n"
  obtains g ints w1 where
    "client_loop (wrap_db (f3tree_db sys h base topo props)) True n wl w = Some (Inr (after_load wl n g ints, w1))"
    "f3_room base 1 0 (wrapped w1)"
    "\<And>i. i < n \<Longrightarrow> f3_good h base (BuildKeyName wl (word_of_nat i)) \<and> f3_holds h (BuildKeyName wl (word_of_nat i)) (wrapped w1)"
proof -
  let ?d = "f3tree_db sys h base topo props"
  have r0: "f3_room base 1 (0 + n) (wrapped w)" using r by simp
  have gd: "f3_good h base (BuildKeyName wl (word_of_nat i))" if "i < n" for i
    using plain_name_good [OF wl n(3,2) that] .
  have nr: "next_record wl = 0" using wl by (simp add: plain_records_def)
  obtain g ints s1 where s1: "client_loop ?d True n wl (wrapped w) = Some (Inr (after_load wl n g ints, s1))" "f3_room base 1 0 s1"
    "\<And>i. i < n \<Longrightarrow> f3_holds h (BuildKeyName wl (word_of_nat i)) s1"
    using f3.load_ok [OF r0, of h wl sys topo props] gd unfolding nr by auto
  obtain w1 where "client_loop (wrap_db ?d) True n wl w = Some (Inr (after_load wl n g ints, w1))" "wrapped w1 = s1"
    using wrap_load [OF s1(1)] by auto
  then show thesis using that s1(2,3) gd by blast
qed


text \<open>What an initialized workload takes from its arguments.\<close>

lemma check_Inr: "check r f = Inr y \<longleftrightarrow> (\<exists>x. r = Inr x \<and> f x = Inr y)"
  by (cases r) auto

lemma Init_generators:
  assumes "CoreWorkload_Init stod draws p = Inr wl"
  shows "op_chooser wl = fresh (ops_drawn draws)" "key_chooser wl = fresh (keys_drawn draws)"
  using assms by (auto simp: CoreWorkload_Init_def check_Inr Let_def split: if_splits)

lemma Init_sequences:
  assumes "CoreWorkload_Init stod draws p = Inr wl" "stoi (GetProperty p ''recordcount'' []) = Inr (int n)"
  shows "transaction_insert_key_sequence wl = AcknowledgedCounterGenerator_ctor (word_of_nat n)"
  using assms by (auto simp: CoreWorkload_Init_def check_Inr int_property_def of_std_def Let_def split: if_splits)

definition sample_props :: properties where
  "sample_props = [''recordcount'' \<mapsto> ''2'', ''insertorder'' \<mapsto> ''ordered'', ''fieldcount'' \<mapsto> ''1'', ''fieldlength'' \<mapsto> ''2'']"

definition sample_draws :: Draws where
  "sample_draws = \<lparr>field_lens = (\<lambda>_. 1), ops_drawn = (\<lambda>_. READ), keys_drawn = (\<lambda>i. word_of_nat (i mod 3)),
     fields_drawn = (\<lambda>_. 0), scan_lens = (\<lambda>_. 1), ints_drawn = (\<lambda>_. 7)\<rparr>"

lemma sample_workload:
  obtains wl where "CoreWorkload_Init (\<lambda>_. Inr ()) sample_draws sample_props = Inr wl" "plain_records wl 2"
proof -
  have "(case CoreWorkload_Init (\<lambda>_. Inr ()) sample_draws sample_props of Inl e \<Rightarrow> False
      | Inr wl \<Rightarrow> ordered_inserts wl \<and> key_prefix wl = ''user'' \<and> next_record wl = 0)"
    by code_simp
  then obtain wl where wl: "CoreWorkload_Init (\<lambda>_. Inr ()) sample_draws sample_props = Inr wl" "ordered_inserts wl"
    "key_prefix wl = ''user''" "next_record wl = 0"
    by (auto split: sum.splits)
  have "stoi (GetProperty sample_props ''recordcount'' []) = Inr (int 2)" by code_simp
  moreover have "\<forall>c \<in> set ''user''. \<not> is_digit c" by code_simp
  ultimately show thesis
    using wl Init_sequences [OF wl(1)] by (intro that) (auto simp: plain_records_def)
qed


section \<open>Keys of transactions\<close>



text \<open>With no records loaded the last number of the insert sequence is the greatest 64-bit number, and every key drawn is
  accepted although no record exists.\<close>

theorem empty_load_accepts_any_key:
  assumes "transaction_insert_key_sequence wl = AcknowledgedCounterGenerator_ctor 0"
  shows "\<exists>wl'. NextTransactionKeyNum wl = Some (outputs (key_chooser wl) (drawn (key_chooser wl)), wl')"
proof -
  have l: "acknowledged_Last (transaction_insert_key_sequence wl) = - 1"
    by (simp add: assms acknowledged_Last_def AcknowledgedCounterGenerator_ctor_def)
  have "k \<le> (- 1 :: 64 word)" for k using word_n1_ge by simp
  then show ?thesis
    using next_key_first [of "key_chooser wl" 0 "- 1"] by (auto simp: NextTransactionKeyNum_def l)
qed

section \<open>Names of hashed records\<close>

lemma show_nat_inj: "show_nat m = show_nat n \<longleftrightarrow> m = n"
  using digits_value_show [of m] digits_value_show [of n] by (metis of_nat_eq_iff)

lemma BuildKeyName_inj:
  assumes "\<forall>c \<in> set (key_prefix wl). \<not> is_digit c" "BuildKeyName wl a = BuildKeyName wl b"
  shows "name_number wl a = name_number wl b"
proof -
  let ?pad = "\<lambda>v. replicate (nat (max 0 (zero_padding wl - int (length (show_nat (unat v)))))) (CHR ''0'')"
  have "?pad (name_number wl a) @ show_nat (unat (name_number wl a)) = ?pad (name_number wl b) @ show_nat (unat (name_number wl b))"
    using assms(2) by (cases "ordered_inserts wl") (simp_all add: BuildKeyName_def name_number_def Let_def)
  then have "digits_word (?pad (name_number wl a) @ show_nat (unat (name_number wl a))) =
      digits_word (?pad (name_number wl b) @ show_nat (unat (name_number wl b)))"
    by (rule arg_cong)
  then show ?thesis by (simp add: digits_word_zeros digits_word_show)
qed

text \<open>C34: Records whose numbers differ in a single octet, as any two numbers of an aligned block of 256, get different
  names, in order as well as hashed, whatever the padding; the tree nevertheless tells them apart only when
  the numbers in the names differ in more than the last bit.\<close>

theorem record_names_distinct:
  assumes "k < 8" "octet k a \<noteq> octet k b" "\<forall>i < 8. i \<noteq> k \<longrightarrow> octet i a = octet i b" "\<forall>c \<in> set (key_prefix wl). \<not> is_digit c"
  shows "BuildKeyName wl a \<noteq> BuildKeyName wl b \<and>
    (StringToKey h (BuildKeyName wl a) = StringToKey h (BuildKeyName wl b) \<longleftrightarrow>
       drop_bit 1 (name_number wl a) = drop_bit 1 (name_number wl b))"
proof -
  have "name_number wl a \<noteq> name_number wl b"
    using FNVHash64_differs [OF assms(1-3)] assms(2) by (auto simp: name_number_def Hash_def)
  moreover have "StringToKey h (BuildKeyName wl v) = sint (drop_bit 1 (name_number wl v) + 1)" for v
    using key_of_record [OF assms(4), of h v] by (simp add: halve_key_def)
  moreover have "sint (x + 1) = sint (y + 1) \<longleftrightarrow> x = y" for x y :: "64 word" by (simp add: word_eq_iff_signed [symmetric])
  ultimately show ?thesis using BuildKeyName_inj [OF assms(4), of a b] by auto
qed

theorem record_names_distinct_witness:
  "\<exists>wl. CoreWorkload_Init (\<lambda>_. Inr ()) sample_draws sample_props = Inr wl \<and> BuildKeyName wl 4 \<noteq> BuildKeyName wl 5 \<and>
     StringToKey (\<lambda>_. 0) (BuildKeyName wl 4) = StringToKey (\<lambda>_. 0) (BuildKeyName wl 5)"
proof -
  obtain wl where wl: "CoreWorkload_Init (\<lambda>_. Inr ()) sample_draws sample_props = Inr wl" "plain_records wl 2"
    by (rule sample_workload)
  have p: "\<forall>c \<in> set (key_prefix wl). \<not> is_digit c" "ordered_inserts wl" using wl(2) by (simp_all add: plain_records_def)
  have e: "drop_bit 8 (4 :: 64 word) = drop_bit 8 5" "drop_bit 1 (4 :: 64 word) = drop_bit 1 5" by simp_all
  have o: "octet 0 4 \<noteq> octet 0 5" by (simp add: octet_def)
  have "octet i w = octet (i - 1) (drop_bit 8 w)" if "i \<noteq> 0" for i and w :: "64 word"
    using that by (cases i) (simp_all add: octet_def add.commute)
  then have "\<forall>i < 8. i \<noteq> 0 \<longrightarrow> octet i 4 = octet i 5" using e(1) by metis
  from record_names_distinct [OF _ o this p(1), of "\<lambda>_. 0"] show ?thesis using wl(1) p(2) e(2) by (auto simp: name_number_def)
qed

end
