(* ===== verification/Spec2Isabelle.thy ===== *)
theory Spec2Isabelle
  imports F3Tree_DB Searches Buffered_Hash_Index Recovery Interleaving Legacy_Evaluator Rebalance
    Page_Types YCSB_Workload
begin

text \<open>
  A verification development for F3-tree, a B+-tree for persistent memory with per-producer write
  buffering.

  \<^bold>\<open>The program.\<close>  The \<^emph>\<open>global tree\<close> (\<^verbatim>\<open>core/btree.h\<close>, classes \<^verbatim>\<open>page\<close> and \<^verbatim>\<open>btree\<close>) is a B-link tree whose
  pages are shifted in place and linked to their right neighbours.  In front of it, each \<^emph>\<open>producer\<close> thread
  buffers inserts and erases in a chain of nodes of its own (the per-thread future object, PTFO), beside a
  hash table (\<^verbatim>\<open>core/hash.h\<close>) that tells readers which chains may hold a key and a lookup directory with the
  newest operation per key.  The wrapper \<^verbatim>\<open>FutureBTree\<close> (\<^verbatim>\<open>src/f3tree.cpp\<close>) numbers the operations, accounts
  for pending ones and drains chains into the global tree, on demand or from evaluator threads, under one
  of three replay policies.  In the build with persistent memory, chains and pages live in a pool and the
  tables are rebuilt when the pool is opened again.  \<^verbatim>\<open>YCSB-cpp/f3tree\<close> binds the wrapper to the YCSB benchmark
  (\<^verbatim>\<open>YCSB-cpp/core\<close>), whose client threads load records and then run transactions on them.

  \<^bold>\<open>Theories and sources.\<close>
  \<^item> \<open>F3_Prelude\<close>, \<open>Cells\<close>: shared types, collections of rules, ordered lists of cells.
  \<^item> \<open>Page\<close>, \<open>BTree\<close>: \<^verbatim>\<open>page\<close> and \<^verbatim>\<open>btree\<close> of \<^verbatim>\<open>core/btree.h\<close> on a heap of pages: \<^verbatim>\<open>count\<close>, \<^verbatim>\<open>insert_key\<close>,
    \<^verbatim>\<open>remove_key\<close>, \<^verbatim>\<open>linear_search\<close>, \<^verbatim>\<open>store\<close> with splits, \<^verbatim>\<open>btree_search\<close>, \<^verbatim>\<open>btree_insert\<close>, \<^verbatim>\<open>btree_delete\<close>.
    \<open>Page_Correct\<close>, \<open>Split_Correct\<close>, \<open>Level\<close>, \<open>BTree_Correct\<close>, \<open>BTree_Ops\<close>: pages, splits, chains of pages and
    whole trees are well-formed and stay so; the operations return and act as those of a set.
    \<open>Page_Types\<close>: whatever is inserted and deleted, the fields of every page stay within their types.
  \<^item> \<open>Range_Scan\<close>: \<^verbatim>\<open>linear_search_range\<close>, \<^verbatim>\<open>btree_search_range\<close> and \<^verbatim>\<open>FutureBTree::scan_range\<close>.
    \<open>Rebalance\<close>: \<^verbatim>\<open>remove_rebalancing\<close> and \<^verbatim>\<open>btree_delete_internal\<close>, with the page mutexes.
  \<^item> \<open>Key_Index\<close>: the contract of the global tree towards the buffering layer, as locales; \<open>BTree_Ops\<close>
    interprets them on the tree.  \<open>Probe\<close>: linear probing as a locale, interpreted by \<open>Hash_Table\<close>
    (\<^verbatim>\<open>core/hash.h\<close>), \<open>Lookup_Directory\<close> (\<^verbatim>\<open>core/btree.h\<close>) and \<open>Buffered_Hash_Index\<close>
    (\<^verbatim>\<open>src/buffered_hash_index.cpp\<close>).
  \<^item> \<open>PTFO\<close>, \<open>Futures\<close>, \<open>Searches\<close>: the chains as linked nodes in a store, \<^verbatim>\<open>future_insert\<close>, the collections and
    all searches over buffered operations.
  \<^item> \<open>Replay\<close>, \<open>Replay_Correct\<close>: \<^verbatim>\<open>future_drain_thread_from_tail\<close> and the replay modes of \<^verbatim>\<open>src/f3tree.cpp\<close>.
    \<open>Legacy_Evaluator\<close>: \<^verbatim>\<open>future_evaluate\<close> of the tree class.
  \<^item> \<open>Numa\<close>: CPU lists, topology and assignment of producers and nodes to evaluators.
  \<^item> \<open>Future_BTree\<close>, \<open>Future_BTree_Correct\<close>, \<open>Client\<close>, \<open>Drains\<close>: the wrapper as a record, its operations one by
    one, its invariant, and runs of a client against a set.  \<open>Interleaving\<close>: the steps of concurrent
    producers, drains and evaluators as a transition relation.
  \<^item> \<open>Recovery\<close>: the constructor over a pool (\<^verbatim>\<open>include/f3tree/pmem_layout.h\<close>, \<^verbatim>\<open>core/btree.h\<close>).
  \<^item> \<open>Workload\<close> (\<^verbatim>\<open>src/workload.cpp\<close>) and \<open>F3Tree_DB\<close> (\<^verbatim>\<open>YCSB-cpp/f3tree\<close>).
  \<^item> \<open>YCSB_Counters\<close> (\<^verbatim>\<open>YCSB-cpp/core/counter_generator.h\<close>, \<^verbatim>\<open>acknowledged_counter_generator.cc\<close>): the sequences of
    record numbers, with the threads that use them as a transition relation.  \<open>YCSB_Utils\<close>: hashing, properties and
    their files, the command line, rate schedules, random bytes, measurements.  \<open>YCSB_DB\<close> (\<^verbatim>\<open>db.h\<close>,
    \<^verbatim>\<open>db_wrapper.h\<close>, \<^verbatim>\<open>basic_db.cc\<close>, \<^verbatim>\<open>f3tree_db.cc\<close>): a database as a record of operations; the locale \<open>record_store\<close>
    is what a workload relies on, interpreted by the printing database, by the tree and by the tree behind the
    measuring wrapper.  \<open>YCSB_Workload\<close> (\<^verbatim>\<open>core_workload.cc\<close>, \<^verbatim>\<open>client.h\<close>, \<^verbatim>\<open>ycsbc.cc\<close>): initialization, loads,
    transactions, client threads and the phases of the program over any such database.

  \<^bold>\<open>What is shown.\<close>  A client that inserts absent keys and stays within the capacity of the tables sees a
  set, under every policy and in any order of buffered operations, drains and evaluator passes; a drain
  publishes exactly that set.  Underneath: search, insert and delete of the global tree are right on every
  well-formed tree; each replay mode applies what its policy says; all searches over buffered operations
  agree; counters never wrap; locks are taken in one order; every interleaving of producers and drains
  applies each operation once under the policies that replay everything; a reopened pool has the tables of
  its chains.  On top: a benchmark that loads records and reads them finds every one of them, transactions
  only choose records whose insert has returned, and property files are read back as written.
  Other theorems state where the code departs from this: deletes of absent keys that do not
  return, duplicate keys, full tables, partial drains that revive keys, an insert in flight lost under F3-N,
  recovered operations that are not drained, range queries after deletes, the rebalancing that
  deadlocks, and in the benchmark a window of acknowledgements that overruns unnoticed, an early cleanup that
  loses records and a load of no records that lets every key be chosen.

  \<^bold>\<open>Conventions and bounds.\<close>  A call that does not return, or whose behaviour is undefined (null or dangling
  pointers, an index out of range), has the value \<^term>\<open>None\<close>; an exception is a value of \<open>error\<close> on the left of
  a sum.  Loops along pointers are partial functions.  The recursion of \<^verbatim>\<open>store\<close> and
  \<^verbatim>\<open>btree_insert_internal\<close> takes fuel: \<open>tree_fuel\<close> is twice the level of the root plus three, two calls per
  level and one more for the outermost operation, and the theorems on the tree show that it is enough.
  Keys and pointers are integers; a key is \<open>storable\<close> when it is a 64-bit value other than 0 below
  the addresses of the pages, since the code stores the key as its own value, takes 0 for an absent one and
  tells values from sibling pointers by comparison.  Sequence numbers are 64-bit words, the switch counter an 8-bit word, counters of type
  \<^verbatim>\<open>size_t\<close> naturals with the wrap-around of subtraction written out.  Times, CPU numbers and results of
  system calls are arguments.

  \<^bold>\<open>Not modelled.\<close>  Cache-line flushes, simulated latency and torn writes (the models are of states between
  completed operations); the retries of readers that a concurrent writer of the same page causes and weak
  memory; the condition variable, except for the conditions workers wait for; printing; the benchmarks,
  tests and scripts; \<^verbatim>\<open>core/fbtree.h\<close>, an older variant of the tree that only a test program includes;
  \<^verbatim>\<open>core/bloom_filter.hpp\<close>, which nothing includes.  Of \<^verbatim>\<open>YCSB-cpp\<close>: the random distributions and the rate limiter,
  which compute with floating-point numbers and clocks (the values they return are arguments), the status
  thread, the registry of databases, several client threads at once except on the
  key sequences, the bindings of other databases, and HdrHistogram.
\<close>

section \<open>Runs of clients\<close>

text \<open>The configurations a client may construct a tree with in the theorems below.\<close>

definition plain_config :: "RuntimeConfig \<Rightarrow> bool" where
  "plain_config cfg \<longleftrightarrow> 0 < producer_threads cfg \<and> producer_threads cfg < 2 ^ 31 \<and> 0 < evaluator_threads cfg \<and>
     0 < cfg_hash_capacity cfg \<and> cfg_hash_capacity cfg < 2 ^ 31 \<and> placement_policy cfg = kDefault"

definition client_run :: "RuntimeConfig \<Rightarrow> (int \<Rightarrow> nat) \<Rightarrow> int \<Rightarrow> request list \<Rightarrow> bool" where
  "client_run cfg own base rs \<longleftrightarrow>
     allowed_run (evaluator_policy cfg) own base (producer_threads cfg) {} {} rs \<and>
     sum_list (map cost rs) \<le> cfg_hash_capacity cfg"

lemma ctor_plain: "plain_config cfg \<Longrightarrow> FutureBTree_ctor base topo cfg = Inr (Impl_ctor base topo cfg)"
  by (simp add: plain_config_def FutureBTree_ctor_def validate_runtime_config_def)

lemma client_implements:
  assumes "plain_config cfg" "0 < base" "client_run cfg own base rs" "FutureBTree_ctor base topo cfg = Inr im0"
  obtains im H n where "run sys rs im0 = Some (Inr im)" "config im = cfg"
    "implements (evaluator_policy cfg) own base (cfg_hash_capacity cfg) (spec rs) H n im"
proof -
  have "im0 = Impl_ctor base topo cfg" using assms(4) ctor_plain [OF assms(1), of base topo] by simp
  then show thesis
    using that start_run [of cfg base own rs sys topo] assms(1-3) by (auto simp: plain_config_def client_run_def)
qed

lemma run_append:
  "run sys rs im = Some (Inr im') \<Longrightarrow> run sys (rs @ rs') im = run sys rs' im'"
  by (induction rs arbitrary: im) (auto split: option.splits sum.splits)

lemma drained_key_set: "all_pending bt = [] \<Longrightarrow> view bt = key_set (bt_tree bt)"
  by (simp add: view_def newest_def)

lemma global_contains_ok:
  "uniq_tree base (bt_tree (tree im)) \<Longrightarrow> storable base k \<Longrightarrow>
   global_contains k im = Some (k \<in> key_set (bt_tree (tree im)))"
  using uix.search_law [of base "bt_tree (tree im)" k] by (auto simp: global_contains_def storable_def)

text \<open>C1: A tree built by the constructor implements a set.  After every run of buffered inserts and
  erases by any producers, direct inserts, full drains and passes of the evaluator thread, under each
  evaluation policy, no operation fails or hangs and \<^verbatim>\<open>contains\<close> answers membership in the set the
  same operations produce.  The client inserts absent keys only, the policies that order by key or by
  node restrict it further, and it stays within the capacity of the directories.\<close>

theorem future_btree_refines_set:
  assumes "plain_config cfg" "0 < base" "FutureBTree_ctor base topo cfg = Inr im0" "client_run cfg own base rs"
    "storable base k"
  shows "\<exists>im. run sys rs im0 = Some (Inr im) \<and> contains k im = Some (k \<in> spec rs)"
proof -
  obtain im H n where im: "run sys rs im0 = Some (Inr im)"
    "implements (evaluator_policy cfg) own base (cfg_hash_capacity cfg) (spec rs) H n im"
    using client_implements [OF assms(1,2,4,3)] by blast
  then show ?thesis using contains_view [of base im k] assms(5) by (auto simp: implements_def covered_def)
qed

theorem future_btree_refines_set_witness:
  "\<exists>im. run sample_sys [Warmup 5, Insert_key 7 0, Erase_key 5 1, Drain, Insert_key 9 1, Evaluate]
          (Impl_ctor 4096 no_topology (sample_config kF3N)) = Some (Inr im) \<and> contains 5 im = Some False"
proof -
  let ?rs = "[Warmup 5, Insert_key 7 0, Erase_key 5 1, Drain, Insert_key 9 1, Evaluate]"
  let ?cfg = "sample_config kF3N"
  have "plain_config ?cfg" "(0::int) < 4096" "FutureBTree_ctor 4096 no_topology ?cfg = Inr (Impl_ctor 4096 no_topology ?cfg)"
    "client_run ?cfg (\<lambda>_. 0) 4096 ?rs" "storable 4096 5"
    by (simp_all add: plain_config_def sample_config_def default_config_def client_run_def storable_def LONG_MIN_def
        by_key_def by_node_def FutureBTree_ctor_def validate_runtime_config_def)
  from future_btree_refines_set [OF this, of sample_sys] show ?thesis by (simp add: spec_def)
qed

text \<open>C5: Draining publishes everything: after any such run followed by \<^verbatim>\<open>drain_pending\<close>, no operation
  is pending and the global tree alone, which \<^verbatim>\<open>global_contains\<close> searches, holds exactly the set.\<close>

theorem drain_publishes_everything:
  assumes "plain_config cfg" "0 < base" "FutureBTree_ctor base topo cfg = Inr im0" "client_run cfg own base rs"
    "storable base k"
  shows "\<exists>im. run sys (rs @ [Drain]) im0 = Some (Inr im) \<and> pending_operation_count im = 0 \<and>
    global_contains k im = Some (k \<in> spec rs)"
proof -
  obtain im H n where im: "run sys rs im0 = Some (Inr im)"
    "implements (evaluator_policy cfg) own base (cfg_hash_capacity cfg) (spec rs) H n im"
    using client_implements [OF assms(1,2,4,3)] by blast
  obtain im' where im': "drain_pending sys im = Some im'" "all_pending (tree im') = []"
    "implements (evaluator_policy cfg) own base (cfg_hash_capacity cfg) (spec rs) H n im'"
    using drain_pending_step [OF im(2)] by blast
  then have i: "impl_ok base im'" "uniq_tree base (bt_tree (tree im'))" "key_set (bt_tree (tree im')) = spec rs"
    using drained_key_set [OF im'(2)] by (auto simp: implements_def)
  have "run sys (rs @ [Drain]) im0 = Some (Inr im')" using run_append [OF im(1), of "[Drain]"] im'(1) by simp
  then show ?thesis using pending_zero [OF i(1)] im'(2) global_contains_ok [OF i(2) assms(5)] i(3) by auto
qed

theorem drain_publishes_everything_witness:
  "\<exists>im. run sample_sys [Insert_key 7 0, Insert_key 9 1, Erase_key 7 1, Drain]
          (Impl_ctor 4096 no_topology (sample_config kDeterministicReplay)) = Some (Inr im) \<and>
        global_contains 9 im = Some True"
proof -
  let ?rs = "[Insert_key 7 0, Insert_key 9 1, Erase_key 7 1]" let ?cfg = "sample_config kDeterministicReplay"
  have "plain_config ?cfg" "(0::int) < 4096" "FutureBTree_ctor 4096 no_topology ?cfg = Inr (Impl_ctor 4096 no_topology ?cfg)"
    "client_run ?cfg (\<lambda>_. 0) 4096 ?rs" "storable 4096 9"
    by (simp_all add: plain_config_def sample_config_def default_config_def client_run_def storable_def LONG_MIN_def
        by_key_def by_node_def FutureBTree_ctor_def validate_runtime_config_def)
  from drain_publishes_everything [OF this, of sample_sys] show ?thesis by (auto simp: spec_def)
qed

section \<open>Buffered operations\<close>

text \<open>A state with buffered operations and room for more.\<close>

definition buffered_sample :: "(error + Impl) option" where
  "buffered_sample = sample_run kF3N [Insert_key 7 0, Erase_key 7 1]"

lemma buffered_sample_check:
  "(case buffered_sample of Some (Inr im) \<Rightarrow>
      \<not> table_full (bt_hash (tree im) ! 0) \<and> \<not> dir_full (bt_dirs (tree im) ! 0) \<and> next_ptfo_sequence im \<noteq> -1 \<and>
      length (ptfo_threads im) = 2 | _ \<Rightarrow> False)"
  by code_simp

lemma buffered_sample_ok:
  obtains im :: Impl where "buffered_sample = Some (Inr im)" "impl_ok 4096 im" "covered (tree im)"
    "0 < length (ptfo_threads im)" "storable 4096 9" "room (tree im) 0 9" "next_ptfo_sequence im \<noteq> -1"
proof -
  have "sample_allowed kF3N [Insert_key 7 0, Erase_key 7 1]" by code_simp
  then obtain im where im: "sample_run kF3N [Insert_key 7 0, Erase_key 7 1] = Some (Inr im)" "impl_ok 4096 im" "covered (tree im)"
    by (rule sample_impl_ok)
  then have b: "buffered_sample = Some (Inr im)" by (simp add: buffered_sample_def)
  have c: "\<not> table_full (bt_hash (tree im) ! 0)" "\<not> dir_full (bt_dirs (tree im) ! 0)" "next_ptfo_sequence im \<noteq> -1"
    "length (ptfo_threads im) = 2"
    using buffered_sample_check unfolding b by simp_all
  have "room (tree im) 0 9" using c(1,2) by (simp add: room_def hash_room_def dir_room_def)
  moreover have "storable 4096 9" by (simp add: storable_def LONG_MIN_def)
  ultimately show thesis using that [OF b im(2,3)] c by simp
qed

text \<open>C15: A buffered insert into a well-formed state returns, keeps the state well-formed, is visible
  at once although the tree has not been touched, and changes the answer for no other key.\<close>

theorem buffered_insert_correct:
  assumes "impl_ok base im" "covered (tree im)" "p < length (ptfo_threads im)" "storable base key"
    "room (tree im) p key" "next_ptfo_sequence im \<noteq> -1"
  shows "\<exists>im'. buffered_insert sys key p im = Some (Inr im') \<and> impl_ok base im' \<and> covered (tree im') \<and>
    contains key im' = Some True \<and> (\<forall>k. storable base k \<and> k \<noteq> key \<longrightarrow> contains k im' = contains k im)"
proof -
  obtain im' where im': "buffer_op sys False key p im = Some im'" "impl_ok base im'" "covered (tree im')"
    "\<And>k. storable base k \<Longrightarrow> contains k im' = (if k = key then Some (\<not> False) else contains k im)"
    by (rule buffered_ok [OF assms, of sys False]) (rule that)
  have "buffered_insert sys key p im = Some (Inr im')" using im'(1) assms(3) by (simp add: buffered_insert_def)
  then show ?thesis using im'(2-4) assms(4) by auto
qed

theorem buffered_insert_correct_witness:
  "\<exists>im im'. buffered_sample = Some (Inr im) \<and> buffered_insert sample_sys 9 0 im = Some (Inr im') \<and> contains 9 im' = Some True"
proof -
  obtain im :: Impl where im: "buffered_sample = Some (Inr im)" "impl_ok 4096 im" "covered (tree im)"
    "0 < length (ptfo_threads im)" "storable 4096 9" "room (tree im) 0 9" "next_ptfo_sequence im \<noteq> -1"
    by (rule buffered_sample_ok)
  from buffered_insert_correct [OF im(2-7), of sample_sys] show ?thesis using im(1) by blast
qed

text \<open>C16: A buffered erase of any key, stored or not, returns, keeps the state well-formed, hides the
  key at once although the tree still holds it, and changes the answer for no other key.\<close>

theorem erase_buffered_correct:
  assumes "impl_ok base im" "covered (tree im)" "p < length (ptfo_threads im)" "storable base key"
    "room (tree im) p key" "next_ptfo_sequence im \<noteq> -1"
  shows "\<exists>im'. erase_buffered sys key p im = Some (Inr im') \<and> impl_ok base im' \<and> covered (tree im') \<and>
    contains key im' = Some False \<and> (\<forall>k. storable base k \<and> k \<noteq> key \<longrightarrow> contains k im' = contains k im)"
proof -
  obtain im' where im': "buffer_op sys True key p im = Some im'" "impl_ok base im'" "covered (tree im')"
    "\<And>k. storable base k \<Longrightarrow> contains k im' = (if k = key then Some (\<not> True) else contains k im)"
    by (rule buffered_ok [OF assms, of sys True]) (rule that)
  have "erase_buffered sys key p im = Some (Inr im')" using im'(1) assms(3) by (simp add: erase_buffered_def)
  then show ?thesis using im'(2-4) assms(4) by auto
qed

theorem erase_buffered_correct_witness:
  "\<exists>im im'. buffered_sample = Some (Inr im) \<and> erase_buffered sample_sys 9 0 im = Some (Inr im') \<and> contains 9 im' = Some False"
proof -
  obtain im :: Impl where im: "buffered_sample = Some (Inr im)" "impl_ok 4096 im" "covered (tree im)"
    "0 < length (ptfo_threads im)" "storable 4096 9" "room (tree im) 0 9" "next_ptfo_sequence im \<noteq> -1"
    by (rule buffered_sample_ok)
  from erase_buffered_correct [OF im(2-7), of sample_sys] show ?thesis using im(1) by blast
qed

text \<open>C31: The constructor rejects exactly the configurations with no producer, no evaluator or no room
  in the directories, and a call that names a producer beyond the configured ones fails without
  changing anything, whatever the state.\<close>

theorem configuration_errors:
  "((\<exists>e. FutureBTree_ctor base topo cfg = Inl (runtime_error e)) \<longleftrightarrow>
      producer_threads cfg = 0 \<or> evaluator_threads cfg = 0 \<or> cfg_hash_capacity cfg = 0) \<and>
   (\<forall>im. FutureBTree_ctor base topo cfg = Inr im \<longrightarrow>
      (\<forall>p. (\<exists>e. buffered_insert sys key p im = Some (Inl e)) \<longleftrightarrow> p \<ge> producer_threads cfg))"
proof -
  have "(\<exists>e. buffered_insert sys key p im = Some (Inl e)) \<longleftrightarrow> p \<ge> producer_threads cfg"
    if "FutureBTree_ctor base topo cfg = Inr im" for im p
  proof -
    have "length (ptfo_threads im) = producer_threads cfg"
      using that by (auto simp: FutureBTree_ctor_def Impl_ctor_def Let_def split: sum.splits)
    then show ?thesis by (auto simp: buffered_insert_def)
  qed
  then show ?thesis by (auto simp: FutureBTree_ctor_def validate_runtime_config_def)
qed

theorem configuration_errors_witness:
  "\<exists>im. FutureBTree_ctor 4096 no_topology (sample_config kF3N) = Inr im \<and>
     (\<exists>e. buffered_insert sample_sys 7 2 im = Some (Inl e)) \<and> \<not> (\<exists>e. buffered_insert sample_sys 7 1 im = Some (Inl e))"
proof -
  have c: "FutureBTree_ctor 4096 no_topology (sample_config kF3N) = Inr (Impl_ctor 4096 no_topology (sample_config kF3N))"
    "producer_threads (sample_config kF3N) = 2"
    by (simp_all add: FutureBTree_ctor_def validate_runtime_config_def sample_config_def default_config_def)
  have "(\<exists>e. buffered_insert sample_sys 7 p (Impl_ctor 4096 no_topology (sample_config kF3N)) = Some (Inl e)) \<longleftrightarrow> p \<ge> 2" for p
    using configuration_errors [of 4096 no_topology "sample_config kF3N" sample_sys 7] c by simp
  from this [of 1] this [of 2] show ?thesis using c(1) by auto
qed

section \<open>Replay\<close>

text \<open>The key-partitioned replay does not depend on the number of evaluator slots: the state and
  the statistics are the same for every two numbers of slots.\<close>

theorem key_partitioned_slots_irrelevant:
  "apply_key_partitioned_ptfo_replay bt threads pids slots = apply_key_partitioned_ptfo_replay bt threads pids slots'"
  by (simp add: apply_key_partitioned_ptfo_replay_def Let_def drain_slots_concat partition_slots_concat)

text \<open>C17: The node-ordered replay of any set of producers returns and applies, each once, exactly those
  of their operations that are the newest pending operation on their key; it empties the chains of
  these producers.\<close>

theorem node_ordered_applies_winners:
  assumes "impl_ok base im" "covered (tree im)" "valid_pids (tree im) pids"
  shows "\<exists>st bt' os. apply_node_ordered_ptfo_replay (tree im) (ptfo_threads im) pids = Some (st, bt') \<and>
    replay_ops (bt_tree (tree im)) os = Some (bt_tree bt') \<and> distinct os \<and>
    set os = {op \<in> set (selected (tree im) pids). newest (op_key op) (all_pending (tree im)) = Some op} \<and>
    applied_ops st = length os \<and> cleared (tree im) bt' pids"
proof -
  let ?bt = "tree im"
  have f: "fut_ok ?bt" "accounted ?bt (ptfo_threads im)" "distinct (map op_sequence (all_pending ?bt))"
    "\<forall>tid < n_threads ?bt. increasing (producer_ops ?bt tid)" "replayable base ?bt (all_pending ?bt)" "dir_covers ?bt"
    using assms(1,2) by (auto simp: impl_ok_def seqs_ok_def covered_def)
  have v: "\<forall>pid \<in> set pids. 0 \<le> pid \<and> pid < int (n_threads ?bt)" using assms(3) by (simp add: valid_pids_def)
  have r: "replayable base ?bt (selected ?bt pids)"
    using f(5) selected_in_pending [OF v] by (auto simp: replayable_def)
  obtain st bt' os l where rep: "apply_node_ordered_ptfo_replay ?bt (ptfo_threads im) pids = Some (st, bt')"
    "drained ?bt bt' pids os" "mset l = mset (selected ?bt pids)"
    "os = filter (\<lambda>op. is_latest_buffered_op op (collect_latest_lookup_entries ?bt)) l" "applied_ops st = length os"
    by (rule node_ordered_returns [OF f(1) accounted_forI [OF f(2) assms(3)] r])
  have "set os = winners ?bt pids" unfolding rep(4) by (rule latest_winners [OF f(1) v rep(3) f(6,4,3)])
  moreover have "distinct (selected ?bt pids)" using selected_distinct [OF assms(3) f(3)] by (simp add: distinct_map)
  then have "distinct os" using rep(3,4) mset_eq_imp_distinct_iff [of l "selected ?bt pids"] by simp
  ultimately show ?thesis using rep(1,2,5) by (auto simp: drained_def winners_def)
qed

theorem node_ordered_applies_winners_witness:
  "\<exists>im st bt'. buffered_sample = Some (Inr im) \<and>
     apply_node_ordered_ptfo_replay (tree im) (ptfo_threads im) [0] = Some (st, bt') \<and> cleared (tree im) bt' [0]"
proof -
  obtain im :: Impl where im: "buffered_sample = Some (Inr im)" "impl_ok 4096 im" "covered (tree im)"
    "0 < length (ptfo_threads im)"
    by (rule buffered_sample_ok)
  have "valid_pids (tree im) [0]" using im(2,4) by (simp add: valid_pids_def impl_ok_def accounted_def)
  from node_ordered_applies_winners [OF im(2,3) this] show ?thesis using im(1) by blast
qed

text \<open>C18: The deterministic replay of any set of producers returns and applies all their operations
  once, in the order of their sequence numbers across producers; it empties the chains of these
  producers.\<close>

theorem key_ordered_replays_in_order:
  assumes "impl_ok base im" "valid_pids (tree im) pids"
  shows "\<exists>st bt' os. apply_key_ordered_ptfo_replay (tree im) (ptfo_threads im) pids = Some (st, bt') \<and>
    replay_ops (bt_tree (tree im)) os = Some (bt_tree bt') \<and> mset os = mset (selected (tree im) pids) \<and>
    increasing os \<and> applied_ops st = length os \<and> cleared (tree im) bt' pids"
proof -
  let ?bt = "tree im"
  have f: "fut_ok ?bt" "accounted ?bt (ptfo_threads im)" "distinct (map op_sequence (all_pending ?bt))"
    "replayable base ?bt (all_pending ?bt)"
    using assms(1) by (auto simp: impl_ok_def seqs_ok_def)
  have v: "\<forall>pid \<in> set pids. 0 \<le> pid \<and> pid < int (n_threads ?bt)" using assms(2) by (simp add: valid_pids_def)
  have r: "replayable base ?bt (selected ?bt pids)"
    using f(4) selected_in_pending [OF v] by (auto simp: replayable_def)
  obtain st bt' os where "apply_key_ordered_ptfo_replay ?bt (ptfo_threads im) pids = Some (st, bt')"
    "drained ?bt bt' pids os" "mset os = mset (selected ?bt pids)" "increasing os" "applied_ops st = length (selected ?bt pids)"
    by (rule key_ordered_ok [OF f(1) accounted_forI [OF f(2) assms(2)] r selected_distinct [OF assms(2) f(3)]])
  moreover from this have "length (selected ?bt pids) = length os" by (metis size_mset)
  ultimately show ?thesis by (auto simp: drained_def)
qed

theorem key_ordered_replays_in_order_witness:
  "\<exists>im st bt'. buffered_sample = Some (Inr im) \<and>
     apply_key_ordered_ptfo_replay (tree im) (ptfo_threads im) [0] = Some (st, bt') \<and> cleared (tree im) bt' [0]"
proof -
  obtain im :: Impl where im: "buffered_sample = Some (Inr im)" "impl_ok 4096 im" "0 < length (ptfo_threads im)"
    by (rule buffered_sample_ok)
  have "valid_pids (tree im) [0]" using im(2,3) by (simp add: valid_pids_def impl_ok_def accounted_def)
  from key_ordered_replays_in_order [OF im(2) this] show ?thesis using im(1) by blast
qed

section \<open>Behaviour outside the contract\<close>

text \<open>The answer to a question about the state a run ends in.\<close>

definition ask :: "(Impl \<Rightarrow> 'a) \<Rightarrow> (error + Impl) option \<Rightarrow> 'a option" where
  "ask q r = (case r of Some (Inr im) \<Rightarrow> Some (q im) | _ \<Rightarrow> None)"


text \<open>A full lookup directory loses updates: with directories of one slot, the second key a
  producer inserts is not recorded there, the node-ordered drain takes its operation for outdated and
  drops it, and the key is in no part of the tree afterwards.\<close>

theorem full_directory_loses_insert:
  "ask (\<lambda>im. (contains 7 im, map_option (\<lambda>im'. (contains 7 im', pending_operation_count im')) (drain_pending sample_sys im)))
     (run sample_sys [Insert_key 3 0, Insert_key 7 0]
       (Impl_ctor 4096 no_topology ((sample_config kF3N)\<lparr>cfg_hash_capacity := 1\<rparr>))) =
   Some (Some True, Some (Some False, 0))"
  by code_simp

text \<open>A partial drain can bring an erased key back: one producer inserts a key, another erases it,
  and the evaluator that owns the second producer alone drains its erase into a tree without the key;
  then only the older insert is pending and the key is visible again, under every evaluation policy.\<close>

theorem partial_drain_revives_key:
  "map (\<lambda>pol.
     ask (\<lambda>im. (contains 5 im, map_option (contains 5) (evaluator_pass sample_sys 1 2 im)))
       (run sample_sys [Insert_key 5 0, Erase_key 5 1] (Impl_ctor 4096 no_topology
         ((sample_config pol)\<lparr>evaluator_threads := 2, checkpoint_threshold_ops := 1\<rparr>))))
     [kF3N, kF3K, kDeterministicReplay, kLegacyKeyPartitioned, kLegacyNodePartitioned] =
   replicate 5 (Some (Some False, Some (Some True)))"
  by code_simp

text \<open>\<^verbatim>\<open>pending_future_nodes\<close> counts nodes of 30 entries although a node of the chain holds 28: after
  29 inserts the chain has two nodes and the answer is one.\<close>

theorem pending_future_nodes_undercounts:
  "ask (\<lambda>im. (pending_future_nodes 0 im, entry_count (local_fut (bt_ptfos (tree im) ! 0))))
     (sample_run kF3N (map (\<lambda>k. Insert_key k 0) [1..29])) = Some (Inr 1, 2)"
  by code_simp

end
